(* ===== verification/Prelude.thy ===== *)
theory Prelude
  imports
    Complex_Main
    "HOL-Library.AList"
    "HOL-Library.Char_ord"
    "HOL-Library.List_Lexorder"
    "HOL-Library.Monad_Syntax"
    "HOL-Library.Stream"
begin

text \<open>
  Shared material of the pgstorm development: the fragment of Go and of its standard
  library that the program uses.

  \<^item> \<open>i64\<close> and \<open>i32\<close> are Go's signed conversions (two's complement wrap-around).
    A Go \<open>int\<close> is modelled by \<open>int\<close>; every arithmetic operation whose operands the
    user controls is wrapped by \<open>i64\<close>.
  \<^item> \<open>itoa\<close>, \<open>atoi\<close>, \<open>parseBool\<close> and \<open>hex16\<close> are the verb \<open>%d\<close>,
    \<open>strconv.Atoi\<close>, \<open>strconv.ParseBool\<close> and the verb \<open>%016x\<close>.
  \<^item> An environment is a partial map; \<open>getenv\<close> is \<open>os.Getenv\<close>.
  \<^item> A Go map is an association list with distinct keys, its order standing for the
    unspecified iteration order; the component theories prove that their results do
    not depend on it.
  \<^item> A \<open>*rand.Rand\<close> is a tape of natural numbers. \<open>intn n\<close> takes the next number
    modulo \<open>n\<close>, so every sequence of results that \<open>Intn\<close> may return is produced by
    some tape; \<open>None\<close> is the panic for \<open>n \<le> 0\<close>.
  \<^item> \<open>make\<close> panics for a length that is negative or does not fit the address space: \<open>make_ok\<close>.
  \<^item> A Go panic is \<open>None\<close>, an error return is \<open>Inl\<close> of a sum or a value of \<open>goerr\<close>.
\<close>

section \<open>Lemma collections\<close>

named_theorems go_int "wrap-around integers"
named_theorems go_str "printing and parsing"
named_theorems go_map "association lists standing for Go maps"

lemma sort_eq_Nil_iff [simp]: "sort xs = [] \<longleftrightarrow> xs = []"
  by (metis length_0_conv length_sort)

section \<open>Machine integers\<close>

abbreviation i64 :: "int \<Rightarrow> int" where
  "i64 x \<equiv> signed_take_bit 63 x"

abbreviation i32 :: "int \<Rightarrow> int" where
  "i32 x \<equiv> signed_take_bit 31 x"

definition in_i64 :: "int \<Rightarrow> bool" where
  "in_i64 x \<longleftrightarrow> - (2 ^ 63) \<le> x \<and> x < 2 ^ 63"

text \<open>Go's \<open>/\<close> on integers truncates towards zero.\<close>

definition quot :: "int \<Rightarrow> int \<Rightarrow> int" where
  "quot a b = sgn a * sgn b * (\<bar>a\<bar> div \<bar>b\<bar>)"

lemma i64_id [go_int]: "in_i64 x \<Longrightarrow> i64 x = x"
  by (simp add: in_i64_def signed_take_bit_int_eq_self_iff)

lemma i32_id [go_int]: "- (2 ^ 31) \<le> x \<Longrightarrow> x < 2 ^ 31 \<Longrightarrow> i32 x = x"
  by (simp add: signed_take_bit_int_eq_self_iff)

lemma in_i64_i64 [simp]: "in_i64 (i64 x)"
  unfolding in_i64_def
  using signed_take_bit_int_greater_eq_minus_exp [of 63 x] signed_take_bit_int_less_exp [of 63 x]
  by simp

lemma i64_cong: "i64 x = i64 y \<longleftrightarrow> x mod 2 ^ 64 = y mod 2 ^ 64"
  using signed_take_bit_eq_iff_take_bit_eq [of 63 x y] by (simp add: take_bit_eq_mod)

lemma i64_nonneg [go_int]: "0 \<le> x \<Longrightarrow> x < 2 ^ 63 \<Longrightarrow> i64 x = x"
  by (rule i64_id) (simp add: in_i64_def)

lemma i64_add_left [go_int]: "i64 (i64 x + y) = i64 (x + y)"
proof -
  have "i64 (i64 x) = i64 x" by (rule i64_id) simp
  then have "i64 x mod 2 ^ 64 = x mod 2 ^ 64" by (simp only: i64_cong)
  then show ?thesis unfolding i64_cong by (rule mod_add_cong) (rule refl)
qed

lemma quot_nonneg [go_int]: "0 \<le> a \<Longrightarrow> 0 < b \<Longrightarrow> quot a b = a div b"
  by (cases "a = 0") (auto simp: quot_def)

section \<open>Allocation\<close>

text \<open>
  \<open>make([]T, n)\<close> panics with ``len out of range'' for a negative length and when \<open>n\<close> elements do not
  fit below \<open>maxAlloc\<close>, the size of the heap's address space: 48 bits on linux/amd64. Running out of
  memory below this limit ends the process and is not modelled.
\<close>

definition maxAlloc :: int where
  "maxAlloc = 2 ^ 48"

definition make_ok :: "int \<Rightarrow> int \<Rightarrow> bool" where
  "make_ok elemSize n \<longleftrightarrow> 0 \<le> n \<and> n * elemSize \<le> maxAlloc"

lemma make_ok_mono: "make_ok k n \<Longrightarrow> 0 \<le> m \<Longrightarrow> m \<le> n \<Longrightarrow> 0 \<le> k \<Longrightarrow> make_ok k m"
  unfolding make_ok_def by (meson mult_right_mono order_trans)

section \<open>Printing and parsing integers\<close>

definition digit_char :: "nat \<Rightarrow> char" where
  "digit_char d = char_of (48 + d)"

fun nat_digits :: "nat \<Rightarrow> string" where
  "nat_digits n = (if n < 10 then [digit_char n] else nat_digits (n div 10) @ [digit_char (n mod 10)])"

declare nat_digits.simps [simp del]

definition itoa :: "int \<Rightarrow> string" where
  "itoa n = (if n < 0 then CHR ''-'' # nat_digits (nat (- n)) else nat_digits (nat n))"

definition is_digit :: "char \<Rightarrow> bool" where
  "is_digit c \<longleftrightarrow> 48 \<le> (of_char c :: nat) \<and> (of_char c :: nat) \<le> 57"

fun parse_digits :: "nat \<Rightarrow> string \<Rightarrow> nat option" where
  "parse_digits acc [] = Some acc"
| "parse_digits acc (c # cs) =
     (if is_digit c then parse_digits (10 * acc + (of_char c - 48)) cs else None)"

definition parse_uint :: "string \<Rightarrow> nat option" where
  "parse_uint s = (if s = [] then None else parse_digits 0 s)"

definition in_range :: "int \<Rightarrow> int option" where
  "in_range n = (if in_i64 n then Some n else None)"

text \<open>\<open>strconv.Atoi\<close>: \<open>None\<close> is a non-nil error (syntax or range).\<close>

definition atoi :: "string \<Rightarrow> int option" where
  "atoi s = (case s of
     [] \<Rightarrow> None
   | c # cs \<Rightarrow>
       if c = CHR ''-'' then Option.bind (parse_uint cs) (\<lambda>n. in_range (- int n))
       else if c = CHR ''+'' then Option.bind (parse_uint cs) (\<lambda>n. in_range (int n))
       else Option.bind (parse_uint s) (\<lambda>n. in_range (int n)))"

definition parseBool :: "string \<Rightarrow> bool option" where
  "parseBool s =
     (if s \<in> set [''1'', ''t'', ''T'', ''TRUE'', ''true'', ''True''] then Some True
      else if s \<in> set [''0'', ''f'', ''F'', ''FALSE'', ''false'', ''False''] then Some False
      else None)"

definition hex_char :: "nat \<Rightarrow> char" where
  "hex_char d = (if d < 10 then char_of (48 + d) else char_of (87 + d))"

fun hex_digits :: "nat \<Rightarrow> nat \<Rightarrow> string" where
  "hex_digits 0 n = []"
| "hex_digits (Suc k) n = hex_digits k (n div 16) @ [hex_char (n mod 16)]"

text \<open>\<open>%016x\<close> of a non-negative \<open>int64\<close>: at most 16 hexadecimal digits, zero padded.\<close>

definition hex16 :: "nat \<Rightarrow> string" where
  "hex16 n = hex_digits 16 n"

lemma length_hex_digits [simp]: "length (hex_digits k n) = k"
  by (induction k arbitrary: n) auto

lemma length_hex16 [simp]: "length (hex16 n) = 16"
  by (simp add: hex16_def)

lemma of_char_digit_char [simp]: "d < 10 \<Longrightarrow> (of_char (digit_char d) :: nat) = 48 + d"
  by (simp add: digit_char_def)

lemma is_digit_digit_char [simp]: "d < 10 \<Longrightarrow> is_digit (digit_char d)"
  by (simp add: is_digit_def)

lemma nat_digits_digits: "\<forall>c \<in> set (nat_digits n). is_digit c"
proof (induction n rule: nat_digits.induct)
  case (1 n)
  then show ?case by (cases "n < 10") (auto simp: nat_digits.simps [of n])
qed

lemma nat_digits_not_Nil [simp]: "nat_digits n \<noteq> []"
  by (subst nat_digits.simps) simp

lemma parse_digits_append:
  "\<forall>c \<in> set xs. is_digit c \<Longrightarrow>
   parse_digits acc (xs @ ys) = Option.bind (parse_digits acc xs) (\<lambda>a. parse_digits a ys)"
  by (induction xs arbitrary: acc) auto

lemma parse_nat_digits: "parse_digits 0 (nat_digits n) = Some n"
proof (induction n rule: nat_digits.induct)
  case (1 n)
  show ?case
  proof (cases "n < 10")
    case True
    then show ?thesis by (simp add: nat_digits.simps [of n])
  next
    case False
    then have "parse_digits 0 (nat_digits (n div 10)) = Some (n div 10)"
      using 1 by simp
    then show ?thesis
      using False by (simp add: nat_digits.simps [of n] parse_digits_append nat_digits_digits)
  qed
qed

lemma nat_digits_hd: "is_digit (hd (nat_digits n))"
  using nat_digits_digits nat_digits_not_Nil by (meson hd_in_set)

lemma atoi_nat_digits: "in_i64 (int n) \<Longrightarrow> atoi (nat_digits n) = Some (int n)"
proof -
  assume r: "in_i64 (int n)"
  obtain c cs where s: "nat_digits n = c # cs"
    using nat_digits_not_Nil by (meson neq_Nil_conv)
  then have "is_digit c" using nat_digits_hd [of n] by simp
  then have "c \<noteq> CHR ''-''" and "c \<noteq> CHR ''+''" by (auto simp: is_digit_def)
  then show ?thesis
    using r parse_nat_digits [of n] unfolding s
    by (simp add: atoi_def parse_uint_def in_range_def)
qed

lemma atoi_itoa [go_str]: "in_i64 n \<Longrightarrow> atoi (itoa n) = Some n"
proof (cases "n < 0")
  case True
  moreover assume "in_i64 n"
  ultimately show ?thesis
    using parse_nat_digits [of "nat (- n)"]
    by (simp add: itoa_def atoi_def parse_uint_def in_range_def)
next
  case False
  moreover assume "in_i64 n"
  ultimately show ?thesis
    using atoi_nat_digits [of "nat n"] by (simp add: itoa_def)
qed

lemma atoi_Nil [simp]: "atoi [] = None"
  by (simp add: atoi_def)

lemma itoa_not_Nil [simp]: "itoa n \<noteq> []"
  by (simp add: itoa_def)

lemmas atoi_compute = atoi_def parse_uint_def is_digit_def in_range_def in_i64_def

lemma atoi_range: "atoi s = Some n \<Longrightarrow> in_i64 n"
  by (auto simp: atoi_def in_range_def split: list.splits if_splits Option.bind_splits)

section \<open>The process environment\<close>

type_synonym env = "string \<rightharpoonup> string"

definition getenv :: "env \<Rightarrow> string \<Rightarrow> string" where
  "getenv e k = (case e k of None \<Rightarrow> [] | Some v \<Rightarrow> v)"

section \<open>Errors\<close>

text \<open>
  The error values the program creates or compares. \<open>Wrap m e\<close> is
  \<open>fmt.Errorf("m: %w", e)\<close>; \<open>ErrOther\<close> stands for any error of a dependency.
\<close>

datatype goerr =
    ErrSkipped
  | ErrCanceled
  | ErrDeadlineExceeded
  | ErrNoRows
  | ErrText string
  | ErrOther nat
  | Wrap string goerr

text \<open>\<open>errors.Is\<close>: equality anywhere along the chain of wraps.\<close>

fun errors_Is :: "goerr \<Rightarrow> goerr \<Rightarrow> bool" where
  "errors_Is (Wrap m e) t = (Wrap m e = t \<or> errors_Is e t)"
| "errors_Is e t = (e = t)"

section \<open>Random sources\<close>

type_synonym rng = "nat stream"

definition intn :: "int \<Rightarrow> rng \<Rightarrow> (int \<times> rng) option" where
  "intn n r = (if n \<le> 0 then None else Some (int (shd r) mod n, stl r))"

definition int63 :: "rng \<Rightarrow> nat \<times> rng" where
  "int63 r = (shd r mod 2 ^ 63, stl r)"

lemma intn_Some: "intn n r = Some (i, r') \<Longrightarrow> 0 \<le> i \<and> i < n"
  by (auto simp: intn_def split: if_splits)

lemma intn_total: "0 < n \<Longrightarrow> \<exists>i. intn n r = Some (i, stl r) \<and> 0 \<le> i \<and> i < n"
  by (simp add: intn_def)

text \<open>Every in-range value is a possible result.\<close>

lemma intn_complete: "0 \<le> i \<Longrightarrow> i < n \<Longrightarrow> intn n (nat i ## r) = Some (i, r)"
  by (simp add: intn_def)

section \<open>Go maps\<close>

type_synonym ('k, 'v) gomap = "('k \<times> 'v) list"

text \<open>Reading an integer-valued map at an absent key gives zero; \<open>m[k] += n\<close>.\<close>

definition mget :: "('k, int) gomap \<Rightarrow> 'k \<Rightarrow> int" where
  "mget m k = (case map_of m k of None \<Rightarrow> 0 | Some v \<Rightarrow> v)"

definition madd :: "('k, int) gomap \<Rightarrow> 'k \<Rightarrow> int \<Rightarrow> ('k, int) gomap" where
  "madd m k n = AList.update k (mget m k + n) m"

definition keys_ok :: "('k, 'v) gomap \<Rightarrow> bool" where
  "keys_ok m \<longleftrightarrow> distinct (map fst m)"

lemma keys_ok_Nil [simp]: "keys_ok []"
  by (simp add: keys_ok_def)

lemma keys_ok_Cons [simp]: "keys_ok ((k, v) # m) \<longleftrightarrow> k \<notin> fst ` set m \<and> keys_ok m"
  by (simp add: keys_ok_def)

lemma keys_ok_update [simp]: "keys_ok m \<Longrightarrow> keys_ok (AList.update k v m)"
  by (simp add: keys_ok_def distinct_update)

lemma set_update_subset: "set (AList.update k v m) \<subseteq> insert (k, v) (set m)"
  by (induction m) auto

lemma mget_Nil [simp]: "mget [] k = 0"
  by (simp add: mget_def)

lemma mget_madd [go_map]: "mget (madd m k n) k' = (if k = k' then mget m k + n else mget m k')"
  by (simp add: madd_def mget_def update_conv)

lemma keys_ok_madd [simp]: "keys_ok m \<Longrightarrow> keys_ok (madd m k n)"
  by (simp add: madd_def)

lemma map_of_eq_perm:
  assumes "keys_ok m" "keys_ok m'" "map_of m = map_of m'"
  shows "set m = set m'"
  using assms map_of_eq_Some_iff unfolding keys_ok_def by (metis (no_types, lifting) subrelI subset_antisym)

text \<open>The sum of all values, the \<open>for _, n := range m\<close> loops.\<close>

lemma sum_list_mget:
  assumes "keys_ok m" "finite K" "fst ` set m \<subseteq> K"
  shows "sum_list (map snd m) = (\<Sum>k \<in> K. mget m k)"
  using assms
proof (induction m)
  case Nil
  then show ?case by simp
next
  case (Cons p m)
  obtain k v where p: "p = (k, v)" by fastforce
  have k: "k \<in> K" "k \<notin> fst ` set m" using Cons.prems p by auto
  then have mk: "mget m k = 0"
    by (simp add: mget_def map_of_eq_None_iff [THEN iffD2])
  have "(\<Sum>j \<in> K. mget (p # m) j) = (\<Sum>j \<in> K. mget m j + (if j = k then v else 0))"
    by (rule sum.cong) (auto simp: p mget_def mk [unfolded mget_def])
  also have "\<dots> = (\<Sum>j \<in> K. mget m j) + v"
    using k Cons.prems by (simp add: sum.distrib)
  finally show ?case using Cons p by simp
qed

lemma sum_list_madd:
  assumes "keys_ok m"
  shows "sum_list (map snd (madd m k n)) = sum_list (map snd m) + n"
proof -
  let ?K = "insert k (fst ` set m)"
  have "fst ` set (madd m k n) \<subseteq> ?K"
    using update_keys [of k "mget m k + n" m] by (auto simp: madd_def dom_update)
  then have "sum_list (map snd (madd m k n)) = (\<Sum>j \<in> ?K. mget (madd m k n) j)"
    using assms by (intro sum_list_mget) auto
  also have "\<dots> = (\<Sum>j \<in> ?K. mget m j + (if j = k then n else 0))"
    by (rule sum.cong) (auto simp: mget_madd)
  also have "\<dots> = (\<Sum>j \<in> ?K. mget m j) + n"
    by (simp add: sum.distrib)
  also have "(\<Sum>j \<in> ?K. mget m j) = sum_list (map snd m)"
    using assms by (intro sum_list_mget [symmetric]) auto
  finally show ?thesis .
qed

text \<open>Sums over the values of a map, regrouped along a list of all its keys.\<close>

lemma sum_list_map_of:
  fixes f :: "'v \<Rightarrow> int"
  assumes "keys_ok m" "distinct ks" "fst ` set m \<subseteq> set ks"
  shows "sum_list (map (\<lambda>(k, v). f v) m) =
         sum_list (map (\<lambda>k. case map_of m k of None \<Rightarrow> 0 | Some v \<Rightarrow> f v) ks)"
proof -
  let ?m = "map (\<lambda>(k, v). (k, f v)) m"
  have fst: "map fst ?m = map fst m" by auto
  have "mget ?m k = (case map_of m k of None \<Rightarrow> 0 | Some v \<Rightarrow> f v)" for k
    unfolding mget_def by (induction m) auto
  moreover have "sum_list (map snd ?m) = (\<Sum>k \<in> set ks. mget ?m k)"
    using assms fst by (intro sum_list_mget) (auto simp: keys_ok_def simp del: map_map)
  moreover have "map snd ?m = map (\<lambda>(k, v). f v) m" by auto
  ultimately show ?thesis using assms(2) by (simp add: sum_list_distinct_conv_sum_set del: map_map)
qed

lemma sum_list_update_int:
  "i < length xs \<Longrightarrow> sum_list (xs[i := v]) = sum_list xs - xs ! i + (v :: int)"
  by (induction xs arbitrary: i) (auto split: nat.split)

section \<open>Reachable states\<close>

text \<open>The states a transition relation reaches from its initial states, and the rule every
  invariant of the development is proved by.\<close>

inductive reach :: "('s \<Rightarrow> bool) \<Rightarrow> ('s \<Rightarrow> 's \<Rightarrow> bool) \<Rightarrow> 's \<Rightarrow> bool"
  for init :: "'s \<Rightarrow> bool" and step :: "'s \<Rightarrow> 's \<Rightarrow> bool" where
  start: "init s \<Longrightarrow> reach init step s"
| next_step: "reach init step s \<Longrightarrow> step s s' \<Longrightarrow> reach init step s'"

lemma reach_rtranclp: "reach init step s \<Longrightarrow> step\<^sup>*\<^sup>* s s' \<Longrightarrow> reach init step s'"
  by (rotate_tac, induction rule: rtranclp_induct) (auto intro: next_step)

locale inductive_invariant =
  fixes init :: "'s \<Rightarrow> bool" and step :: "'s \<Rightarrow> 's \<Rightarrow> bool" and good :: "'s \<Rightarrow> bool"
  assumes init_good: "init s \<Longrightarrow> good s"
    and step_good: "good s \<Longrightarrow> step s s' \<Longrightarrow> good s'"
begin

lemma always_good: "reach init step s \<Longrightarrow> good s"
  by (induction rule: reach.induct) (auto intro: init_good step_good)

lemma run_good: "step\<^sup>*\<^sup>* s s' \<Longrightarrow> good s \<Longrightarrow> good s'"
  by (induction rule: rtranclp_induct) (auto intro: step_good)

end

end
