(* ===== verification/Ring.thy ===== *)
theory Ring
  imports Prelude "HOL-Library.Word"
begin

unbundle bit_operations_syntax

text \<open>
  Session identifiers and the shared ring of recently inserted sessions:
  \<open>workload/ring.go\<close> and the version-4 generator of the vendored \<open>google/uuid\<close>.

  A UUID is Go's \<open>[16]byte\<close>, a list of sixteen bytes. The ring's methods run under its
  mutex, so each call is one function on the record; a run of the workers is some sequence
  of those calls. The interface a client relies on, a bounded buffer that keeps the most
  recent items, is the locale \<open>recent_buffer\<close>, extended by \<open>sampled_buffer\<close> with the
  random pick; \<open>SessionRing\<close> is interpreted in both.
\<close>

section \<open>UUIDs\<close>

type_synonym byte = "8 word"
type_synonym uuid = "byte list"

text \<open>The system entropy source, read sixteen bytes at a time.\<close>

type_synonym entropy = "byte stream"

definition uuid_Nil :: uuid where
  "uuid_Nil = replicate 16 0"

definition uuid_New :: "entropy \<Rightarrow> uuid \<times> entropy" where
  "uuid_New r =
     (let u = stake 16 r;
          u = u[6 := (u ! 6 AND 0x0f) OR 0x40];
          u = u[8 := (u ! 8 AND 0x3f) OR 0x80]
      in (u, sdrop 16 r))"

section \<open>The ring\<close>

record SessionRing =
  buf :: "uuid list"
  rsize :: int
  head :: int
  fill :: int

text \<open>A UUID takes sixteen bytes; \<open>None\<close> is the panic of \<open>make\<close>.\<close>

definition NewSessionRing :: "int \<Rightarrow> SessionRing option" where
  "NewSessionRing n =
     (if \<not> make_ok 16 n then None
      else Some \<lparr>buf = replicate (nat n) uuid_Nil, rsize = n, head = 0, fill = 0\<rparr>)"

definition Push :: "SessionRing \<Rightarrow> uuid \<Rightarrow> SessionRing option" where
  "Push r u =
     (if head r < 0 \<or> head r \<ge> int (length (buf r)) then None
      else
        let r1 = r\<lparr>buf := (buf r)[nat (head r) := u]\<rparr> in
        if rsize r1 = 0 then None
        else
          let r2 = r1\<lparr>head := (head r1 + 1) mod rsize r1\<rparr> in
          Some (if fill r2 < rsize r2 then r2\<lparr>fill := fill r2 + 1\<rparr> else r2))"

definition Sample :: "SessionRing \<Rightarrow> rng \<Rightarrow> ((uuid \<times> bool) \<times> rng) option" where
  "Sample r g =
     (if fill r = 0 then Some ((uuid_Nil, False), g)
      else do {
        (idx, g') \<leftarrow> intn (fill r) g;
        if idx < int (length (buf r)) then Some ((buf r ! nat idx, True), g') else None
      })"

text \<open>Consecutive calls of \<open>Push\<close>, in the order in which the mutex admits them.\<close>

fun push_all :: "SessionRing \<Rightarrow> uuid list \<Rightarrow> SessionRing option" where
  "push_all r [] = Some r"
| "push_all r (u # us) = Option.bind (Push r u) (\<lambda>r'. push_all r' us)"

section \<open>Specification\<close>

text \<open>The populated slots, oldest first, and the representation invariant.\<close>

definition contents :: "SessionRing \<Rightarrow> uuid list" where
  "contents r =
     (if fill r < rsize r then take (nat (fill r)) (buf r)
      else drop (nat (head r)) (buf r) @ take (nat (head r)) (buf r))"

definition ring_inv :: "SessionRing \<Rightarrow> bool" where
  "ring_inv r \<longleftrightarrow>
     0 < rsize r \<and> int (length (buf r)) = rsize r \<and> 0 \<le> head r \<and> head r < rsize r \<and>
     0 \<le> fill r \<and> fill r \<le> rsize r \<and> (fill r < rsize r \<longrightarrow> head r = fill r)"

text \<open>The last \<open>n\<close> items of a history.\<close>

definition recent :: "nat \<Rightarrow> 'a list \<Rightarrow> 'a list" where
  "recent n xs = drop (length xs - n) xs"

lemma recent_Nil [simp]: "recent n [] = []"
  by (simp add: recent_def)

lemma recent_snoc: "0 < n \<Longrightarrow> recent n (recent n xs @ [x]) = recent n (xs @ [x])"
  by (cases "length xs \<le> n") (auto simp: recent_def drop_append min_def Suc_diff_le)

lemma recent_recent_append:
  "0 < n \<Longrightarrow> recent n (recent n xs @ ys) = recent n (xs @ ys)"
proof (induction ys arbitrary: xs)
  case Nil
  then show ?case by (auto simp: recent_def)
next
  case (Cons y ys)
  have "recent n ((recent n xs @ [y]) @ ys) = recent n (recent n (recent n xs @ [y]) @ ys)"
    using Cons by (metis)
  also have "\<dots> = recent n (recent n (xs @ [y]) @ ys)"
    using Cons.prems by (simp add: recent_snoc)
  also have "\<dots> = recent n ((xs @ [y]) @ ys)"
    using Cons by metis
  finally show ?case by simp
qed

lemma set_recent: "set (recent n xs) \<subseteq> set xs"
  by (simp add: recent_def set_drop_subset)

locale recent_buffer =
  fixes new :: "int \<Rightarrow> 'b option"
    and push :: "'b \<Rightarrow> 'a \<Rightarrow> 'b option"
    and items :: "'b \<Rightarrow> 'a list"
    and capacity :: "'b \<Rightarrow> nat"
    and inv :: "'b \<Rightarrow> bool"
  assumes new_ok: "0 < n \<Longrightarrow> new n = Some b \<Longrightarrow> inv b \<and> items b = [] \<and> capacity b = nat n"
    and capacity_pos: "inv b \<Longrightarrow> 0 < capacity b"
    and push_ok: "inv b \<Longrightarrow>
          \<exists>b'. push b x = Some b' \<and> inv b' \<and> capacity b' = capacity b \<and>
               items b' = recent (capacity b) (items b @ [x])"
begin

fun pushes :: "'b \<Rightarrow> 'a list \<Rightarrow> 'b option" where
  "pushes b [] = Some b"
| "pushes b (x # xs) = Option.bind (push b x) (\<lambda>b'. pushes b' xs)"

lemma pushes_recent:
  assumes "inv b"
  shows "\<exists>b'. pushes b xs = Some b' \<and> inv b' \<and> capacity b' = capacity b \<and>
              recent (capacity b) (items b @ xs) = recent (capacity b) (items b')"
  using assms
proof (induction xs arbitrary: b)
  case Nil
  then show ?case by simp
next
  case (Cons x xs)
  obtain b1 where b1: "push b x = Some b1" "inv b1" "capacity b1 = capacity b"
      "items b1 = recent (capacity b) (items b @ [x])"
    using push_ok [OF Cons.prems] by blast
  obtain b2 where b2: "pushes b1 xs = Some b2" "inv b2" "capacity b2 = capacity b1"
      "recent (capacity b1) (items b1 @ xs) = recent (capacity b1) (items b2)"
    using Cons.IH [OF b1(2)] by blast
  have "recent (capacity b) (items b @ x # xs) = recent (capacity b) (items b1 @ xs)"
    using recent_recent_append [of "capacity b" "items b @ [x]" xs] capacity_pos [OF Cons.prems]
    by (simp add: b1(4))
  with b1 b2 show ?case by auto
qed

lemma pushes_snoc: "pushes b (xs @ [x]) = Option.bind (pushes b xs) (\<lambda>b'. push b' x)"
  by (induction xs arbitrary: b) (simp_all split: Option.bind_split)

lemma items_length:
  assumes "inv b" and "push b x = Some b'"
  shows "length (items b') \<le> capacity b'"
  using push_ok [OF assms(1), of x] assms(2) by (auto simp: recent_def)

lemma pushes_from_new:
  assumes "0 < n" and "new n = Some b0"
  shows "\<exists>b. pushes b0 xs = Some b \<and> inv b \<and> items b = recent (nat n) xs"
proof -
  have b0: "inv b0" "items b0 = []" "capacity b0 = nat n" using new_ok [OF assms] by simp_all
  obtain b where b: "pushes b0 xs = Some b" "inv b" "capacity b = nat n"
      "recent (nat n) xs = recent (nat n) (items b)"
    using pushes_recent [OF b0(1), of xs] b0 by auto
  have "length (items b) \<le> nat n"
  proof (cases xs rule: rev_cases)
    case Nil
    then show ?thesis using b b0 by simp
  next
    case (snoc ys y)
    obtain b1 where b1: "pushes b0 ys = Some b1" "inv b1"
      using pushes_recent [OF b0(1), of ys] by blast
    have "push b1 y = Some b" using b1 b(1) snoc by (simp add: pushes_snoc)
    then have "length (items b) \<le> capacity b" by (rule items_length [OF b1(2)])
    then show ?thesis using b(3) by simp
  qed
  then have "recent (nat n) (items b) = items b" by (simp add: recent_def)
  then show ?thesis using b b0 by auto
qed

end

locale sampled_buffer = recent_buffer new push items capacity inv
  for new :: "int \<Rightarrow> 'b option"
    and push :: "'b \<Rightarrow> 'a \<Rightarrow> 'b option"
    and items :: "'b \<Rightarrow> 'a list"
    and capacity :: "'b \<Rightarrow> nat"
    and inv :: "'b \<Rightarrow> bool" +
  fixes sample :: "'b \<Rightarrow> rng \<Rightarrow> (('a \<times> bool) \<times> rng) option"
    and nil :: 'a
  assumes sample_empty: "inv b \<Longrightarrow> items b = [] \<Longrightarrow> sample b g = Some ((nil, False), g)"
    and sample_some: "inv b \<Longrightarrow> items b \<noteq> [] \<Longrightarrow>
          \<exists>x. sample b g = Some ((x, True), stl g) \<and> x \<in> set (items b)"
    and sample_every: "inv b \<Longrightarrow> x \<in> set (items b) \<Longrightarrow>
          \<exists>k. sample b (k ## g) = Some ((x, True), g)"
begin

lemma sample_total:
  assumes "inv b"
  shows "\<exists>x ok g'. sample b g = Some ((x, ok), g') \<and> (ok \<longleftrightarrow> items b \<noteq> []) \<and> (ok \<longrightarrow> x \<in> set (items b))"
proof (cases "items b = []")
  case True
  then show ?thesis using sample_empty [OF assms, of g] by blast
next
  case False
  then show ?thesis using sample_some [OF assms, of g] by auto
qed

lemma sampled_was_pushed:
  assumes "0 < n" and "new n = Some b0" and "pushes b0 xs = Some b"
    and "sample b g = Some ((x, True), g')"
  shows "x \<in> set (recent (nat n) xs)"
proof -
  have "inv b" "items b = recent (nat n) xs"
    using pushes_from_new [OF assms(1,2), of xs] assms(3) by auto
  then show ?thesis
    using sample_total [of b g] assms(4) by auto
qed

end

section \<open>Laws of the implementation\<close>

lemma length_uuid_New [simp]: "length (fst (uuid_New r)) = 16"
  by (simp add: uuid_New_def Let_def)

lemma NewSessionRing_iff: "NewSessionRing n = None \<longleftrightarrow> n < 0 \<or> 2 ^ 44 < n"
  by (auto simp: NewSessionRing_def make_ok_def maxAlloc_def)

lemma ring_inv_new:
  "0 < n \<Longrightarrow> NewSessionRing n = Some r \<Longrightarrow> ring_inv r \<and> contents r = [] \<and> rsize r = n"
  by (auto simp: NewSessionRing_def ring_inv_def contents_def split: if_splits)

lemma length_contents: "ring_inv r \<Longrightarrow> length (contents r) = nat (fill r)"
  by (auto simp: ring_inv_def contents_def)

lemma Push_filling:
  assumes inv: "ring_inv r" and "fill r < rsize r"
  shows "\<exists>r'. Push r u = Some r' \<and> ring_inv r' \<and> rsize r' = rsize r \<and>
              contents r' = contents r @ [u]"
proof -
  let ?h = "nat (head r)"
  have h: "head r = fill r" "?h < length (buf r)" "0 \<le> head r" "0 < rsize r"
      "int (length (buf r)) = rsize r"
    using assms by (auto simp: ring_inv_def)
  have m: "(head r + 1) mod rsize r = (if head r + 1 = rsize r then 0 else head r + 1)"
    using h assms(2) by auto
  have tk: "take (Suc ?h) ((buf r)[?h := u]) = take ?h (buf r) @ [u]"
    using h(2) by (simp add: take_Suc_conv_app_nth)
  have n: "nat (head r + 1) = Suc ?h" using h by simp
  let ?r = "r\<lparr>buf := (buf r)[?h := u], head := (head r + 1) mod rsize r, fill := fill r + 1\<rparr>"
  have "Push r u = Some ?r"
    using h assms by (simp add: Push_def)
  moreover have "ring_inv ?r" using assms h m by (auto simp: ring_inv_def)
  moreover have "contents ?r = contents r @ [u]"
  proof (cases "head r + 1 = rsize r")
    case True
    then have "length (buf r) = Suc ?h" using h by simp
    then have "(buf r)[?h := u] = take ?h (buf r) @ [u]"
      using tk by (metis length_list_update take_all_iff order_refl)
    then show ?thesis using True h m assms by (simp add: contents_def)
  next
    case False
    then show ?thesis using h m n tk assms by (simp add: contents_def)
  qed
  ultimately show ?thesis by auto
qed

lemma Push_full:
  assumes inv: "ring_inv r" and full: "fill r = rsize r"
  shows "\<exists>r'. Push r u = Some r' \<and> ring_inv r' \<and> rsize r' = rsize r \<and>
              contents r' = tl (contents r) @ [u]"
proof -
  let ?h = "nat (head r)" and ?b = "buf r"
  have h: "?h < length ?b" "0 \<le> head r" "0 < rsize r" "int (length ?b) = rsize r" "head r < rsize r"
    using assms by (auto simp: ring_inv_def)
  have m: "(head r + 1) mod rsize r = (if head r + 1 = rsize r then 0 else head r + 1)"
    using h by auto
  let ?r = "r\<lparr>buf := ?b[?h := u], head := (head r + 1) mod rsize r\<rparr>"
  have p: "Push r u = Some ?r" using h full by (simp add: Push_def)
  have i: "ring_inv ?r" using assms h m by (auto simp: ring_inv_def)
  have tl: "tl (contents r) = drop (Suc ?h) ?b @ take ?h ?b"
    using full h(1) by (simp add: contents_def drop_Suc tl_drop flip: drop_Suc)
  have "contents ?r = drop (Suc ?h) ?b @ take ?h ?b @ [u]"
  proof (cases "head r + 1 = rsize r")
    case True
    then have len: "length ?b = Suc ?h" using h by simp
    then have "?b[?h := u] = take ?h ?b @ [u]"
      by (metis h(1) length_list_update list_update_same_conv nth_list_update_eq take_Suc_conv_app_nth take_all_iff order_refl take_update_cancel)
    then show ?thesis using True full m len by (simp add: contents_def)
  next
    case False
    have n: "nat (head r + 1) = Suc ?h" using h by simp
    have "take (Suc ?h) (?b[?h := u]) = take ?h ?b @ [u]"
      using h(1) by (simp add: take_Suc_conv_app_nth)
    then show ?thesis using False full m n h by (simp add: contents_def)
  qed
  then have "contents ?r = tl (contents r) @ [u]" by (simp add: tl)
  with p i show ?thesis by auto
qed

lemma Push_recent:
  assumes "ring_inv r"
  shows "\<exists>r'. Push r u = Some r' \<and> ring_inv r' \<and> nat (rsize r') = nat (rsize r) \<and>
              contents r' = recent (nat (rsize r)) (contents r @ [u])"
proof (cases "fill r < rsize r")
  case True
  then have "length (contents r @ [u]) \<le> nat (rsize r)"
    using length_contents [OF assms] assms by (auto simp: ring_inv_def)
  then show ?thesis using Push_filling [OF assms True, of u] by (auto simp: recent_def)
next
  case False
  then have f: "fill r = rsize r" using assms by (simp add: ring_inv_def)
  then have "length (contents r) = nat (rsize r)" "0 < nat (rsize r)"
    using length_contents [OF assms] assms by (auto simp: ring_inv_def)
  then have "recent (nat (rsize r)) (contents r @ [u]) = tl (contents r) @ [u]"
    by (auto simp: recent_def drop_Suc Suc_diff_le)
  then show ?thesis using Push_full [OF assms f, of u] by auto
qed

lemma set_contents: "ring_inv r \<Longrightarrow> set (contents r) = set (take (nat (fill r)) (buf r))"
proof (cases "fill r < rsize r")
  case False
  assume "ring_inv r"
  with False have "fill r = rsize r" "length (buf r) = nat (rsize r)" by (auto simp: ring_inv_def)
  moreover have "set (drop k xs @ take k xs) = set xs" for k and xs :: "uuid list"
    by (metis append_take_drop_id set_append sup_commute)
  ultimately show ?thesis by (simp add: contents_def del: set_append)
qed (simp add: contents_def)

lemma Sample_pick:
  assumes inv: "ring_inv r" and ne: "fill r \<noteq> 0"
  shows "Sample r g = Some ((buf r ! nat (int (shd g) mod fill r), True), stl g)"
    and "nat (int (shd g) mod fill r) < nat (fill r)"
proof -
  have f: "0 < fill r" "fill r \<le> int (length (buf r))" using assms by (auto simp: ring_inv_def)
  then have "0 \<le> int (shd g) mod fill r" "int (shd g) mod fill r < fill r" by simp_all
  with f show "Sample r g = Some ((buf r ! nat (int (shd g) mod fill r), True), stl g)"
    and "nat (int (shd g) mod fill r) < nat (fill r)"
    by (auto simp: Sample_def intn_def)
qed

interpretation ring: sampled_buffer NewSessionRing Push contents "\<lambda>r. nat (rsize r)" ring_inv Sample uuid_Nil
proof (unfold_locales, goal_cases)
  case (1 n b)
  then show ?case using ring_inv_new [of n b] by simp
next
  case (2 b)
  then show ?case by (simp add: ring_inv_def)
next
  case (3 b x)
  then show ?case by (rule Push_recent)
next
  case (4 b g)
  then show ?case using length_contents [of b] by (auto simp: Sample_def ring_inv_def)
next
  case (5 b g)
  then have "fill b \<noteq> 0" using length_contents [of b] by auto
  moreover have "length (buf b) \<ge> nat (fill b)" using 5 by (auto simp: ring_inv_def)
  ultimately show ?case
    using Sample_pick [OF 5(1), of g] set_contents [OF 5(1)]
    by (auto simp: in_set_conv_nth intro!: exI [of _ "nat (int (shd g) mod fill b)"])
next
  case (6 b x g)
  then obtain k where k: "k < nat (fill b)" "buf b ! k = x"
    using set_contents [OF 6(1)] by (auto simp: in_set_conv_nth)
  then have "fill b \<noteq> 0" by auto
  then have "Sample b (k ## g) = Some ((buf b ! nat (int k mod fill b), True), g)"
    using Sample_pick(1) [OF 6(1), of "k ## g"] by simp
  moreover have "nat (int k mod fill b) = k" using k by simp
  ultimately show ?case using k(2) by (intro exI [of _ k]) simp
qed

lemma push_all_pushes: "push_all r us = ring.pushes r us"
  by (induction us arbitrary: r) (simp_all split: Option.bind_split)

section \<open>Properties\<close>

text \<open>
  C18: The ring refines the bounded history. A ring of any positive size that \<open>make\<close> can allocate,
  up to \<open>2 ^ 44\<close> identifiers, is created, every sequence of \<open>Push\<close> calls on it succeeds (no
  out-of-range write), and the populated slots are exactly the last \<open>size\<close> identifiers pushed,
  oldest first; for a larger size the constructor panics.
\<close>

theorem ring_keeps_recent:
  assumes "0 < n"
  shows "if n \<le> 2 ^ 44
         then \<exists>r0 r. NewSessionRing n = Some r0 \<and> push_all r0 us = Some r \<and> ring_inv r \<and>
                contents r = recent (nat n) us
         else NewSessionRing n = None"
proof (cases "NewSessionRing n")
  case None
  then show ?thesis using NewSessionRing_iff [of n] assms by auto
next
  case (Some r0)
  then show ?thesis
    using ring.pushes_from_new [OF assms Some, of us] NewSessionRing_iff [of n] by (auto simp: push_all_pushes)
qed

theorem ring_keeps_recent_witness:
  "\<exists>r0 r. NewSessionRing 2 = Some r0 \<and>
     push_all r0 [replicate 16 1, replicate 16 2, replicate 16 3] = Some r \<and> ring_inv r \<and>
     contents r = [replicate 16 2, replicate 16 3]"
  using ring_keeps_recent [of 2 "[replicate 16 1, replicate 16 2, replicate 16 3]"]
  by (simp add: recent_def)

text \<open>
  C35: \<open>Sample\<close> after any history never panics; it reports \<open>ok = false\<close> with the nil UUID
  exactly when nothing was pushed, and otherwise returns one of the last \<open>size\<close> pushed
  identifiers, each of which some draw of the random source selects.
\<close>

theorem ring_sample_recent:
  assumes "NewSessionRing n = Some r0" and "0 < n" and "push_all r0 us = Some r"
  shows "(us = [] \<longrightarrow> Sample r g = Some ((uuid_Nil, False), g)) \<and>
         (us \<noteq> [] \<longrightarrow> (\<exists>u. Sample r g = Some ((u, True), stl g) \<and> u \<in> set (recent (nat n) us))) \<and>
         (\<forall>u \<in> set (recent (nat n) us). \<exists>k. Sample r (k ## g) = Some ((u, True), g))"
proof -
  have r: "ring_inv r" "contents r = recent (nat n) us"
    using ring.pushes_from_new [OF assms(2,1), of us] assms(3) by (auto simp: push_all_pushes)
  have "recent (nat n) us = [] \<longleftrightarrow> us = []"
    using assms(2) by (cases us) (auto simp: recent_def)
  then show ?thesis
    using r ring.sample_empty ring.sample_some ring.sample_every by metis
qed

theorem ring_sample_recent_witness:
  "\<exists>r0 r. NewSessionRing 2 = Some r0 \<and> push_all r0 [replicate 16 7] = Some r \<and>
     (\<exists>u. Sample r (sconst 5) = Some ((u, True), sconst 5) \<and> u \<in> {replicate 16 7})"
proof -
  obtain r0 r where r: "NewSessionRing 2 = Some r0" "push_all r0 [replicate 16 7] = Some r"
    using NewSessionRing_iff [of 2] ring.pushes_from_new [of 2 _ "[replicate 16 7]"] by (auto simp: push_all_pushes)
  show ?thesis
    using ring_sample_recent [OF r(1) _ r(2), of "sconst 5"] r by (simp add: recent_def)
qed

end
