(* ===== verification/Weights.thy ===== *)
theory Weights
  imports Prelude
begin

text \<open>
  The operation mix: \<open>workload/weights.go\<close>, the registry of \<open>workload/profile.go\<close> and the
  operation table of \<open>workload/oltp.go\<close>.

  The loop variables \<open>total\<close> (here \<open>tot\<close>) and \<open>cumulative\<close> are Go \<open>int\<close>s fed by user-supplied weights, so they wrap.
\<close>

section \<open>Definitions\<close>

record OpDef =
  OpName :: string
  EnvVar :: string
  DefaultWeight :: int

record WeightedOp =
  Name :: string
  Weight :: int

definition weight_of :: "env \<Rightarrow> OpDef \<Rightarrow> int" where
  "weight_of e od =
     (let v = getenv e (EnvVar od) in
      if v \<noteq> [] then (case atoi v of Some n \<Rightarrow> n | None \<Rightarrow> DefaultWeight od) else DefaultWeight od)"

fun resolve_loop :: "env \<Rightarrow> int \<Rightarrow> WeightedOp list \<Rightarrow> OpDef list \<Rightarrow> string + WeightedOp list" where
  "resolve_loop e tot out [] =
     (if tot \<noteq> 100 then Inl (''operation weights must sum to 100, got '' @ itoa tot) else Inr out)"
| "resolve_loop e tot out (od # ods) =
     (let w = weight_of e od in
      if w < 0 then Inl (EnvVar od @ '' must be >= 0, got '' @ itoa w)
      else resolve_loop e (i64 (tot + w)) (out @ [\<lparr>Name = OpName od, Weight = w\<rparr>]) ods)"

definition ResolveWeights :: "env \<Rightarrow> OpDef list \<Rightarrow> string + WeightedOp list" where
  "ResolveWeights e ops = resolve_loop e 0 [] ops"

definition OpNames :: "WeightedOp list \<Rightarrow> string list" where
  "OpNames ops = map Name ops"

fun select_loop :: "int \<Rightarrow> int \<Rightarrow> WeightedOp list \<Rightarrow> string option" where
  "select_loop cumulative roll [] = None"
| "select_loop cumulative roll (p # ps) =
     (let c = i64 (cumulative + Weight p) in
      if roll < c then Some (Name p) else select_loop c roll ps)"

definition SelectOp :: "int \<Rightarrow> WeightedOp list \<Rightarrow> string" where
  "SelectOp roll ops =
     (case select_loop 0 roll ops of
        Some n \<Rightarrow> n
      | None \<Rightarrow> if length ops > 0 then Name (ops ! (length ops - 1)) else [])"

subsection \<open>The OLTP profile's operations\<close>

definition OpInsert :: string where "OpInsert = ''insert''"
definition OpReadSimple :: string where "OpReadSimple = ''read_simple''"
definition OpReadJoin :: string where "OpReadJoin = ''read_join''"
definition OpUpdate :: string where "OpUpdate = ''update''"
definition OpDelete :: string where "OpDelete = ''delete''"
definition OpReadByIP :: string where "OpReadByIP = ''read_by_ip''"

definition oltp_Ops :: "OpDef list" where
  "oltp_Ops = [
     \<lparr>OpName = OpInsert, EnvVar = ''WRITE_PCT'', DefaultWeight = 35\<rparr>,
     \<lparr>OpName = OpReadSimple, EnvVar = ''READ_SIMPLE_PCT'', DefaultWeight = 15\<rparr>,
     \<lparr>OpName = OpReadJoin, EnvVar = ''READ_JOIN_PCT'', DefaultWeight = 20\<rparr>,
     \<lparr>OpName = OpUpdate, EnvVar = ''UPDATE_PCT'', DefaultWeight = 15\<rparr>,
     \<lparr>OpName = OpDelete, EnvVar = ''DELETE_PCT'', DefaultWeight = 10\<rparr>,
     \<lparr>OpName = OpReadByIP, EnvVar = ''READ_IP_PCT'', DefaultWeight = 5\<rparr>]"

subsection \<open>The profile registry\<close>

text \<open>The error carries the requested name and the list of valid names it prints.\<close>

datatype profile_error = UnknownProfile string "string list"

type_synonym 'p registry = "(string, unit \<Rightarrow> 'p) gomap"

definition RegisterProfile :: "string \<Rightarrow> (unit \<Rightarrow> 'p) \<Rightarrow> 'p registry \<Rightarrow> 'p registry" where
  "RegisterProfile name factory reg = AList.update name factory reg"

definition ProfileNames :: "'p registry \<Rightarrow> string list" where
  "ProfileNames reg = sort (map fst reg)"

definition GetProfile :: "string \<Rightarrow> 'p registry \<Rightarrow> profile_error + 'p" where
  "GetProfile name reg =
     (case map_of reg name of
        None \<Rightarrow> Inl (UnknownProfile name (ProfileNames reg))
      | Some factory \<Rightarrow> Inr (factory ()))"

definition ProfileOLTP :: string where "ProfileOLTP = ''oltp-jsonb''"

section \<open>Lemmas\<close>

text \<open>The total weight of the entries of a name.\<close>

definition mix :: "string \<Rightarrow> WeightedOp list \<Rightarrow> int" where
  "mix n ops = sum_list (map Weight (filter (\<lambda>p. Name p = n) ops))"

abbreviation total_weight :: "WeightedOp list \<Rightarrow> int" where
  "total_weight ops \<equiv> sum_list (map Weight ops)"

definition weights_ok :: "WeightedOp list \<Rightarrow> bool" where
  "weights_ok ops \<longleftrightarrow> (\<forall>p \<in> set ops. 0 \<le> Weight p)"

lemma weights_ok_Nil [simp]: "weights_ok []"
  by (simp add: weights_ok_def)

lemma weights_ok_Cons [simp]: "weights_ok (p # ps) \<longleftrightarrow> 0 \<le> Weight p \<and> weights_ok ps"
  by (simp add: weights_ok_def)

lemma total_weight_nonneg: "weights_ok ops \<Longrightarrow> 0 \<le> total_weight ops"
  by (induction ops) auto

lemma mix_Nil [simp]: "mix n [] = 0"
  by (simp add: mix_def)

lemma mix_Cons [simp]: "mix n (p # ps) = (if Name p = n then Weight p else 0) + mix n ps"
  by (simp add: mix_def)

lemma mix_nonneg: "weights_ok ops \<Longrightarrow> 0 \<le> mix n ops"
  by (induction ops) auto

text \<open>The resolved weights, in the order of the table.\<close>

definition resolved :: "env \<Rightarrow> OpDef list \<Rightarrow> WeightedOp list" where
  "resolved e ops = map (\<lambda>od. \<lparr>Name = OpName od, Weight = weight_of e od\<rparr>) ops"

lemma resolve_loop_Inr:
  "resolve_loop e t out ops = Inr res \<longleftrightarrow>
     weights_ok (resolved e ops) \<and> res = out @ resolved e ops \<and>
     foldl (\<lambda>s p. i64 (s + Weight p)) t (resolved e ops) = 100"
  by (induction e t out ops rule: resolve_loop.induct) (auto simp: resolved_def Let_def)

lemma foldl_i64: "i64 (foldl (\<lambda>s p. i64 (s + Weight p)) t ops) = i64 (t + total_weight ops)"
proof (induction ops arbitrary: t)
  case (Cons p ps)
  have "i64 (i64 (t + Weight p) + total_weight ps) = i64 (t + Weight p + total_weight ps)"
    by (rule i64_add_left)
  then show ?case using Cons by (simp add: add.assoc)
qed simp

lemma foldl_range: "in_i64 t \<Longrightarrow> in_i64 (foldl (\<lambda>s p. i64 (s + Weight p)) t ops)"
  by (induction ops arbitrary: t) auto

lemma ResolveWeights_Inr:
  "ResolveWeights e ops = Inr res \<longleftrightarrow>
     res = resolved e ops \<and> weights_ok res \<and> i64 (total_weight res) = 100"
proof -
  have "foldl (\<lambda>s p. i64 (s + Weight p)) 0 (resolved e ops) = i64 (total_weight (resolved e ops))"
    using foldl_i64 [of 0 "resolved e ops"] foldl_range [of 0 "resolved e ops"]
    by (simp add: i64_id in_i64_def)
  then show ?thesis by (auto simp: ResolveWeights_def resolve_loop_Inr)
qed

lemma select_loop_exact:
  assumes "weights_ok (p # ps)" "0 \<le> c" "c + total_weight (p # ps) < 2 ^ 63"
  shows "select_loop c r (p # ps) =
           (if r < c + Weight p then Some (Name p) else select_loop (c + Weight p) r ps)"
proof -
  have "i64 (c + Weight p) = c + Weight p"
    using assms total_weight_nonneg [of ps] by (intro i64_id) (simp add: in_i64_def)
  then show ?thesis by (simp add: Let_def)
qed

lemma select_loop_Some:
  "select_loop c r ops = Some n \<Longrightarrow> n \<in> Name ` set ops"
  by (induction c r ops rule: select_loop.induct) (auto simp: Let_def split: if_splits)

lemma select_loop_None:
  assumes "weights_ok ops" "0 \<le> c" "c + total_weight ops < 2 ^ 63" "ops \<noteq> []"
  shows "select_loop c r ops = None \<longleftrightarrow> c + total_weight ops \<le> r"
  using assms
proof (induction ops arbitrary: c)
  case (Cons p ps)
  show ?case
  proof (cases "ps = []")
    case True
    then show ?thesis using select_loop_exact [OF Cons.prems(1,2,3), of r] by auto
  next
    case False
    then have "select_loop (c + Weight p) r ps = None \<longleftrightarrow> c + Weight p + total_weight ps \<le> r"
      using Cons.prems by (intro Cons.IH) simp_all
    moreover have "r < c + Weight p \<Longrightarrow> \<not> c + total_weight (p # ps) \<le> r"
      using Cons.prems total_weight_nonneg [of ps] by simp
    ultimately show ?thesis using select_loop_exact [OF Cons.prems(1,2,3), of r] by auto
  qed
qed simp

lemma select_loop_count:
  assumes "weights_ok ops" "0 \<le> c" "c + total_weight ops < 2 ^ 63"
  shows "int (card {r. c \<le> r \<and> r < c + total_weight ops \<and> select_loop c r ops = Some n}) = mix n ops"
  using assms
proof (induction ops arbitrary: c)
  case (Cons p ps)
  let ?c = "c + Weight p"
  let ?A = "{r. c \<le> r \<and> r < ?c \<and> Name p = n}"
  let ?B = "{r. ?c \<le> r \<and> r < ?c + total_weight ps \<and> select_loop ?c r ps = Some n}"
  have w: "0 \<le> Weight p" "0 \<le> total_weight ps" using Cons.prems total_weight_nonneg by auto
  have "{r. c \<le> r \<and> r < c + total_weight (p # ps) \<and> select_loop c r (p # ps) = Some n} = ?A \<union> ?B"
    unfolding select_loop_exact [OF Cons.prems] using w by (auto split: if_splits)
  moreover have "card (?A \<union> ?B) = card ?A + card ?B"
  proof (rule card_Un_disjoint)
    show "finite ?A" by (rule finite_subset [of _ "{c..<?c}"]) auto
    show "finite ?B" by (rule finite_subset [of _ "{?c..<?c + total_weight ps}"]) auto
  qed auto
  moreover have "int (card ?A) = (if Name p = n then Weight p else 0)"
  proof (cases "Name p = n")
    case True
    then have "?A = {c..<?c}" by auto
    then show ?thesis using True w by simp
  qed simp
  moreover have "int (card ?B) = mix n ps" using Cons.prems by (intro Cons.IH) simp_all
  ultimately show ?case by simp
qed simp

lemma SelectOp_in_names: "ops \<noteq> [] \<Longrightarrow> SelectOp r ops \<in> set (OpNames ops)"
  using select_loop_Some [of 0 r ops] by (auto simp: SelectOp_def OpNames_def split: option.splits)

lemma keys_ok_RegisterProfile: "keys_ok reg \<Longrightarrow> keys_ok (RegisterProfile n f reg)"
  by (simp add: RegisterProfile_def)

section \<open>Properties\<close>

text \<open>
  C9: The mix is exact. If the resolved weights are non-negative and really add up to 100,
  then of the 100 rolls \<open>rng.Intn(100)\<close> can return, \<open>SelectOp\<close> maps exactly as many to an
  operation as its weight says; the fallthrough after the loop is never taken, and an
  operation of weight zero is never selected.
\<close>

theorem SelectOp_distribution:
  assumes "weights_ok ops" and "total_weight ops = 100"
  shows "int (card {r \<in> {0..<100}. SelectOp r ops = n}) = mix n ops \<and>
         (\<forall>r \<in> {0..<100}. select_loop 0 r ops = Some (SelectOp r ops))"
proof -
  have ne: "ops \<noteq> []" using assms(2) by auto
  have sel: "select_loop 0 r ops = Some (SelectOp r ops)" if "r < 100" for r
    using select_loop_None [OF assms(1), of 0 r] ne that assms(2)
    by (auto simp: SelectOp_def split: option.splits)
  then have "{r \<in> {0..<100}. SelectOp r ops = n} =
      {r. 0 \<le> r \<and> r < 0 + total_weight ops \<and> select_loop 0 r ops = Some n}"
    using assms(2) by auto
  then show ?thesis using select_loop_count [OF assms(1), of 0 n] sel assms(2) by simp
qed

theorem SelectOp_distribution_witness:
  "int (card {r \<in> {0..<100}. SelectOp r (resolved Map.empty oltp_Ops) = ''delete''}) = 10"
proof -
  let ?ops = "resolved Map.empty oltp_Ops"
  have "weights_ok ?ops" "total_weight ?ops = 100" "mix ''delete'' ?ops = 10"
    by (simp_all add: resolved_def oltp_Ops_def weight_of_def getenv_def
        OpInsert_def OpReadSimple_def OpReadJoin_def OpUpdate_def OpDelete_def OpReadByIP_def)
  then show ?thesis using SelectOp_distribution [of ?ops "''delete''"] by simp
qed

text \<open>
  C36: \<open>ResolveWeights\<close> accepts exactly the tables whose weights (environment value, or the
  default when unset or malformed) are non-negative and whose 64-bit sum is 100; it keeps
  the table's order and names. When the true sum fits an \<open>int\<close>, that is the sum itself.
\<close>

theorem ResolveWeights_iff:
  "(ResolveWeights e ops = Inr res \<longleftrightarrow>
      res = resolved e ops \<and> weights_ok res \<and> i64 (total_weight res) = 100) \<and>
   (total_weight (resolved e ops) < 2 ^ 63 \<longrightarrow>
      (ResolveWeights e ops = Inr res \<longleftrightarrow>
        res = resolved e ops \<and> weights_ok res \<and> total_weight res = 100))"
proof -
  have "i64 (total_weight res) = total_weight res" if "weights_ok res" "total_weight res < 2 ^ 63"
    using total_weight_nonneg [OF that(1)] that(2) by (rule i64_nonneg)
  then show ?thesis by (auto simp: ResolveWeights_Inr)
qed

theorem ResolveWeights_iff_witness:
  "ResolveWeights Map.empty oltp_Ops = Inr (resolved Map.empty oltp_Ops)"
proof -
  have "weights_ok (resolved Map.empty oltp_Ops)" "total_weight (resolved Map.empty oltp_Ops) = 100"
    by (simp_all add: resolved_def oltp_Ops_def weight_of_def getenv_def)
  then show ?thesis using ResolveWeights_iff [of Map.empty oltp_Ops] by simp
qed

text \<open>
  C37: The check that the weights sum to 100 is made on a 64-bit sum, so it can be passed
  by weights that do not: four weights of \<open>2 ^ 62\<close> and two of 50 are accepted, although
  they add up to \<open>2 ^ 64 + 100\<close>, and the workload then consists of inserts only.
\<close>

theorem ResolveWeights_overflow:
  "\<exists>e res. ResolveWeights e oltp_Ops = Inr res \<and> total_weight res = 2 ^ 64 + 100 \<and>
           (\<forall>r < 100. SelectOp r res = OpInsert)"
proof -
  let ?big = "''4611686018427387904''"
  let ?e = "[''WRITE_PCT'' \<mapsto> ?big, ''READ_SIMPLE_PCT'' \<mapsto> ?big, ''READ_JOIN_PCT'' \<mapsto> ?big,
             ''UPDATE_PCT'' \<mapsto> ?big, ''DELETE_PCT'' \<mapsto> ''50'', ''READ_IP_PCT'' \<mapsto> ''50'']"
  have a: "atoi ?big = Some (2 ^ 62)" "atoi ''50'' = Some 50" by (simp_all add: atoi_compute)
  have r: "resolved ?e oltp_Ops = [
      \<lparr>Name = OpInsert, Weight = 2 ^ 62\<rparr>, \<lparr>Name = OpReadSimple, Weight = 2 ^ 62\<rparr>,
      \<lparr>Name = OpReadJoin, Weight = 2 ^ 62\<rparr>, \<lparr>Name = OpUpdate, Weight = 2 ^ 62\<rparr>,
      \<lparr>Name = OpDelete, Weight = 50\<rparr>, \<lparr>Name = OpReadByIP, Weight = 50\<rparr>]"
    by (simp add: resolved_def oltp_Ops_def weight_of_def getenv_def a)
  have t: "total_weight (resolved ?e oltp_Ops) = 2 ^ 64 + 100" by (simp add: r)
  have "i64 (2 ^ 64 + 100) = 100" by simp
  then have "ResolveWeights ?e oltp_Ops = Inr (resolved ?e oltp_Ops)"
    using t by (simp add: ResolveWeights_Inr) (simp add: r)
  moreover have "\<forall>s < 100. SelectOp s (resolved ?e oltp_Ops) = OpInsert"
    by (auto simp: r SelectOp_def)
  ultimately show ?thesis using t by blast
qed

theorem ResolveWeights_overflow_witness:
  "\<exists>e res. ResolveWeights e oltp_Ops = Inr res \<and> SelectOp 99 res = OpInsert"
  using ResolveWeights_overflow by fastforce

text \<open>
  The registry behaves as a map. A profile is found under the name it was last
  registered with, other names are unaffected, and an unknown name yields an error that
  lists the registered names, sorted and without repetition.
\<close>

theorem registry_lookup:
  assumes "keys_ok reg"
  shows "GetProfile n (RegisterProfile n f reg) = Inr (f ()) \<and>
         (m \<noteq> n \<longrightarrow>
           (case GetProfile m reg of
              Inr p \<Rightarrow> GetProfile m (RegisterProfile n f reg) = Inr p
            | Inl _ \<Rightarrow> (\<exists>valid. GetProfile m (RegisterProfile n f reg) = Inl (UnknownProfile m valid) \<and>
                          sorted valid \<and> distinct valid \<and> set valid = insert n (fst ` set reg))))"
proof -
  have "keys_ok (RegisterProfile n f reg)" using assms by (rule keys_ok_RegisterProfile)
  moreover have "fst ` set (RegisterProfile n f reg) = insert n (fst ` set reg)"
    by (simp add: RegisterProfile_def dom_update)
  ultimately have "sorted (ProfileNames (RegisterProfile n f reg))"
    "distinct (ProfileNames (RegisterProfile n f reg))"
    "set (ProfileNames (RegisterProfile n f reg)) = insert n (fst ` set reg)"
    by (simp_all add: ProfileNames_def keys_ok_def)
  then show ?thesis
    by (auto simp: GetProfile_def RegisterProfile_def update_conv split: option.splits)
qed

theorem registry_lookup_witness:
  "GetProfile ''oltp-jsonb'' (RegisterProfile ''oltp-jsonb'' (\<lambda>_. 5 :: nat) []) = Inr 5"
  using registry_lookup [of "[]" "''oltp-jsonb''" "\<lambda>_. 5 :: nat"] by simp

end
