(* ===== verification/Float64.thy ===== *)
theory Float64
  imports Prelude "HOL-Library.Log_Nat"
begin

text \<open>
  Go's \<open>float64\<close> as the IEEE-754 binary64 arithmetic it is. A finite double is a rational
  number; \<open>rne\<close> rounds to the nearest double, ties to even (53-bit significands, the
  subnormal range included), and each operation of the source is the exact rational
  operation followed by \<open>rne\<close>. Infinities and NaN do not occur: every operand of the
  program is an integer below \<open>2 ^ 63\<close>, a duration, a constant, or a quotient of those by
  a positive number.

  The lemmas are the standard ones: rounding is monotone, keeps every double, and errs by
  at most half a unit in the last place.
\<close>

type_synonym float64 = rat

section \<open>Definitions\<close>

text \<open>The binary exponent: \<open>2 powi ilog2 x \<le> x < 2 powi (ilog2 x + 1)\<close> for positive \<open>x\<close>.\<close>

definition ilog2 :: "rat \<Rightarrow> int" where
  "ilog2 x = (let (n, d) = quotient_of x; e = bitlen n - bitlen d
              in if 2 powi e \<le> x then e else e - 1)"

text \<open>Nearest integer, ties to even.\<close>

definition rnd_even :: "rat \<Rightarrow> int" where
  "rnd_even x = (let f = \<lfloor>x\<rfloor>; r = x - of_int f
                 in if r < 1 / 2 then f else if 1 / 2 < r then f + 1
                    else if even f then f else f + 1)"

definition ulp_exp :: "rat \<Rightarrow> int" where
  "ulp_exp x = max (- 1074) (ilog2 \<bar>x\<bar> - 52)"

definition rne :: "rat \<Rightarrow> float64" where
  "rne x = (if x = 0 then 0
            else of_int (rnd_even (x / 2 powi ulp_exp x)) * 2 powi ulp_exp x)"

definition f64_of_int :: "int \<Rightarrow> float64" where
  "f64_of_int n = rne (of_int n)"

definition fadd :: "float64 \<Rightarrow> float64 \<Rightarrow> float64" where
  "fadd a b = rne (a + b)"

definition fsub :: "float64 \<Rightarrow> float64 \<Rightarrow> float64" where
  "fsub a b = rne (a - b)"

definition fmul :: "float64 \<Rightarrow> float64 \<Rightarrow> float64" where
  "fmul a b = rne (a * b)"

definition fdiv :: "float64 \<Rightarrow> float64 \<Rightarrow> float64" where
  "fdiv a b = rne (a / b)"

text \<open>\<open>int64(f)\<close> truncates towards zero (for values in range).\<close>

definition f64_trunc :: "float64 \<Rightarrow> int" where
  "f64_trunc x = (if 0 \<le> x then \<lfloor>x\<rfloor> else \<lceil>x\<rceil>)"

text \<open>
  \<open>time.Duration.Seconds\<close>: whole seconds and the remaining nanoseconds are converted
  separately and added.
\<close>

definition seconds :: "int \<Rightarrow> float64" where
  "seconds d = fadd (f64_of_int (quot d 1000000000))
                    (fdiv (f64_of_int (d - quot d 1000000000 * 1000000000)) (f64_of_int 1000000000))"

definition is_f64 :: "rat \<Rightarrow> bool" where
  "is_f64 x \<longleftrightarrow> (\<exists>m e. x = of_int m * 2 powi e \<and> \<bar>m\<bar> \<le> 2 ^ 53 \<and> - 1074 \<le> e)"

section \<open>The binary exponent\<close>

lemma powi_pos [simp]: "0 < (2::rat) powi e"
  by (simp add: zero_less_power_int)

lemma powi_le_iff [simp]: "(2::rat) powi a \<le> 2 powi b \<longleftrightarrow> a \<le> b"
  by (metis linorder_not_less one_less_numeral_iff power_int_increasing power_int_strict_increasing
      semiring_norm(76) order_less_imp_le)

lemma powi_less_iff [simp]: "(2::rat) powi a < 2 powi b \<longleftrightarrow> a < b"
  by (meson linorder_not_less powi_le_iff)

lemma powi_Suc: "(2::rat) powi (e + 1) = 2 * 2 powi e"
  by (simp add: power_int_add)

lemma bitlen_powi:
  assumes "0 < n"
  shows "(2::rat) powi (bitlen n - 1) \<le> of_int n" and "(of_int n :: rat) < 2 powi bitlen n"
proof -
  have b: "2 ^ nat (bitlen n - 1) \<le> n" "n < 2 ^ nat (bitlen n)" "0 < bitlen n"
    using bitlen_bounds [of n] bitlen_eq_zero_iff [of n] bitlen_nonneg [of n] assms by linarith+
  have "(2::rat) powi (bitlen n - 1) = of_int (2 ^ nat (bitlen n - 1))"
    using b(3) by (simp add: power_int_def)
  then show "(2::rat) powi (bitlen n - 1) \<le> of_int n" using b(1) by (simp only: of_int_le_iff)
  have "(2::rat) powi bitlen n = of_int (2 ^ nat (bitlen n))"
    using b(3) by (simp add: power_int_def)
  then show "(of_int n :: rat) < 2 powi bitlen n" using b(2) by (simp only: of_int_less_iff)
qed

lemma ilog2_bounds:
  assumes "0 < x"
  shows "2 powi ilog2 x \<le> x" and "x < 2 powi (ilog2 x + 1)"
proof -
  obtain n d where q: "quotient_of x = (n, d)" by fastforce
  then have d: "0 < d" and x: "x = of_int n / of_int d"
    using quotient_of_denom_pos quotient_of_div by auto
  then have n: "0 < n" using assms by (simp add: zero_less_divide_iff)
  let ?e = "bitlen n - bitlen d"
  have up: "x < 2 powi (?e + 1)"
  proof -
    have "x * of_int d < 2 powi bitlen n" using bitlen_powi(2) [OF n] d x by simp
    also have "\<dots> = 2 powi (?e + 1) * 2 powi (bitlen d - 1)"
      by (simp flip: power_int_add)
    also have "\<dots> \<le> 2 powi (?e + 1) * of_int d"
      using bitlen_powi(1) [OF d] by simp
    finally show ?thesis using d by simp
  qed
  have lo: "2 powi (?e - 1) \<le> x"
  proof -
    have "(2::rat) powi (?e - 1) * of_int d \<le> 2 powi (?e - 1) * 2 powi bitlen d"
      using bitlen_powi(2) [OF d] by simp
    also have "\<dots> = 2 powi (bitlen n - 1)" by (simp flip: power_int_add)
    also have "\<dots> \<le> x * of_int d" using bitlen_powi(1) [OF n] d x by simp
    finally show ?thesis using d by simp
  qed
  show "2 powi ilog2 x \<le> x" and "x < 2 powi (ilog2 x + 1)"
    using up lo by (auto simp: ilog2_def q Let_def)
qed

lemma ilog2_unique:
  assumes "0 < x" "2 powi e \<le> x" "x < 2 powi (e + 1)"
  shows "ilog2 x = e"
proof -
  have "2 powi ilog2 x < (2::rat) powi (e + 1)" "2 powi e < (2::rat) powi (ilog2 x + 1)"
    using ilog2_bounds [OF assms(1)] assms by linarith+
  then show ?thesis by simp
qed

lemma ilog2_less: "0 < x \<Longrightarrow> x < 2 powi e \<Longrightarrow> ilog2 x < e"
  using ilog2_bounds(1) [of x] powi_less_iff [of "ilog2 x" e] by linarith

lemma ilog2_mono: "0 < x \<Longrightarrow> x \<le> y \<Longrightarrow> ilog2 x \<le> ilog2 y"
  using ilog2_less [of x "ilog2 y + 1"] ilog2_bounds(2) [of y] by linarith

section \<open>Rounding to an integer\<close>

lemma rnd_even_of_int [simp]: "rnd_even (of_int k) = k"
  by (simp add: rnd_even_def)

lemma rnd_even_near: "\<bar>of_int (rnd_even x) - x\<bar> \<le> 1 / 2"
proof -
  have "of_int \<lfloor>x\<rfloor> \<le> x" "x < of_int \<lfloor>x\<rfloor> + 1" by linarith+
  then show ?thesis by (auto simp: rnd_even_def Let_def abs_le_iff)
qed

lemma rnd_even_mono: "x \<le> y \<Longrightarrow> rnd_even x \<le> rnd_even y"
proof -
  assume le: "x \<le> y"
  then have f: "\<lfloor>x\<rfloor> \<le> \<lfloor>y\<rfloor>" by (rule floor_mono)
  have b: "rnd_even z = \<lfloor>z\<rfloor> \<or> rnd_even z = \<lfloor>z\<rfloor> + 1" for z by (simp add: rnd_even_def Let_def)
  show ?thesis
  proof (cases "\<lfloor>x\<rfloor> = \<lfloor>y\<rfloor>")
    case True
    then show ?thesis using le by (auto simp: rnd_even_def Let_def)
  next
    case False
    then show ?thesis using f b [of x] b [of y] by linarith
  qed
qed

section \<open>Rounding to a double\<close>

lemma rne_0 [simp]: "rne 0 = 0"
  by (simp add: rne_def)

lemma rne_grid:
  assumes "x = of_int m * 2 powi ulp_exp x"
  shows "rne x = x"
proof (cases "x = 0")
  case False
  have "x / 2 powi ulp_exp x = of_int m" by (subst assms) simp
  then have "rne x = of_int m * 2 powi ulp_exp x" using False by (simp add: rne_def)
  also have "\<dots> = x" using assms by simp
  finally show ?thesis .
qed simp

lemma powi_multiple:
  assumes "a \<le> b"
  shows "\<exists>k::int. (2::rat) powi b = of_int k * 2 powi a"
proof -
  have "(2::rat) powi b = 2 powi (b - a) * 2 powi a" by (simp flip: power_int_add)
  also have "(2::rat) powi (b - a) = of_int (2 ^ nat (b - a))"
    using assms by (simp add: power_int_def)
  finally show ?thesis by blast
qed

lemma rne_exact_less:
  assumes "\<bar>m\<bar> < 2 ^ 53" "- 1074 \<le> e"
  shows "rne (of_int m * 2 powi e) = of_int m * 2 powi e"
proof (cases "m = 0")
  case False
  let ?x = "of_int m * 2 powi e :: rat"
  have ax: "\<bar>?x\<bar> = of_int \<bar>m\<bar> * 2 powi e" by (simp add: abs_mult)
  have m53: "(of_int \<bar>m\<bar> :: rat) < of_int (2 ^ 53)" using assms(1) by (simp only: of_int_less_iff)
  have "\<bar>?x\<bar> < 2 powi 53 * 2 powi e"
    using m53 by (simp add: ax)
  also have "(2::rat) powi 53 * 2 powi e = 2 powi (53 + e)" by (simp add: power_int_add)
  finally have "ilog2 \<bar>?x\<bar> < 53 + e" using False by (intro ilog2_less) simp_all
  then have "ulp_exp ?x \<le> e" using assms(2) by (simp add: ulp_exp_def)
  then obtain k where "(2::rat) powi e = of_int k * 2 powi ulp_exp ?x"
    using powi_multiple by blast
  then have "?x = of_int (m * k) * 2 powi ulp_exp ?x" by simp
  then show ?thesis by (rule rne_grid)
qed simp

lemma rne_exact: "is_f64 x \<Longrightarrow> rne x = x"
proof -
  assume "is_f64 x"
  then obtain m e where x: "x = of_int m * 2 powi e" and m: "\<bar>m\<bar> \<le> 2 ^ 53" and e: "- 1074 \<le> e"
    by (auto simp: is_f64_def)
  show ?thesis
  proof (cases "\<bar>m\<bar> < 2 ^ 53")
    case True
    then show ?thesis using rne_exact_less e x by simp
  next
    case False
    then obtain s where s: "m = s * 2 ^ 53" "\<bar>s\<bar> = 1"
      using m by (cases "0 \<le> m") (auto intro: that [of 1] that [of "- 1"])
    then have "x = of_int (s * 2 ^ 52) * 2 powi (e + 1)"
      by (simp add: x powi_Suc)
    moreover have "\<bar>s * 2 ^ 52\<bar> < (2::int) ^ 53" using s by (simp add: abs_mult)
    ultimately show ?thesis using rne_exact_less [of "s * 2 ^ 52" "e + 1"] e by simp
  qed
qed

lemma is_f64_of_int: "\<bar>n\<bar> \<le> 2 ^ 53 \<Longrightarrow> is_f64 (of_int n)"
  unfolding is_f64_def by (rule exI [of _ n], rule exI [of _ 0]) simp

lemma f64_of_int_exact [simp]: "\<bar>n\<bar> \<le> 2 ^ 53 \<Longrightarrow> f64_of_int n = of_int n"
  by (simp add: f64_of_int_def rne_exact is_f64_of_int)

lemma rne_nonneg: "0 \<le> x \<Longrightarrow> 0 \<le> rne x"
  using rnd_even_mono [of 0 "x / 2 powi ulp_exp x"] rnd_even_of_int [of 0]
  by (simp add: rne_def)

lemma rne_mono_same:
  assumes "0 < x" "x \<le> y" "ulp_exp x = ulp_exp y"
  shows "rne x \<le> rne y"
proof -
  have "rnd_even (x / 2 powi ulp_exp x) \<le> rnd_even (y / 2 powi ulp_exp x)"
    using assms by (intro rnd_even_mono divide_right_mono) simp_all
  then show ?thesis using assms by (simp add: rne_def)
qed

lemma rne_le_grid:
  assumes "0 < x" "x \<le> of_int k * 2 powi ulp_exp x"
  shows "rne x \<le> of_int k * 2 powi ulp_exp x"
proof -
  have "rnd_even (x / 2 powi ulp_exp x) \<le> rnd_even (of_int k)"
    using assms(2) by (intro rnd_even_mono) (simp add: divide_le_eq)
  then show ?thesis using assms(1) by (simp add: rne_def)
qed

lemma rne_ge_grid:
  assumes "0 < x" "of_int k * 2 powi ulp_exp x \<le> x"
  shows "of_int k * 2 powi ulp_exp x \<le> rne x"
proof -
  have "rnd_even (of_int k) \<le> rnd_even (x / 2 powi ulp_exp x)"
    using assms(2) by (intro rnd_even_mono) (simp add: le_divide_eq)
  then show ?thesis using assms(1) by (simp add: rne_def)
qed

lemma rne_mono:
  assumes "0 \<le> x" "x \<le> y"
  shows "rne x \<le> rne y"
proof (cases "x = 0")
  case True
  then show ?thesis using assms rne_nonneg by simp
next
  case False
  with assms have pos: "0 < x" "0 < y" by auto
  have u: "ulp_exp x \<le> ulp_exp y"
    using ilog2_mono [OF pos(1) assms(2)] pos by (simp add: ulp_exp_def)
  show ?thesis
  proof (cases "ulp_exp x = ulp_exp y")
    case True
    then show ?thesis using pos assms by (intro rne_mono_same)
  next
    case False
    let ?B = "2 powi ilog2 y :: rat"
    have l: "ilog2 x < ilog2 y" and uy: "ulp_exp y = ilog2 y - 52"
      using False u pos by (auto simp: ulp_exp_def)
    then have "(2::rat) powi (ilog2 x + 1) \<le> ?B" by simp
    then have "x \<le> ?B" using ilog2_bounds(2) [OF pos(1)] by linarith
    moreover obtain k where "?B = of_int k * 2 powi ulp_exp x"
      using powi_multiple [of "ulp_exp x" "ilog2 y"] u uy by auto
    ultimately have "rne x \<le> ?B" using rne_le_grid [OF pos(1), of k] by simp
    moreover have "?B = of_int (2 ^ 52) * 2 powi ulp_exp y"
      by (simp add: uy power_int_diff)
    then have "?B \<le> rne y"
      using rne_ge_grid [OF pos(2), of "2 ^ 52"] ilog2_bounds(1) [OF pos(2)] by simp
    ultimately show ?thesis by linarith
  qed
qed

lemma rne_abs_error: "\<bar>rne x - x\<bar> \<le> 2 powi ulp_exp x / 2"
proof (cases "x = 0")
  case False
  let ?u = "2 powi ulp_exp x :: rat"
  have "rne x - x = (of_int (rnd_even (x / ?u)) - x / ?u) * ?u"
    using False by (simp add: rne_def left_diff_distrib)
  then have "\<bar>rne x - x\<bar> = \<bar>of_int (rnd_even (x / ?u)) - x / ?u\<bar> * ?u"
    by (simp add: abs_mult)
  also have "\<dots> \<le> 1 / 2 * ?u"
    by (intro mult_right_mono rnd_even_near) simp
  finally show ?thesis by simp
qed simp

lemma rne_rel_error:
  assumes "1 / 2 ^ 100 \<le> x"
  shows "\<bar>rne x - x\<bar> \<le> x / 2 ^ 53"
proof -
  have a: "(2::rat) powi (- 100) \<le> x"
    using assms by (simp add: power_int_minus_divide)
  have x: "0 < x" using a powi_pos [of "- 100"] by linarith
  have "(2::rat) powi (- 100) < 2 powi (ilog2 x + 1)"
    using a ilog2_bounds(2) [OF x] by linarith
  then have "- 100 < ilog2 x + 1" by (simp only: powi_less_iff)
  then have "ulp_exp x = ilog2 x - 52" using x by (simp add: ulp_exp_def)
  then have "2 powi ulp_exp x / 2 = 2 powi ilog2 x / (2::rat) ^ 53"
    by (simp add: power_int_diff)
  also have "\<dots> \<le> x / 2 ^ 53"
    using ilog2_bounds(1) [OF x] by (intro divide_right_mono) simp_all
  finally show ?thesis using rne_abs_error [of x] by linarith
qed

section \<open>Ranks\<close>

text \<open>
  \<open>math.Ceil(q * float64(n))\<close> for a quantile \<open>q\<close> whose decimal value is \<open>p / m\<close>: the
  rounding of the constant and of the product never changes the rank.
\<close>

lemma rank_upper:
  assumes "0 \<le> qd" "qd * of_int n \<le> of_int c" "0 \<le> n" "\<bar>c\<bar> \<le> 2 ^ 53"
  shows "\<lceil>rne (qd * of_int n)\<rceil> \<le> c"
proof -
  have "rne (qd * of_int n) \<le> rne (of_int c)" using assms by (intro rne_mono) simp_all
  then show ?thesis using assms(4) by (simp add: rne_exact is_f64_of_int ceiling_le_iff)
qed

lemma rank_lower:
  assumes "0 \<le> c" "c < 2 ^ 41" "of_int c + 1 / 2048 \<le> x"
  shows "c < \<lceil>rne x\<rceil>"
proof -
  let ?y = "of_int c + 1 / 2048 :: rat"
  have y: "?y = of_int (2048 * c + 1) * 2 powi (- 11)" by (simp add: power_int_minus field_simps)
  have "rne ?y = ?y" unfolding y
    using assms by (intro rne_exact_less) simp_all
  then have "?y \<le> rne x" using assms rne_mono [of ?y x] by simp
  then have "of_int c < rne x" by linarith
  then show ?thesis by (simp add: less_ceiling_iff)
qed

lemma rank_exact:
  fixes p m n :: int
  assumes m: "0 < m" "m \<le> 1000" and p: "0 < p" "p \<le> m"
    and qd: "0 \<le> qd" "qd \<le> of_int p / of_int m" "of_int p / of_int m - qd \<le> 1 / 2 ^ 54"
    and n: "0 < n" "n \<le> 2 ^ 40"
  shows "\<lceil>rne (qd * of_int n)\<rceil> = \<lceil>of_int p * of_int n / (of_int m :: rat)\<rceil>"
proof -
  let ?x = "of_int p * of_int n / of_int m :: rat" and ?c = "\<lceil>of_int p * of_int n / (of_int m :: rat)\<rceil>"
  have "?x \<le> of_int n"
    using m p n by (simp add: divide_le_eq mult.commute mult_left_mono)
  then have c: "0 < ?c" "?c \<le> n" using m p n by (simp_all add: ceiling_le_iff)
  have up: "qd * of_int n \<le> ?x"
    using mult_right_mono [OF qd(2), of "of_int n"] n by simp
  have "qd * of_int n \<le> of_int ?c" using up le_of_int_ceiling [of ?x] by linarith
  moreover have c40: "?c \<le> 2 ^ 40" using c(2) n(2) by (rule order_trans)
  then have "\<bar>?c\<bar> \<le> 2 ^ 53" using c(1) by (simp add: abs_le_iff del: ceiling_le_iff zero_less_ceiling)
  ultimately have le: "\<lceil>rne (qd * of_int n)\<rceil> \<le> ?c" using qd(1) n(1) by (intro rank_upper) simp_all
  have "of_int (?c - 1) < ?x" using ceiling_correct [of ?x] by simp
  then have "(of_int (m * (?c - 1)) :: rat) < of_int (p * n)"
    using m by (simp add: less_divide_eq mult.commute)
  then have "m * (?c - 1) + 1 \<le> p * n" by linarith
  then have "(of_int (m * (?c - 1) + 1) :: rat) \<le> of_int (p * n)" by (simp only: of_int_le_iff)
  then have "of_int (m * (?c - 1) + 1) / of_int m \<le> ?x"
    using m by (simp add: divide_right_mono)
  then have "of_int (?c - 1) + 1 / of_int m \<le> ?x"
    using m by (simp add: add_divide_distrib)
  moreover have "(1::rat) / 1000 \<le> 1 / of_int m"
    using m by (intro divide_left_mono) simp_all
  moreover have "?x - qd * of_int n \<le> 1 / 2 ^ 14"
  proof -
    have "?x - qd * of_int n = (of_int p / of_int m - qd) * of_int n" by (simp add: left_diff_distrib)
    also have "\<dots> \<le> 1 / 2 ^ 54 * 2 ^ 40"
      using qd n of_int_le_iff [of n "2 ^ 40", where ?'a = rat] by (intro mult_mono) simp_all
    finally show ?thesis by simp
  qed
  ultimately have "of_int (?c - 1) + 1 / 2048 \<le> qd * of_int n" by simp
  moreover have "0 \<le> ?c - 1" "?c - 1 < 2 ^ 41"
    using c(1) c40 by (simp_all del: ceiling_le_iff zero_less_ceiling)
  ultimately have "?c - 1 < \<lceil>rne (qd * of_int n)\<rceil>" by (intro rank_lower)
  with le show ?thesis by simp
qed

section \<open>Seconds and microseconds\<close>

lemma seconds_split:
  assumes "0 \<le> d" "d < 2 ^ 50"
  shows "seconds d = rne (of_int (d div 1000000000) + rne (of_int (d mod 1000000000) / 1000000000))"
proof -
  have "d - quot d 1000000000 * 1000000000 = d mod 1000000000"
    using assms by (simp add: quot_nonneg minus_div_mult_eq_mod)
  moreover have "0 \<le> d mod 1000000000" "d mod 1000000000 < 1000000000" by simp_all
  moreover have "0 \<le> d div 1000000000" "d div 1000000000 \<le> 2 ^ 50" using assms by simp_all
  ultimately show ?thesis
    using assms by (simp add: seconds_def fadd_def fdiv_def quot_nonneg)
qed

lemma pow2_rat:
  "(2::rat) ^ 53 = 9007199254740992" "(2::rat) ^ 54 = 18014398509481984" "(2::rat) ^ 50 = 1125899906842624"
  by simp_all

lemma two_roundings:
  fixes S u v :: rat
  assumes "\<bar>S - u\<bar> \<le> u / 2 ^ 53" "\<bar>u - v\<bar> \<le> v / 2 ^ 53"
  shows "\<bar>S - v\<bar> \<le> v * (5 / 2 ^ 54)"
proof (rule abs_leI)
  have a: "9007199254740992 * S \<le> 9007199254740993 * u" "9007199254740991 * u \<le> 9007199254740992 * S"
      "9007199254740992 * u \<le> 9007199254740993 * v" "9007199254740991 * v \<le> 9007199254740992 * u"
    using abs_le_D1 [OF assms(1)] abs_le_D2 [OF assms(1)] abs_le_D1 [OF assms(2)] abs_le_D2 [OF assms(2)]
    unfolding pow2_rat by (simp_all add: field_simps)
  have "18014398509481984 * S \<le> 18014398509481989 * v" using a by linarith
  then show "S - v \<le> v * (5 / 2 ^ 54)" by (simp add: pow2_rat field_simps)
  have "18014398509481979 * v \<le> 18014398509481984 * S" using a by linarith
  then show "- (S - v) \<le> v * (5 / 2 ^ 54)" by (simp add: pow2_rat field_simps)
qed

lemma rne_rel_error0:
  assumes "x = 0 \<or> 1 / 2 ^ 100 \<le> x"
  shows "\<bar>rne x - x\<bar> \<le> x / 2 ^ 53"
  using assms rne_rel_error by auto

lemma seconds_error:
  assumes "0 \<le> d" "d < 2 ^ 50"
  shows "\<bar>seconds d - of_int d / 1000000000\<bar> \<le> of_int d / 1000000000 * (5 / 2 ^ 54)"
    and "seconds d = 0 \<or> 1 / 2 ^ 100 \<le> seconds d"
proof -
  define n where "n = d mod 1000000000"
  define k where "k = d div 1000000000"
  define v :: rat where "v = of_int d / 1000000000"
  define t :: rat where "t = rne (of_int n / 1000000000)"
  define S where "S = rne (of_int k + t)"
  have nk: "0 \<le> n" "0 \<le> k" "d = k * 1000000000 + n"
    using assms by (simp_all add: n_def k_def pos_imp_zdiv_nonneg_iff)
  have v: "v = of_int k + of_int n / 1000000000" "of_int n / 1000000000 \<le> v"
    using nk by (simp_all add: v_def add_divide_distrib)
  have "n = 0 \<or> 1 \<le> n" using nk by linarith
  then have "(of_int n / 1000000000 :: rat) = 0 \<or> 1 / 2 ^ 100 \<le> (of_int n / 1000000000 :: rat)"
    by auto
  then have "\<bar>t - of_int n / 1000000000\<bar> \<le> of_int n / 1000000000 / 2 ^ 53"
    unfolding t_def by (rule rne_rel_error0)
  also have "\<dots> \<le> v / 2 ^ 53" by (rule divide_right_mono [OF v(2)]) simp
  finally have e1: "\<bar>t - of_int n / 1000000000\<bar> \<le> v / 2 ^ 53" .
  have t0: "0 \<le> t" using nk by (simp add: t_def rne_nonneg)
  have r: "\<bar>of_int k + t - v\<bar> \<le> v / 2 ^ 53" using e1 v(1) by simp
  have v0: "v = 0 \<or> 1 / 1000000000 \<le> v"
  proof (cases "d = 0")
    case False
    then show ?thesis using assms(1) by (simp add: v_def)
  qed (simp add: v_def)
  then have sum0: "of_int k + t = 0 \<or> 1 / 2 ^ 100 \<le> of_int k + t"
    using r by auto
  then have e2: "\<bar>S - (of_int k + t)\<bar> \<le> (of_int k + t) / 2 ^ 53"
    unfolding S_def by (rule rne_rel_error0)
  have Sv: "\<bar>S - v\<bar> \<le> v * (5 / 2 ^ 54)" 
    using e2 r by (rule two_roundings)
  have S: "seconds d = S" using seconds_split [OF assms] by (simp add: S_def t_def n_def k_def)
  show "\<bar>seconds d - of_int d / 1000000000\<bar> \<le> of_int d / 1000000000 * (5 / 2 ^ 54)"
    using Sv by (simp add: S v_def)
  show "seconds d = 0 \<or> 1 / 2 ^ 100 \<le> seconds d"
    using Sv v0 by (auto simp: S)
qed

text \<open>
  The microseconds of a duration below \<open>2 ^ 50\<close> nanoseconds (13 days), computed in
  \<open>float64\<close>, are within a thousandth of the exact quotient.
\<close>

lemma micros_error:
  assumes "0 \<le> d" "d < 2 ^ 50"
  shows "\<bar>fmul (seconds d) 1000000 - of_int d / 1000\<bar> < 1 / 1000"
proof -
  let ?S = "seconds d" and ?v = "of_int d / 1000000000 :: rat"
  have "?S * 1000000 = 0 \<or> 1 / 2 ^ 100 \<le> ?S * 1000000"
    using seconds_error(2) [OF assms] by auto
  then have "\<bar>rne (?S * 1000000) - ?S * 1000000\<bar> \<le> ?S * 1000000 / 2 ^ 53" by (rule rne_rel_error0)
  moreover have "(of_int d :: rat) < of_int (2 ^ 50)" "(0 :: rat) \<le> of_int d"
    using assms by (simp_all only: of_int_less_iff of_int_0_le_iff)
  ultimately show ?thesis
    using seconds_error(1) [OF assms] unfolding fmul_def of_int_power of_int_numeral pow2_rat by linarith
qed

lemma micros_trunc:
  assumes "0 \<le> d" "d < 2 ^ 50"
  shows "f64_trunc (fmul (seconds d) 1000000) = d div 1000 \<or>
         (1000 dvd d \<and> f64_trunc (fmul (seconds d) 1000000) = d div 1000 - 1)"
proof -
  define P where "P = fmul (seconds d) 1000000"
  have P: "P - of_int d / 1000 < 1 / 1000" "- (P - of_int d / 1000) < 1 / 1000"
    using micros_error [OF assms] unfolding P_def abs_less_iff by simp_all
  have d: "(of_int d :: rat) / 1000 = of_int (d div 1000) + of_int (d mod 1000) / 1000"
  proof -
    have "(of_int d :: rat) = of_int (d div 1000 * 1000 + d mod 1000)" by simp
    then show ?thesis unfolding of_int_add of_int_mult by simp
  qed
  have "0 \<le> seconds d" using assms(1) seconds_split [OF assms]
    by (simp add: rne_nonneg pos_imp_zdiv_nonneg_iff)
  then have "0 \<le> P" by (simp add: P_def fmul_def rne_nonneg)
  then have tr: "f64_trunc P = \<lfloor>P\<rfloor>" by (simp add: f64_trunc_def)
  have r: "0 \<le> d mod 1000" "d mod 1000 \<le> 999" by simp_all
  show ?thesis
  proof (cases "1000 dvd d")
    case True
    then have "(of_int d :: rat) / 1000 = of_int (d div 1000)" using d by simp
    then have "of_int (d div 1000 - 1) \<le> P" "P < of_int (d div 1000 + 1)"
      using P unfolding of_int_diff of_int_add of_int_1 by linarith+
    then have "d div 1000 - 1 \<le> \<lfloor>P\<rfloor>" "\<lfloor>P\<rfloor> < d div 1000 + 1"
      by (simp_all only: le_floor_iff floor_less_iff)
    then show ?thesis using True tr by (auto simp: P_def)
  next
    case False
    then have "1 \<le> d mod 1000" using r(1) by (simp add: dvd_eq_mod_eq_0)
    then have "(1::rat) \<le> of_int (d mod 1000)" "(of_int (d mod 1000) :: rat) \<le> 999"
      using of_int_le_iff [of "d mod 1000" 999, where ?'a = rat] by simp_all
    then have "of_int (d div 1000) \<le> P" "P < of_int (d div 1000) + 1"
      using P unfolding d by linarith+
    then have "\<lfloor>P\<rfloor> = d div 1000" by (simp add: floor_eq_iff)
    then show ?thesis using tr by (simp add: P_def)
  qed
qed

end
