(* ===== verification/Stats.thy ===== *)
theory Stats
  imports Prelude Float64
begin

text \<open>
  Per-worker statistics: the first half of \<open>workload/stats.go\<close> (\<open>opStats\<close>,
  \<open>WorkerStats\<close>, \<open>mergeInto\<close>, the quantiles and \<open>commaf\<close>) and \<open>LatencyStats\<close> of
  \<open>workload/result.go\<close>.

  Latencies are an exact frequency map from microseconds to counts; \<open>None\<close> is Go's nil map.
  Counters are unbounded integers: they only grow by one per executed operation. The sum
  behind the mean is an int64 and wraps.
  \<open>quantileFrom\<close> returns \<open>None\<close> where the slice expression of the source would panic.
\<close>

section \<open>Definitions\<close>

record opStats =
  count :: int
  errors :: int
  latencies :: "(int, int) gomap option"

definition opStats_zero :: opStats where
  "opStats_zero = \<lparr>count = 0, errors = 0, latencies = None\<rparr>"

text \<open>Ranging over a nil map visits nothing.\<close>

definition lat :: "opStats \<Rightarrow> (int, int) gomap" where
  "lat s = (case latencies s of None \<Rightarrow> [] | Some m \<Rightarrow> m)"

definition samples :: "opStats \<Rightarrow> int" where
  "samples s = foldl (\<lambda>n (us, c). n + c) 0 (lat s)"

record WorkerStats =
  data :: "(string, opStats) gomap"

definition newWorkerStats :: "string list \<Rightarrow> WorkerStats" where
  "newWorkerStats ops = \<lparr>data = foldl (\<lambda>m op. AList.update op opStats_zero m) [] ops\<rparr>"

text \<open>\<open>int64(durationSec * 1e6)\<close>, pinned at zero.\<close>

definition to_micros :: "float64 \<Rightarrow> int" where
  "to_micros durationSec =
     (let us = f64_trunc (fmul durationSec 1000000) in if us < 0 then 0 else us)"

definition record_op :: "opStats \<Rightarrow> float64 \<Rightarrow> goerr option \<Rightarrow> opStats" where
  "record_op s durationSec err =
     (let s = s\<lparr>count := count s + 1\<rparr> in
      if err \<noteq> None then s\<lparr>errors := errors s + 1\<rparr>
      else s\<lparr>latencies := Some (madd (lat s) (to_micros durationSec) 1)\<rparr>)"

text \<open>An operation without an entry is a nil pointer dereference.\<close>

definition Record :: "WorkerStats \<Rightarrow> string \<Rightarrow> float64 \<Rightarrow> goerr option \<Rightarrow> WorkerStats option" where
  "Record ws op durationSec err =
     (case map_of (data ws) op of
        None \<Rightarrow> None
      | Some s \<Rightarrow> Some (ws\<lparr>data := AList.update op (record_op s durationSec err) (data ws)\<rparr>))"

definition snapshot :: "WorkerStats \<Rightarrow> (string, opStats) gomap \<times> WorkerStats" where
  "snapshot ws = (data ws, ws\<lparr>data := map (\<lambda>(op, s). (op, opStats_zero)) (data ws)\<rparr>)"

definition mergeInto :: "opStats \<Rightarrow> opStats \<Rightarrow> opStats" where
  "mergeInto dst src =
     (let dst = dst\<lparr>count := count dst + count src, errors := errors dst + errors src\<rparr> in
      foldl (\<lambda>d (us, n). d\<lparr>latencies := Some (madd (lat d) us n)\<rparr>) dst (lat src))"

definition sortedKeys :: "opStats \<Rightarrow> int list \<times> int" where
  "sortedKeys s = (sort (map fst (lat s)), foldl (\<lambda>n (us, c). n + c) 0 (lat s))"

text \<open>The walk over all keys but the last.\<close>

fun quantile_walk :: "(int, int) gomap \<Rightarrow> int \<Rightarrow> int \<Rightarrow> int list \<Rightarrow> int option" where
  "quantile_walk m rank cum [] = None"
| "quantile_walk m rank cum (us # rest) =
     (let cum = cum + mget m us in
      if cum \<ge> rank then Some us else quantile_walk m rank cum rest)"

definition quantile_rank :: "int \<Rightarrow> float64 \<Rightarrow> int" where
  "quantile_rank total_n q =
     (let rank = \<lceil>fmul q (f64_of_int total_n)\<rceil> in
      if rank < 1 then 1 else if rank > total_n then total_n else rank)"

definition us_to_ms :: "int \<Rightarrow> float64" where
  "us_to_ms us = fdiv (f64_of_int us) 1000"

definition quantileFrom :: "(int, int) gomap \<Rightarrow> int list \<Rightarrow> int \<Rightarrow> float64 \<Rightarrow> float64 option" where
  "quantileFrom m keys total_n q =
     (if total_n = 0 then Some 0
      else if keys = [] then None
      else case quantile_walk m (quantile_rank total_n q) 0 (butlast keys) of
             Some us \<Rightarrow> Some (us_to_ms us)
           | None \<Rightarrow> Some (us_to_ms (last keys)))"

definition percentile :: "opStats \<Rightarrow> float64 \<Rightarrow> float64 option" where
  "percentile s q = (let (keys, total_n) = sortedKeys s in quantileFrom (lat s) keys total_n q)"

text \<open>The quantile constants of the source, as the doubles they denote.\<close>

definition q50 :: float64 where "q50 = 1 / 2"
definition q95 :: float64 where "q95 = 4278419646001971 / 4503599627370496"
definition q99 :: float64 where "q99 = 4458563631096791 / 4503599627370496"
definition q999 :: float64 where "q999 = 8998192055486251 / 9007199254740992"

record LatencyStats =
  MinMS :: float64
  MeanMS :: float64
  P50MS :: float64
  P95MS :: float64
  P99MS :: float64
  P999MS :: float64
  MaxMS :: float64

definition latencyStats :: "opStats \<Rightarrow> LatencyStats option" where
  "latencyStats s =
     (let (keys, total_n) = sortedKeys s in
      if total_n = 0 then
        Some \<lparr>MinMS = 0, MeanMS = 0, P50MS = 0, P95MS = 0, P99MS = 0, P999MS = 0, MaxMS = 0\<rparr>
      else if keys = [] then None
      else do {
        let weightedSum = foldl (\<lambda>a us. i64 (a + i64 (us * mget (lat s) us))) 0 keys;
        p50 \<leftarrow> quantileFrom (lat s) keys total_n q50;
        p95 \<leftarrow> quantileFrom (lat s) keys total_n q95;
        p99 \<leftarrow> quantileFrom (lat s) keys total_n q99;
        p999 \<leftarrow> quantileFrom (lat s) keys total_n q999;
        Some \<lparr>MinMS = us_to_ms (keys ! 0),
              MeanMS = fdiv (fdiv (f64_of_int weightedSum) (f64_of_int total_n)) 1000,
              P50MS = p50, P95MS = p95, P99MS = p99, P999MS = p999,
              MaxMS = us_to_ms (keys ! (length keys - 1))\<rparr>
      })"

text \<open>\<open>commaf\<close>: the decimal digits in groups of three from the right.\<close>

fun comma_groups :: "nat \<Rightarrow> string \<Rightarrow> string \<Rightarrow> string" where
  "comma_groups i b [] = b"
| "comma_groups i b (x # xs) =
     comma_groups (i + 3) ((if i > 0 then b @ '','' else b) @ take 3 (x # xs)) (drop 3 (x # xs))"

definition commaf :: "int \<Rightarrow> string" where
  "commaf n =
     (let s = itoa n in
      if length s \<le> 3 then s
      else let rem = length s mod 3;
               b = (if rem > 0 then take rem s else [])
           in comma_groups rem b (drop rem s))"

section \<open>Specification\<close>

text \<open>The invariant of \<open>opStats\<close>, as its comment states it.\<close>

definition stats_ok :: "opStats \<Rightarrow> bool" where
  "stats_ok s \<longleftrightarrow>
     keys_ok (lat s) \<and> (\<forall>(us, n) \<in> set (lat s). 0 \<le> us \<and> 0 < n) \<and>
     0 \<le> errors s \<and> samples s = count s - errors s \<and> latencies s \<noteq> Some []"

text \<open>How many observations are at most \<open>v\<close>.\<close>

definition obs_le :: "opStats \<Rightarrow> int \<Rightarrow> int" where
  "obs_le s v = (\<Sum>us \<in> {us \<in> fst ` set (lat s). us \<le> v}. mget (lat s) us)"

text \<open>The nearest-rank value of rank \<open>r\<close>: the smallest observed value with at least \<open>r\<close>
  observations at or below it.\<close>

definition nearest_rank :: "opStats \<Rightarrow> int \<Rightarrow> int \<Rightarrow> bool" where
  "nearest_rank s r v \<longleftrightarrow>
     v \<in> fst ` set (lat s) \<and> r \<le> obs_le s v \<and> (\<forall>u \<in> fst ` set (lat s). u < v \<longrightarrow> obs_le s u < r)"

section \<open>Lemmas\<close>

lemma lat_zero [simp]: "lat opStats_zero = []"
  by (simp add: lat_def opStats_zero_def)

lemma lat_simps [simp]:
  "lat (s\<lparr>count := c\<rparr>) = lat s" "lat (s\<lparr>errors := e\<rparr>) = lat s" "lat (s\<lparr>latencies := Some m\<rparr>) = m"
  by (simp_all add: lat_def)

lemma foldl_sum_list: "foldl (\<lambda>n (us, c). n + c) (a :: int) xs = a + sum_list (map snd xs)"
  by (induction xs arbitrary: a) auto

lemma samples_sum: "samples s = sum_list (map snd (lat s))"
  by (simp add: samples_def foldl_sum_list)

lemma sortedKeys_eq: "sortedKeys s = (sort (map fst (lat s)), samples s)"
  by (simp add: sortedKeys_def samples_def)

lemma samples_mget:
  "keys_ok (lat s) \<Longrightarrow> finite K \<Longrightarrow> fst ` set (lat s) \<subseteq> K \<Longrightarrow> samples s = (\<Sum>us \<in> K. mget (lat s) us)"
  by (simp add: samples_sum sum_list_mget)

subsection \<open>Recording\<close>

lemma to_micros_nonneg: "0 \<le> to_micros d"
  by (simp add: to_micros_def Let_def)

lemma count_record_op [simp]: "count (record_op s d err) = count s + 1"
  by (simp add: record_op_def Let_def)

lemma errors_record_op [simp]: "errors (record_op s d err) = errors s + (if err = None then 0 else 1)"
  by (simp add: record_op_def Let_def)

lemma mget_record_op:
  "mget (lat (record_op s d err)) us =
     mget (lat s) us + (if err = None \<and> us = to_micros d then 1 else 0)"
  by (auto simp: record_op_def Let_def mget_madd)

lemma set_madd: "set (madd m k n) \<subseteq> insert (k, mget m k + n) (set m)"
  by (simp add: madd_def set_update_subset)

lemma stats_ok_zero [simp]: "stats_ok opStats_zero"
  by (simp add: stats_ok_def samples_sum) (simp add: opStats_zero_def)

lemma mget_nonneg:
  "(\<forall>(us, n) \<in> set m. 0 \<le> us \<and> 0 < n) \<Longrightarrow> 0 \<le> mget m k"
  by (force simp: mget_def dest: map_of_SomeD split: option.split)

lemma madd_entries:
  assumes "\<forall>(us, n) \<in> set m. 0 \<le> us \<and> 0 < n" "0 \<le> k" "0 < (n :: int)"
  shows "\<forall>(us, c) \<in> set (madd m k n). 0 \<le> us \<and> 0 < c"
  using assms set_madd [of m k n] mget_nonneg [OF assms(1), of k] by auto

lemma madd_not_Nil [simp]: "madd m k n \<noteq> []"
  by (cases m) (auto simp: madd_def)

lemma stats_ok_record_op:
  assumes "stats_ok s"
  shows "stats_ok (record_op s d err)"
proof (cases "err = None")
  case True
  then show ?thesis
    using assms to_micros_nonneg [of d] madd_entries [of "lat s" "to_micros d" 1]
    by (auto simp: stats_ok_def record_op_def Let_def samples_sum sum_list_madd)
next
  case False
  then show ?thesis using assms by (auto simp: stats_ok_def record_op_def Let_def samples_sum)
qed

subsection \<open>Merging\<close>

lemma merge_loop:
  fixes xs :: "(int, int) gomap"
  defines "F \<equiv> foldl (\<lambda>d (us, n). d\<lparr>latencies := Some (madd (lat d) us n)\<rparr>)"
  shows "count (F d xs) = count d \<and> errors (F d xs) = errors d \<and>
         lat (F d xs) = foldl (\<lambda>m (us, n). madd m us n) (lat d) xs \<and>
         (xs = [] \<longrightarrow> F d xs = d) \<and> (xs \<noteq> [] \<longrightarrow> latencies (F d xs) = Some (lat (F d xs)))"
  unfolding F_def
proof (induction xs rule: rev_induct)
  case (snoc x xs)
  then show ?case by (cases x) simp
qed simp

lemma count_mergeInto [simp]: "count (mergeInto d s) = count d + count s"
  by (simp add: mergeInto_def Let_def merge_loop)

lemma errors_mergeInto [simp]: "errors (mergeInto d s) = errors d + errors s"
  by (simp add: mergeInto_def Let_def merge_loop)

lemma lat_mergeInto: "lat (mergeInto d s) = foldl (\<lambda>m (us, n). madd m us n) (lat d) (lat s)"
  by (simp add: mergeInto_def Let_def merge_loop)

lemma foldl_madd:
  assumes "keys_ok xs"
  shows "mget (foldl (\<lambda>m (us, n). madd m us n) m xs) k = mget m k + mget xs k"
  using assms
proof (induction xs arbitrary: m)
  case (Cons x xs)
  obtain us n where x: "x = (us, n)" by fastforce
  have "mget xs us = 0"
    using Cons.prems x by (simp add: mget_def map_of_eq_None_iff [THEN iffD2])
  moreover have "mget (x # xs) k = (if us = k then n else mget xs k)"
    by (simp add: x mget_def)
  ultimately show ?case using Cons x by (auto simp: mget_madd)
qed simp

lemma mget_mergeInto:
  "keys_ok (lat s) \<Longrightarrow> mget (lat (mergeInto d s)) us = mget (lat d) us + mget (lat s) us"
  by (simp add: lat_mergeInto foldl_madd)

lemma foldl_madd_ok:
  assumes "keys_ok m" "\<forall>(us, n) \<in> set m. 0 \<le> us \<and> 0 < n" "\<forall>(us, n) \<in> set xs. 0 \<le> us \<and> 0 < n"
  shows "keys_ok (foldl (\<lambda>m (us, n). madd m us n) m xs) \<and>
         (\<forall>(us, n) \<in> set (foldl (\<lambda>m (us, n). madd m us n) m xs). 0 \<le> us \<and> 0 < n) \<and>
         sum_list (map snd (foldl (\<lambda>m (us, n). madd m us n) m xs)) =
           sum_list (map snd m) + sum_list (map snd xs)"
  using assms
proof (induction xs arbitrary: m)
  case (Cons x xs)
  obtain us n where x: "x = (us, n)" by fastforce
  have "\<forall>(us, c) \<in> set (madd m us n). 0 \<le> us \<and> 0 < c"
    using Cons.prems x by (intro madd_entries) auto
  then show ?case using Cons.IH [of "madd m us n"] Cons.prems x by (simp add: sum_list_madd)
qed simp

lemma latencies_mergeInto:
  "latencies (mergeInto d s) = (if lat s = [] then latencies d else Some (lat (mergeInto d s)))"
  by (simp add: mergeInto_def Let_def merge_loop)

lemma stats_ok_mergeInto:
  assumes "stats_ok d" "stats_ok s"
  shows "stats_ok (mergeInto d s)"
proof -
  have f: "foldl (\<lambda>m (us, n). madd m us n) m xs \<noteq> []" if "xs \<noteq> []" for m and xs :: "(int, int) gomap"
    using that by (cases xs rule: rev_cases) auto
  show ?thesis
    using assms foldl_madd_ok [of "lat d" "lat s"] f [of "lat s"]
    by (auto simp: stats_ok_def samples_sum lat_mergeInto latencies_mergeInto)
qed

subsection \<open>Quantiles\<close>

text \<open>The sum over the entries at or below \<open>v\<close>, on top of what was accumulated.\<close>

definition upto_sum :: "(int, int) gomap \<Rightarrow> int \<Rightarrow> int list \<Rightarrow> int \<Rightarrow> int" where
  "upto_sum m c ks v = c + (\<Sum>k \<in> {k \<in> set ks. k \<le> v}. mget m k)"

lemma upto_sum_Cons:
  assumes "sorted_wrt (<) (k # ks)" "v \<in> set ks"
  shows "upto_sum m c (k # ks) v = upto_sum m (c + mget m k) ks v"
proof -
  have "k < v" "k \<notin> set ks" using assms by auto
  then have "{j \<in> set (k # ks). j \<le> v} = insert k {j \<in> set ks. j \<le> v}" by auto
  then show ?thesis using \<open>k \<notin> set ks\<close> by (simp add: upto_sum_def)
qed

lemma upto_sum_first:
  assumes "sorted_wrt (<) (k # ks)"
  shows "upto_sum m c (k # ks) k = c + mget m k"
proof -
  have "{j \<in> set (k # ks). j \<le> k} = {k}" using assms by auto
  then show ?thesis by (simp add: upto_sum_def)
qed

lemma quantile_walk_spec:
  assumes "sorted_wrt (<) (ks @ [l])" "c < r" "r \<le> upto_sum m c (ks @ [l]) l"
  defines "v \<equiv> (case quantile_walk m r c ks of Some us \<Rightarrow> us | None \<Rightarrow> l)"
  shows "v \<in> set (ks @ [l]) \<and> r \<le> upto_sum m c (ks @ [l]) v \<and>
         (\<forall>u \<in> set (ks @ [l]). u < v \<longrightarrow> upto_sum m c (ks @ [l]) u < r)"
  unfolding v_def using assms(1-3)
proof (induction ks arbitrary: c)
  case Nil
  then show ?case by simp
next
  case (Cons k ks)
  have first: "upto_sum m c (k # ks @ [l]) k = c + mget m k"
    using upto_sum_first [of k "ks @ [l]" m c] Cons.prems(1) by simp
  show ?case
  proof (cases "r \<le> c + mget m k")
    case True
    then show ?thesis using Cons.prems(1) first by (auto simp: sorted_wrt_append)
  next
    case False
    let ?c = "c + mget m k" and ?ks = "ks @ [l]"
    let ?v = "case quantile_walk m r ?c ks of Some us \<Rightarrow> us | None \<Rightarrow> l"
    have eq: "upto_sum m c (k # ?ks) u = upto_sum m ?c ?ks u" if "u \<in> set ?ks" for u
      using that Cons.prems(1) by (intro upto_sum_Cons) simp_all
    have "?v \<in> set ?ks \<and> r \<le> upto_sum m ?c ?ks ?v \<and>
        (\<forall>u \<in> set ?ks. u < ?v \<longrightarrow> upto_sum m ?c ?ks u < r)"
      using Cons.prems False eq [of l] by (intro Cons.IH) simp_all
    moreover have "(case quantile_walk m r c (k # ks) of Some us \<Rightarrow> us | None \<Rightarrow> l) = ?v"
      using False by simp
    ultimately show ?thesis using False eq first by auto
  qed
qed

lemma obs_le_upto: "obs_le s v = upto_sum (lat s) 0 (sort (map fst (lat s))) v"
  by (simp add: obs_le_def upto_sum_def)

lemma samples_pos:
  assumes "stats_ok s" "lat s \<noteq> []"
  shows "0 < samples s"
proof -
  obtain us n m where "lat s = (us, n) # m" using assms(2) by (cases "lat s") auto
  moreover have "0 \<le> sum_list (map snd m)" if "\<forall>(us, n) \<in> set m. 0 \<le> us \<and> 0 < n"
    using that by (induction m) auto
  ultimately show ?thesis using assms(1) by (auto simp: stats_ok_def samples_sum)
qed

lemma samples_0_iff: "stats_ok s \<Longrightarrow> samples s = 0 \<longleftrightarrow> lat s = []"
  using samples_pos [of s] by (cases "lat s = []") (auto simp: samples_sum)

lemma percentile_total: "\<exists>v. percentile s q = Some v"
  by (auto simp: percentile_def sortedKeys_eq quantileFrom_def samples_sum split: option.splits)

lemma quantile_rank_range: "0 < n \<Longrightarrow> 1 \<le> quantile_rank n q \<and> quantile_rank n q \<le> n"
  by (auto simp: quantile_rank_def Let_def)

lemma sorted_keys_strict:
  "keys_ok m \<Longrightarrow> sorted_wrt (<) (sort (map fst (m :: (int, int) gomap)))"
  by (simp add: keys_ok_def strict_sorted_iff)

lemma obs_le_last:
  assumes "keys_ok (lat s)" "lat s \<noteq> []"
  shows "obs_le s (last (sort (map fst (lat s)))) = samples s"
proof -
  let ?ks = "sort (map fst (lat s))"
  have "k \<le> last ?ks" if "k \<in> set ?ks" for k
    using that sorted_wrt_append [of "(\<le>)" "butlast ?ks" "[last ?ks]"] sorted_sort [of "map fst (lat s)"] assms(2)
    by (cases ?ks rule: rev_cases) (auto simp: sorted_append)
  then have "{us \<in> fst ` set (lat s). us \<le> last ?ks} = fst ` set (lat s)" by auto
  then show ?thesis using assms(1) samples_mget [of s "fst ` set (lat s)"] by (simp add: obs_le_def)
qed

lemma percentile_nearest:
  assumes ok: "stats_ok s" and ne: "0 < samples s"
  shows "\<exists>v. percentile s q = Some (us_to_ms v) \<and> nearest_rank s (quantile_rank (samples s) q) v"
proof -
  let ?ks = "sort (map fst (lat s))" and ?r = "quantile_rank (samples s) q"
  have lat: "lat s \<noteq> []" using ne by (auto simp: samples_sum)
  then have ks: "?ks \<noteq> []" by simp
  then obtain b l where bl: "?ks = b @ [l]" by (metis append_butlast_last_id)
  have k: "keys_ok (lat s)" using ok by (simp add: stats_ok_def)
  have all: "obs_le s l = samples s" using obs_le_last [OF k lat] bl by simp
  let ?v = "case quantile_walk (lat s) ?r 0 b of Some us \<Rightarrow> us | None \<Rightarrow> l"
  have "?v \<in> set (b @ [l]) \<and> ?r \<le> upto_sum (lat s) 0 (b @ [l]) ?v \<and>
      (\<forall>u \<in> set (b @ [l]). u < ?v \<longrightarrow> upto_sum (lat s) 0 (b @ [l]) u < ?r)"
    using sorted_keys_strict [OF k] quantile_rank_range [OF ne, of q] all
    by (intro quantile_walk_spec) (simp_all add: bl obs_le_upto)
  moreover have "set (b @ [l]) = fst ` set (lat s)" by (simp flip: bl)
  ultimately have "nearest_rank s ?r ?v" unfolding nearest_rank_def obs_le_upto bl by metis
  moreover have "percentile s q = Some (us_to_ms ?v)"
    using ne ks by (auto simp: percentile_def sortedKeys_eq quantileFrom_def bl split: option.splits)
  ultimately show ?thesis by blast
qed

lemma quantile_rank_exact:
  assumes "0 < n" "n \<le> 2 ^ 40" "0 < m" "m \<le> 1000" "0 < p" "p \<le> m"
    "0 \<le> q" "q \<le> of_int p / of_int m" "of_int p / of_int m - q \<le> 1 / 2 ^ 54"
  shows "quantile_rank n q = \<lceil>of_int p * of_int n / (of_int m :: rat)\<rceil>"
proof -
  have n: "f64_of_int n = of_int n" using assms by (intro f64_of_int_exact) simp
  have r: "\<lceil>rne (q * of_int n)\<rceil> = \<lceil>of_int p * of_int n / (of_int m :: rat)\<rceil>"
    using assms by (intro rank_exact) simp_all
  have "of_int p * of_int n / (of_int m :: rat) \<le> of_int n"
    using assms by (simp add: divide_le_eq mult.commute mult_left_mono)
  then have "\<not> \<lceil>of_int p * of_int n / (of_int m :: rat)\<rceil> > n"
    unfolding not_less by (simp only: ceiling_le_iff)
  moreover have "\<not> \<lceil>of_int p * of_int n / (of_int m :: rat)\<rceil> < 1"
    using assms by (simp add: not_less le_ceiling_iff not_le)
  ultimately show ?thesis by (simp add: quantile_rank_def fmul_def n r)
qed

lemma us_to_ms_mono: "0 \<le> a \<Longrightarrow> a \<le> b \<Longrightarrow> us_to_ms a \<le> us_to_ms b"
  unfolding us_to_ms_def fdiv_def f64_of_int_def
  by (intro rne_mono divide_right_mono) (simp_all add: rne_nonneg)

lemma quantile_rank_mono:
  assumes "0 < n" "0 \<le> q" "q \<le> q'"
  shows "quantile_rank n q \<le> quantile_rank n q'"
proof -
  have "0 \<le> f64_of_int n" using assms by (simp add: f64_of_int_def rne_nonneg)
  then have "fmul q (f64_of_int n) \<le> fmul q' (f64_of_int n)"
    using assms unfolding fmul_def by (intro rne_mono mult_right_mono) simp_all
  then have "\<lceil>fmul q (f64_of_int n)\<rceil> \<le> \<lceil>fmul q' (f64_of_int n)\<rceil>" by (rule ceiling_mono)
  moreover have "(if a < 1 then 1 else if a > n then n else a) \<le> (if b < 1 then 1 else if b > n then n else b)"
    if "a \<le> b" for a b :: int using that assms(1) by auto
  ultimately show ?thesis unfolding quantile_rank_def Let_def by blast
qed

lemma nearest_rank_mono:
  "nearest_rank s r v \<Longrightarrow> nearest_rank s r' v' \<Longrightarrow> r \<le> r' \<Longrightarrow> v \<le> v'"
  unfolding nearest_rank_def by (meson not_less order_trans)

lemma percentile_mono:
  assumes "stats_ok s" "0 < samples s" "0 \<le> q" "q \<le> q'"
    and "percentile s q = Some a" "percentile s q' = Some b"
  shows "a \<le> b"
proof -
  obtain v where v: "a = us_to_ms v" "nearest_rank s (quantile_rank (samples s) q) v"
    using percentile_nearest [OF assms(1,2), of q] assms(5) by auto
  obtain v' where v': "b = us_to_ms v'" "nearest_rank s (quantile_rank (samples s) q') v'"
    using percentile_nearest [OF assms(1,2), of q'] assms(6) by auto
  have "v \<le> v'"
    using nearest_rank_mono [OF v(2) v'(2)] quantile_rank_mono [OF assms(2-4)] by simp
  moreover have "0 \<le> v" using v(2) assms(1) by (auto simp: nearest_rank_def stats_ok_def)
  ultimately show ?thesis using v v' by (simp add: us_to_ms_mono)
qed

lemma percentile_bounds:
  assumes "stats_ok s" "0 < samples s" "percentile s q = Some a"
  defines "ks \<equiv> sort (map fst (lat s))"
  shows "us_to_ms (ks ! 0) \<le> a \<and> a \<le> us_to_ms (ks ! (length ks - 1))"
proof -
  obtain v where v: "a = us_to_ms v" "v \<in> fst ` set (lat s)"
    using percentile_nearest [OF assms(1,2), of q] assms(3) by (auto simp: nearest_rank_def)
  then have "v \<in> set ks" by (simp add: ks_def)
  then obtain i where i: "i < length ks" "v = ks ! i" by (auto simp: in_set_conv_nth)
  have so: "sorted ks" by (simp add: ks_def)
  have "ks ! 0 \<le> v" "v \<le> ks ! (length ks - 1)"
    using i sorted_nth_mono [OF so, of 0 i] sorted_nth_mono [OF so, of i "length ks - 1"] by auto
  moreover have "0 \<le> ks ! 0"
  proof -
    have "ks ! 0 \<in> set ks" using i by (intro nth_mem) auto
    then show ?thesis using assms(1) by (auto simp: ks_def stats_ok_def)
  qed
  ultimately show ?thesis using v by (auto intro!: us_to_ms_mono)
qed

lemma latencyStats_fields:
  assumes "0 < samples s"
  shows "\<exists>ls. latencyStats s = Some ls \<and>
           percentile s q50 = Some (P50MS ls) \<and> percentile s q95 = Some (P95MS ls) \<and>
           percentile s q99 = Some (P99MS ls) \<and> percentile s q999 = Some (P999MS ls) \<and>
           MinMS ls = us_to_ms (sort (map fst (lat s)) ! 0) \<and>
           MaxMS ls = us_to_ms (sort (map fst (lat s)) ! (length (lat s) - 1))"
proof -
  have ne: "lat s \<noteq> []" using assms by (auto simp: samples_sum)
  obtain a b c d where "percentile s q50 = Some a" "percentile s q95 = Some b"
      "percentile s q99 = Some c" "percentile s q999 = Some d"
    using percentile_total [of s q50] percentile_total [of s q95] percentile_total [of s q99]
      percentile_total [of s q999] by blast
  then show ?thesis
    using assms ne by (simp add: latencyStats_def percentile_def sortedKeys_eq Let_def)
qed

subsection \<open>The mean\<close>

text \<open>All recorded latencies, each as often as it was recorded.\<close>

definition total_us :: "opStats \<Rightarrow> int" where
  "total_us s = sum_list (map (\<lambda>(us, n). us * n) (lat s))"

lemma total_us_sum:
  assumes "keys_ok (lat s)"
  shows "total_us s = (\<Sum>us \<in> fst ` set (lat s). us * mget (lat s) us)"
proof -
  have "total_us s = sum_list (map (\<lambda>us. us * mget (lat s) us) (map fst (lat s)))"
    unfolding total_us_def map_map
    by (rule arg_cong [of _ _ sum_list], rule map_cong)
       (use assms in \<open>auto simp: mget_def keys_ok_def\<close>)
  also have "\<dots> = (\<Sum>us \<in> set (map fst (lat s)). us * mget (lat s) us)"
    using assms by (intro sum_list_distinct_conv_sum_set) (simp add: keys_ok_def)
  finally show ?thesis by simp
qed

lemma foldl_i64_sum: "foldl (\<lambda>a us. i64 (a + i64 (f us))) (i64 c) ks = i64 (c + sum_list (map f ks))"
proof (induction ks arbitrary: c)
  case (Cons us ks)
  have "i64 (i64 c + i64 (f us)) = i64 (c + f us)" by (metis add.commute i64_add_left)
  then show ?case using Cons [of "c + f us"] by (simp add: add.assoc)
qed simp

lemma weighted_sum_exact:
  assumes "stats_ok s" "total_us s < 2 ^ 63"
  shows "foldl (\<lambda>a us. i64 (a + i64 (us * mget (lat s) us))) 0 (sort (map fst (lat s))) = total_us s"
proof -
  have k: "keys_ok (lat s)" and e: "\<forall>(us, n) \<in> set (lat s). 0 \<le> us \<and> 0 < n" using assms(1) by (auto simp: stats_ok_def)
  have "0 \<le> total_us s" unfolding total_us_def using e by (intro sum_list_nonneg) (auto intro!: mult_nonneg_nonneg)
  moreover have "sum_list (map (\<lambda>us. us * mget (lat s) us) (sort (map fst (lat s)))) = total_us s"
    unfolding total_us_sum [OF k] using k by (simp add: sum_list_distinct_conv_sum_set keys_ok_def)
  ultimately show ?thesis using foldl_i64_sum [of "\<lambda>us. us * mget (lat s) us" 0] i64_nonneg [OF _ assms(2)] by simp
qed

lemma latencyStats_mean:
  assumes "stats_ok s" "0 < samples s" "latencyStats s = Some ls"
  shows "MeanMS ls = fdiv (fdiv (f64_of_int
    (foldl (\<lambda>a us. i64 (a + i64 (us * mget (lat s) us))) 0 (sort (map fst (lat s))))) (f64_of_int (samples s))) 1000"
proof -
  have "lat s \<noteq> []" using assms(2) by (auto simp: samples_sum)
  then show ?thesis using assms(2,3) by (auto simp: latencyStats_def sortedKeys_eq Let_def split: Option.bind_splits)
qed

lemma total_us_bounds:
  assumes "stats_ok s" "0 < samples s"
  defines "ks \<equiv> sort (map fst (lat s))"
  shows "ks ! 0 * samples s \<le> total_us s" "total_us s \<le> ks ! (length (lat s) - 1) * samples s" "0 \<le> total_us s"
    "0 \<le> ks ! 0"
proof -
  have e: "\<forall>(us, n) \<in> set (lat s). 0 \<le> us \<and> 0 < n" using assms(1) by (auto simp: stats_ok_def)
  have ne: "lat s \<noteq> []" using assms(2) by (auto simp: samples_sum)
  have in_ks: "\<exists>i < length ks. us = ks ! i" if "(us, n) \<in> set (lat s)" for us n
    using that unfolding ks_def in_set_conv_nth [symmetric] by (metis (no_types, lifting) fst_conv image_eqI in_set_conv_nth set_map set_sort)
  have srt: "sorted ks" "length ks = length (lat s)" by (simp_all add: ks_def)
  have b: "ks ! 0 \<le> us \<and> us \<le> ks ! (length (lat s) - 1)" if "(us, n) \<in> set (lat s)" for us n
    using in_ks [OF that] srt by (auto intro!: sorted_nth_mono)
  have sm: "samples s = sum_list (map snd (lat s))" by (simp add: samples_sum)
  have "ks ! 0 * samples s = sum_list (map (\<lambda>(us, n). ks ! 0 * n) (lat s))"
    unfolding sm by (simp add: sum_list_const_mult split_def)
  also have "\<dots> \<le> total_us s" unfolding total_us_def using e b by (intro sum_list_mono) (auto intro!: mult_right_mono)
  finally show "ks ! 0 * samples s \<le> total_us s" .
  have "total_us s \<le> sum_list (map (\<lambda>(us, n). ks ! (length (lat s) - 1) * n) (lat s))"
    unfolding total_us_def using e b by (intro sum_list_mono) (auto intro!: mult_right_mono)
  also have "\<dots> = ks ! (length (lat s) - 1) * samples s" unfolding sm by (simp add: sum_list_const_mult split_def)
  finally show "total_us s \<le> ks ! (length (lat s) - 1) * samples s" .
  show "0 \<le> total_us s" unfolding total_us_def using e by (intro sum_list_nonneg) (auto intro!: mult_nonneg_nonneg)
  have "ks ! 0 \<in> set ks" using ne srt(2) by (intro nth_mem) simp
  then show "0 \<le> ks ! 0" using e by (auto simp: ks_def)
qed

lemma mean_between:
  assumes "stats_ok s" "0 < samples s" "total_us s \<le> 2 ^ 53"
  defines "m \<equiv> fdiv (fdiv (of_int (total_us s)) (of_int (samples s))) 1000"
  shows "us_to_ms (sort (map fst (lat s)) ! 0) \<le> m" "m \<le> us_to_ms (sort (map fst (lat s)) ! (length (lat s) - 1))"
proof -
  let ?lo = "sort (map fst (lat s)) ! 0" and ?hi = "sort (map fst (lat s)) ! (length (lat s) - 1)"
  note t = total_us_bounds [OF assms(1,2)]
  have q: "of_int ?lo \<le> (of_int (total_us s) / of_int (samples s) :: rat)"
      "of_int (total_us s) / of_int (samples s) \<le> (of_int ?hi :: rat)"
    using assms(2) t(1,2) by (simp_all add: pos_le_divide_eq pos_divide_le_eq flip: of_int_mult)
  have lo: "?lo \<le> ?lo * samples s" using t(4) assms(2) by (simp add: mult_le_cancel_left1)
  have "f64_of_int ?lo = of_int ?lo" using lo t(1,4) assms(3) by (intro f64_of_int_exact) simp
  then show "us_to_ms ?lo \<le> m"
    unfolding us_to_ms_def m_def fdiv_def using q(1) rne_mono [OF _ q(1)] t(4)
    by (auto intro!: rne_mono divide_right_mono simp: f64_of_int_def)
  show "m \<le> us_to_ms ?hi"
    unfolding us_to_ms_def m_def fdiv_def f64_of_int_def using q(2) t(3) assms(2)
    by (auto intro!: rne_mono divide_right_mono rne_nonneg)
qed

lemma rne_neg: "x \<le> - 1 \<Longrightarrow> rne x < 0"
proof -
  assume x: "x \<le> - 1"
  have "(2 :: rat) powi ulp_exp x \<le> \<bar>x\<bar>"
  proof (cases "ulp_exp x = - 1074")
    case True
    have "(2 :: rat) powi (- 1074) \<le> 2 powi 0" by (simp only: powi_le_iff)
    then show ?thesis using True x by simp
  next
    case False
    then have "ulp_exp x \<le> ilog2 \<bar>x\<bar>" by (simp add: ulp_exp_def)
    then have "(2 :: rat) powi ulp_exp x \<le> 2 powi ilog2 \<bar>x\<bar>" by (simp only: powi_le_iff)
    then show ?thesis using ilog2_bounds [of "\<bar>x\<bar>"] x by linarith
  qed
  then have "x / 2 powi ulp_exp x \<le> of_int (- 1)" using x by (simp add: pos_divide_le_eq)
  then have "rnd_even (x / 2 powi ulp_exp x) \<le> - 1" using rnd_even_mono rnd_even_of_int by metis
  then have "of_int (rnd_even (x / 2 powi ulp_exp x)) < (0 :: rat)" by simp
  then show ?thesis using x by (simp add: rne_def mult_neg_pos)
qed

lemma mean_wraps:
  "\<exists>ls. latencyStats \<lparr>count = 2, errors = 0, latencies = Some [(2 ^ 62, 2)]\<rparr> = Some ls \<and> MeanMS ls < 0"
proof -
  let ?s = "\<lparr>count = 2, errors = 0, latencies = Some [(2 ^ 62, 2)]\<rparr> :: opStats"
  have ok: "stats_ok ?s" "samples ?s = 2" by (simp_all add: stats_ok_def samples_sum lat_def)
  obtain ls where ls: "latencyStats ?s = Some ls" using latencyStats_fields [of ?s] ok(2) by auto
  have W: "foldl (\<lambda>a us. i64 (a + i64 (us * mget (lat ?s) us))) 0 (sort (map fst (lat ?s))) = - (2 ^ 63)"
    by (simp add: lat_def mget_def)
  have f: "is_f64 (- (2 ^ 63))" "is_f64 (- (2 ^ 62))"
    unfolding is_f64_def by (rule exI [of _ "- 1"], rule exI [of _ 63], simp) (rule exI [of _ "- 1"], rule exI [of _ 62], simp)
  have "fdiv (f64_of_int (- (2 ^ 63))) (f64_of_int 2) = - (2 ^ 62)"
    using rne_exact [OF f(1)] rne_exact [OF f(2)] by (simp add: fdiv_def) (simp add: f64_of_int_def)
  then have "MeanMS ls = rne (- (2 ^ 62) / 1000)"
    using latencyStats_mean [OF ok(1) _ ls] unfolding W ok(2) by (simp add: fdiv_def)
  moreover have "rne (- (2 ^ 62) / 1000) < 0" by (rule rne_neg) simp
  ultimately show ?thesis using ls by auto
qed

lemma sortedKeys_cong:
  assumes "keys_ok (lat s)" "keys_ok (lat s')" "map_of (lat s) = map_of (lat s')"
  shows "sortedKeys s = sortedKeys s'" and "mget (lat s) = mget (lat s')"
proof -
  have st: "set (lat s) = set (lat s')" using assms by (rule map_of_eq_perm)
  show m: "mget (lat s) = mget (lat s')" using assms(3) by (simp add: mget_def fun_eq_iff)
  have "samples s = samples s'"
    using samples_mget [OF assms(1), of "fst ` set (lat s)"] samples_mget [OF assms(2), of "fst ` set (lat s)"]
    by (simp add: st m)
  moreover have "sort (map fst (lat s)) = sort (map fst (lat s'))"
    using assms st by (intro sorted_distinct_set_unique) (simp_all add: keys_ok_def)
  ultimately show "sortedKeys s = sortedKeys s'" by (simp add: sortedKeys_eq)
qed

lemma quantile_walk_cong: "mget m = mget m' \<Longrightarrow> quantile_walk m r c ks = quantile_walk m' r c ks"
  by (induction ks arbitrary: c) (simp_all add: Let_def)

subsection \<open>Digit groups\<close>

lemma comma_groups_strip:
  assumes "CHR '','' \<notin> set xs"
  shows "filter (\<lambda>c. c \<noteq> CHR '','') (comma_groups i b xs) = filter (\<lambda>c. c \<noteq> CHR '','') b @ xs"
  using assms
proof (induction i b xs rule: comma_groups.induct)
  case (2 i b x xs)
  have "set (drop 3 (x # xs)) \<subseteq> set (x # xs)" "set (take 3 (x # xs)) \<subseteq> set (x # xs)"
    by (rule set_drop_subset set_take_subset)+
  then have "filter (\<lambda>c. c \<noteq> CHR '','') (take 3 (x # xs)) = take 3 (x # xs)"
      "CHR '','' \<notin> set (drop 3 (x # xs))"
    using 2(2) by (auto intro!: filter_True)
  then show ?case using 2(1) by (simp del: take_Suc_Cons drop_Suc_Cons)
qed simp

lemma itoa_no_comma: "0 \<le> n \<Longrightarrow> CHR '','' \<notin> set (itoa n)"
  using nat_digits_digits [of "nat n"] by (auto simp: itoa_def is_digit_def)

section \<open>Properties\<close>

text \<open>A small concrete window, used by the witnesses: 2 operations of 3 ms, one of 7 ms, one error.\<close>

definition sample_stats :: opStats where
  "sample_stats = \<lparr>count = 4, errors = 1, latencies = Some [(7000, 1), (3000, 2)]\<rparr>"

lemma sample_stats_ok: "stats_ok sample_stats" "samples sample_stats = 3"
  by (simp_all add: stats_ok_def sample_stats_def samples_def lat_def)

text \<open>
  C7: Every reported percentile is the exact nearest-rank percentile. For a window with
  between 1 and \<open>2 ^ 40\<close> successful observations, \<open>percentile\<close> with each constant of the
  source returns, without panicking, a latency that was really observed: the smallest one
  with at least \<open>ceil(q N)\<close> observations at or below it, where the rank is that of the
  decimal fraction 0.50, 0.95, 0.99 or 0.999 although it is computed in floating point.
\<close>

theorem percentile_is_nearest_rank:
  assumes "stats_ok s" and "0 < samples s" and "samples s \<le> 2 ^ 40"
    and "(q, p, m) \<in> {(q50, 1, 2), (q95, 95, 100), (q99, 99, 100), (q999, 999, 1000)}"
  shows "\<exists>v. percentile s q = Some (us_to_ms v) \<and>
             nearest_rank s \<lceil>of_int p * of_int (samples s) / (of_int m :: rat)\<rceil> v"
proof -
  have "quantile_rank (samples s) q = \<lceil>of_int p * of_int (samples s) / (of_int m :: rat)\<rceil>"
    using assms by (intro quantile_rank_exact) (auto simp: q50_def q95_def q99_def q999_def)
  then show ?thesis using percentile_nearest [OF assms(1,2), of q] by simp
qed

theorem percentile_is_nearest_rank_witness:
  "\<exists>v. percentile sample_stats q95 = Some (us_to_ms v) \<and> nearest_rank sample_stats 3 v"
proof -
  have "\<lceil>95 * 3 / (100 :: rat)\<rceil> = 3" by (simp add: ceiling_eq_iff)
  then show ?thesis
    using percentile_is_nearest_rank [of sample_stats q95 95 100] sample_stats_ok by simp
qed

text \<open>
  C33: The latency summary is ordered. For a window with a successful observation,
  \<open>latencyStats\<close> does not panic and
  \<open>MinMS \<le> P50MS \<le> P95MS \<le> P99MS \<le> P999MS \<le> MaxMS\<close>.
\<close>

theorem latencyStats_ordered:
  assumes "stats_ok s" and "0 < samples s"
  shows "\<exists>ls. latencyStats s = Some ls \<and> MinMS ls \<le> P50MS ls \<and> P50MS ls \<le> P95MS ls \<and>
              P95MS ls \<le> P99MS ls \<and> P99MS ls \<le> P999MS ls \<and> P999MS ls \<le> MaxMS ls"
proof -
  obtain ls where ls: "latencyStats s = Some ls"
      "percentile s q50 = Some (P50MS ls)" "percentile s q95 = Some (P95MS ls)"
      "percentile s q99 = Some (P99MS ls)" "percentile s q999 = Some (P999MS ls)"
      "MinMS ls = us_to_ms (sort (map fst (lat s)) ! 0)"
      "MaxMS ls = us_to_ms (sort (map fst (lat s)) ! (length (lat s) - 1))"
    using latencyStats_fields [OF assms(2)] by blast
  have q: "0 \<le> q50" "q50 \<le> q95" "q95 \<le> q99" "q99 \<le> q999" "0 \<le> q95" "0 \<le> q99"
    by (simp_all add: q50_def q95_def q99_def q999_def)
  show ?thesis
    using ls percentile_mono [OF assms q(1,2) ls(2,3)] percentile_mono [OF assms q(5,3) ls(3,4)]
      percentile_mono [OF assms q(6,4) ls(4,5)] percentile_bounds [OF assms ls(2)]
      percentile_bounds [OF assms ls(5)] by auto
qed

theorem latencyStats_ordered_witness:
  "\<exists>ls. latencyStats sample_stats = Some ls \<and> MinMS ls \<le> P50MS ls \<and> P999MS ls \<le> MaxMS ls"
  using latencyStats_ordered [OF sample_stats_ok(1)] sample_stats_ok(2) by auto

text \<open>
  C34: The mean is that of the recorded latencies, as long as their sum fits into 64 bits. For an
  operation with a successful observation, \<open>latencyStats\<close> divides the sum of all latencies by their number, each a
  double, if the sum is below \<open>2 ^ 63\<close> microseconds; up to \<open>2 ^ 53\<close> microseconds (285 years of
  measured time) both are exact and the mean lies between the minimum and the maximum.
  Above \<open>2 ^ 63\<close> the sum wraps: two operations of \<open>2 ^ 62\<close> microseconds have a negative mean.
\<close>

theorem latency_mean:
  assumes "stats_ok s" and "0 < samples s"
  shows "(\<exists>ls. latencyStats s = Some ls \<and>
      (total_us s < 2 ^ 63 \<longrightarrow> MeanMS ls = fdiv (fdiv (f64_of_int (total_us s)) (f64_of_int (samples s))) 1000) \<and>
      (total_us s \<le> 2 ^ 53 \<and> samples s \<le> 2 ^ 53 \<longrightarrow>
         MeanMS ls = fdiv (fdiv (of_int (total_us s)) (of_int (samples s))) 1000 \<and> MinMS ls \<le> MeanMS ls \<and> MeanMS ls \<le> MaxMS ls)) \<and>
    (\<exists>ls. latencyStats \<lparr>count = 2, errors = 0, latencies = Some [(2 ^ 62, 2)]\<rparr> = Some ls \<and> MeanMS ls < 0)"
proof
  obtain ls where ls: "latencyStats s = Some ls" "MinMS ls = us_to_ms (sort (map fst (lat s)) ! 0)"
      "MaxMS ls = us_to_ms (sort (map fst (lat s)) ! (length (lat s) - 1))"
    using latencyStats_fields [OF assms(2)] by blast
  have m: "MeanMS ls = fdiv (fdiv (f64_of_int (total_us s)) (f64_of_int (samples s))) 1000" if "total_us s < 2 ^ 63"
    using latencyStats_mean [OF assms ls(1)] weighted_sum_exact [OF assms(1) that] by simp
  have "MeanMS ls = fdiv (fdiv (of_int (total_us s)) (of_int (samples s))) 1000 \<and> MinMS ls \<le> MeanMS ls \<and> MeanMS ls \<le> MaxMS ls"
    if b: "total_us s \<le> 2 ^ 53 \<and> samples s \<le> 2 ^ 53"
  proof -
    have "0 \<le> total_us s" using total_us_bounds(3) [OF assms] .
    then have e: "MeanMS ls = fdiv (fdiv (of_int (total_us s)) (of_int (samples s))) 1000" using m b assms(2) by simp
    then show ?thesis unfolding ls(2,3) using mean_between [OF assms] b by simp
  qed
  then show "\<exists>ls. latencyStats s = Some ls \<and>
      (total_us s < 2 ^ 63 \<longrightarrow> MeanMS ls = fdiv (fdiv (f64_of_int (total_us s)) (f64_of_int (samples s))) 1000) \<and>
      (total_us s \<le> 2 ^ 53 \<and> samples s \<le> 2 ^ 53 \<longrightarrow>
         MeanMS ls = fdiv (fdiv (of_int (total_us s)) (of_int (samples s))) 1000 \<and> MinMS ls \<le> MeanMS ls \<and> MeanMS ls \<le> MaxMS ls)"
    using ls(1) m by blast
  show "\<exists>ls. latencyStats \<lparr>count = 2, errors = 0, latencies = Some [(2 ^ 62, 2)]\<rparr> = Some ls \<and> MeanMS ls < 0"
    by (rule mean_wraps)
qed

theorem latency_mean_witness:
  "\<exists>ls. latencyStats sample_stats = Some ls \<and> MinMS ls \<le> MeanMS ls \<and> MeanMS ls \<le> MaxMS ls"
  using latency_mean [OF sample_stats_ok(1)] sample_stats_ok(2) by (auto simp: sample_stats_def lat_def total_us_def samples_sum)

text \<open>
  The latency summary does not depend on the order in which Go iterates over the
  frequency map.
\<close>

theorem latencyStats_order_independent:
  assumes "keys_ok (lat s)" and "keys_ok (lat s')" and "map_of (lat s) = map_of (lat s')"
  shows "latencyStats s = latencyStats s' \<and> (\<forall>q. percentile s q = percentile s' q)"
proof -
  have k: "sortedKeys s = sortedKeys s'" and m: "mget (lat s) = mget (lat s')"
    using sortedKeys_cong [OF assms] by auto
  have f: "quantileFrom (lat s) = quantileFrom (lat s')"
    using quantile_walk_cong [OF m] by (simp add: quantileFrom_def fun_eq_iff)
  show ?thesis unfolding latencyStats_def percentile_def k m f by simp
qed

theorem latencyStats_order_independent_witness:
  "latencyStats sample_stats = latencyStats (sample_stats\<lparr>latencies := Some [(3000, 2), (7000, 1)]\<rparr>)"
  using latencyStats_order_independent
    [of sample_stats "sample_stats\<lparr>latencies := Some [(3000, 2), (7000, 1)]\<rparr>"]
  by (simp add: sample_stats_def lat_def fun_eq_iff)

text \<open>
  \<open>Record\<close> keeps the invariant \<open>sum(latencies) = count - errors\<close> of every operation,
  panics only for an operation without an entry, counts exactly one attempt for its
  operation, and adds a latency observation exactly when the operation succeeded.
\<close>

theorem Record_invariant:
  assumes "\<forall>(op, s) \<in> set (data ws). stats_ok s" and "keys_ok (data ws)"
    and "map_of (data ws) op = Some s"
  shows "\<exists>ws' s'. Record ws op d err = Some ws' \<and> (\<forall>(op, s) \<in> set (data ws'). stats_ok s) \<and>
           keys_ok (data ws') \<and> (\<forall>op'. op' \<noteq> op \<longrightarrow> map_of (data ws') op' = map_of (data ws) op') \<and>
           map_of (data ws') op = Some s' \<and> count s' = count s + 1 \<and>
           errors s' = errors s + (if err = None then 0 else 1) \<and>
           samples s' = samples s + (if err = None then 1 else 0)"
proof -
  let ?s = "record_op s d err" and ?ws = "ws\<lparr>data := AList.update op (record_op s d err) (data ws)\<rparr>"
  have s: "stats_ok s" using assms(1,3) by (auto dest: map_of_SomeD)
  then have s': "stats_ok ?s" by (rule stats_ok_record_op)
  have "\<forall>(op, s) \<in> set (data ?ws). stats_ok s"
    using assms(1) s' set_update_subset [of op ?s "data ws"] by auto
  moreover have "samples ?s = samples s + (if err = None then 1 else 0)"
    using s s' by (simp add: stats_ok_def)
  moreover have "Record ws op d err = Some ?ws" using assms(3) by (simp add: Record_def)
  ultimately show ?thesis using assms(2) by (intro exI [of _ ?ws] exI [of _ ?s]) (simp add: update_conv)
qed

theorem Record_invariant_witness:
  "\<exists>ws' s'. Record (newWorkerStats [''insert'']) ''insert'' (1 / 4) None = Some ws' \<and>
     map_of (data ws') ''insert'' = Some s' \<and> count s' = 1 \<and> samples s' = 1"
  using Record_invariant [of "newWorkerStats [''insert'']" "''insert''" opStats_zero "1 / 4" None]
  by (simp add: newWorkerStats_def samples_def) (auto simp: opStats_zero_def)

text \<open>
  C38: The recorded latency is the duration in whole microseconds, except that a duration
  of an exact number of microseconds may be recorded one microsecond short: the product
  with \<open>1e6\<close> is rounded before it is truncated. 249 microseconds are recorded as 248.
\<close>

theorem to_micros_accuracy:
  assumes "0 \<le> d" and "d < 2 ^ 50"
  shows "(to_micros (seconds d) = d div 1000 \<or>
          (1000 dvd d \<and> to_micros (seconds d) = d div 1000 - 1)) \<and>
         to_micros (seconds 249000) = 248"
proof -
  have "to_micros (seconds 249000) = 248" by code_simp
  then show ?thesis
    using micros_trunc [OF assms] assms(1) by (auto simp: to_micros_def Let_def pos_imp_zdiv_nonneg_iff)
qed

theorem to_micros_accuracy_witness: "to_micros (seconds 1500) = 1"
  using to_micros_accuracy [of 1500] by simp

text \<open>
  \<open>commaf\<close> only inserts commas: removing them from its output for a non-negative
  number gives back the decimal digits, which parse to the number.
\<close>

theorem commaf_strip:
  assumes "0 \<le> n" and "n < 2 ^ 63"
  shows "filter (\<lambda>c. c \<noteq> CHR '','') (commaf n) = itoa n \<and>
         atoi (filter (\<lambda>c. c \<noteq> CHR '','') (commaf n)) = Some n"
proof -
  let ?s = "itoa n" and ?P = "\<lambda>c. c \<noteq> CHR '',''"
  have nc: "CHR '','' \<notin> set ?s" using assms(1) by (rule itoa_no_comma)
  then have f: "filter ?P xs = xs" if "set xs \<subseteq> set ?s" for xs
    using that by (auto intro!: filter_True)
  have "filter ?P (commaf n) = ?s"
  proof (cases "length ?s \<le> 3")
    case True
    then show ?thesis using f by (simp add: commaf_def)
  next
    case False
    let ?r = "length ?s mod 3"
    have d: "CHR '','' \<notin> set (drop ?r ?s)" using nc set_drop_subset by fastforce
    have "filter ?P (take ?r ?s) = take ?r ?s" using set_take_subset by (intro f)
    then show ?thesis
      using False comma_groups_strip [OF d, of ?r "if 0 < ?r then take ?r ?s else []"]
      by (auto simp: commaf_def Let_def)
  qed
  moreover have "in_i64 n" using assms by (simp add: in_i64_def)
  ultimately show ?thesis by (simp add: atoi_itoa)
qed

theorem commaf_strip_witness:
  "commaf 1234567 = ''1,234,567'' \<and> atoi (filter (\<lambda>c. c \<noteq> CHR '','') (commaf 1234567)) = Some 1234567"
proof -
  have "itoa 1234567 = ''1234567''"
    by (simp add: itoa_def nat_digits.simps digit_char_def char_of_def bit_Suc_0_iff)
  then have "commaf 1234567 = ''1,234,567''" by (simp add: commaf_def)
  then show ?thesis using commaf_strip [of 1234567, THEN conjunct2] by simp
qed

end
