(* ===== verification/Collector.thy ===== *)
theory Collector
  imports Stats
begin

text \<open>
  The statistics collector: \<open>StatsCollector\<close> of \<open>workload/stats.go\<close> and the interval
  structs of \<open>workload/result.go\<close>.

  \<open>drain\<close> is split at the points where other goroutines can run: \<open>drain_init\<close> (the
  collector's mutex is taken), one \<open>drain_worker\<close> per worker (each worker's window is
  lifted under that worker's own mutex, while the others keep recording), and
  \<open>drain_finish\<close> (totals and series are updated, the mutex is released). \<open>drain\<close> itself is
  their sequential composition. Instants are nanoseconds on the monotonic clock.
\<close>

section \<open>Definitions\<close>

record IntervalOp =
  iOp :: string
  iCount :: int
  iErrors :: int
  iOpsPerSec :: float64
  iP50MS :: float64
  iP95MS :: float64
  iP99MS :: float64

record IntervalStats =
  StartSeconds :: float64
  EndSeconds :: float64
  Ops :: int
  Errors :: int
  OpsPerSec :: float64
  Operations :: "IntervalOp list"

record StatsCollector =
  workers :: "WorkerStats list"
  start :: int
  ops :: "string list"
  totals :: "(string, opStats) gomap"
  intervals :: "IntervalStats list"
  lastBoundary :: int

text \<open>\<open>Time.Sub\<close> saturates at the range of \<open>Duration\<close>.\<close>

definition time_Sub :: "int \<Rightarrow> int \<Rightarrow> int" where
  "time_Sub t u = max (- (2 ^ 63)) (min (2 ^ 63 - 1) (t - u))"

text \<open>\<open>make(map)\<close> followed by \<open>m[op] = &opStats{}\<close> for every operation.\<close>

definition fresh_stats :: "string list \<Rightarrow> (string, opStats) gomap" where
  "fresh_stats names = foldl (\<lambda>m op. AList.update op opStats_zero m) [] names"

definition NewStatsCollector :: "int \<Rightarrow> string list \<Rightarrow> StatsCollector" where
  "NewStatsCollector now names =
     \<lparr>workers = [], start = now, ops = names, totals = fresh_stats names, intervals = [],
      lastBoundary = now\<rparr>"

definition NewWorkerStats :: "StatsCollector \<Rightarrow> StatsCollector" where
  "NewWorkerStats c = c\<lparr>workers := workers c @ [newWorkerStats (ops c)]\<rparr>"

text \<open>\<open>if m, ok := dst[op]; ok { mergeInto(m, s) }\<close>.\<close>

definition merge_entry :: "(string, opStats) gomap \<Rightarrow> string \<times> opStats \<Rightarrow> (string, opStats) gomap" where
  "merge_entry dst e =
     (case map_of dst (fst e) of
        None \<Rightarrow> dst
      | Some m \<Rightarrow> AList.update (fst e) (mergeInto m (snd e)) dst)"

definition merge_all :: "(string, opStats) gomap \<Rightarrow> (string, opStats) gomap \<Rightarrow> (string, opStats) gomap" where
  "merge_all dst src = foldl merge_entry dst src"

subsection \<open>The interval series\<close>

definition minIntervalSeconds :: float64 where "minIntervalSeconds = 1"

definition rate :: "float64 \<Rightarrow> int \<Rightarrow> float64" where
  "rate spn n = (if spn \<le> 0 then 0 else fdiv (f64_of_int n) spn)"

text \<open>The percentile fields of a new \<open>IntervalOp\<close>.\<close>

definition interval_op :: "string \<Rightarrow> opStats \<Rightarrow> IntervalOp option" where
  "interval_op op s = do {
     p50 \<leftarrow> percentile s q50;
     p95 \<leftarrow> percentile s q95;
     p99 \<leftarrow> percentile s q99;
     Some \<lparr>iOp = op, iCount = 0, iErrors = 0, iOpsPerSec = 0, iP50MS = p50, iP95MS = p95, iP99MS = p99\<rparr>
   }"

text \<open>One pass of the loop that rebuilds the operations of a folded interval; the inner
  \<open>None\<close> is \<open>continue\<close>.\<close>

definition rebuild_entry ::
  "(string, IntervalOp) gomap \<Rightarrow> (string, opStats) gomap \<Rightarrow> float64 \<Rightarrow> string \<Rightarrow> IntervalOp option option" where
  "rebuild_entry existing merged prevSpan op =
     (let had = map_of existing op;
          active = (case map_of merged op of None \<Rightarrow> None | Some s \<Rightarrow> if count s > 0 then Some s else None)
      in if had = None \<and> active = None then Some None
         else do {
           io \<leftarrow> (case had of
                   Some io \<Rightarrow> Some io
                 | None \<Rightarrow> (case active of None \<Rightarrow> None | Some s \<Rightarrow> interval_op op s));
           let io = (case active of
                       None \<Rightarrow> io
                     | Some s \<Rightarrow> io\<lparr>iCount := iCount io + count s, iErrors := iErrors io + errors s\<rparr>);
           let io = (if prevSpan > 0 then io\<lparr>iOpsPerSec := fdiv (f64_of_int (iCount io)) prevSpan\<rparr> else io);
           Some (Some io)
         })"

text \<open>One pass of the loop that builds the operations of a new interval.\<close>

definition fresh_entry :: "(string, opStats) gomap \<Rightarrow> float64 \<Rightarrow> string \<Rightarrow> IntervalOp option option" where
  "fresh_entry merged spn op =
     (case map_of merged op of
        None \<Rightarrow> Some None
      | Some s \<Rightarrow>
          if count s = 0 then Some None
          else do {
            io \<leftarrow> interval_op op s;
            Some (Some (io\<lparr>iCount := count s, iErrors := errors s, iOpsPerSec := rate spn (count s)\<rparr>))
          })"

fun collect :: "('a \<Rightarrow> 'b option option) \<Rightarrow> 'a list \<Rightarrow> 'b list option" where
  "collect f [] = Some []"
| "collect f (x # xs) = do {
     r \<leftarrow> f x;
     rs \<leftarrow> collect f xs;
     Some (case r of None \<Rightarrow> rs | Some y \<Rightarrow> y # rs)
   }"

definition recordIntervalLocked ::
  "StatsCollector \<Rightarrow> int \<Rightarrow> (string, opStats) gomap \<Rightarrow> StatsCollector option" where
  "recordIntervalLocked c now merged =
     (let n_ops = foldl (\<lambda>a (op, s). a + count s) 0 merged;
          n_errs = foldl (\<lambda>a (op, s). a + errors s) 0 merged
      in if n_ops = 0 then Some c
         else
           let startSecs = seconds (time_Sub (lastBoundary c) (start c));
               endSecs = seconds (time_Sub now (start c));
               spn = fsub endSecs startSecs
           in if spn < minIntervalSeconds \<and> length (intervals c) > 0 then
                do {
                  let prev = last (intervals c);
                  let prev = prev\<lparr>Ops := Ops prev + n_ops, Errors := Errors prev + n_errs,
                                  EndSeconds := endSecs\<rparr>;
                  let prevSpan = fsub (EndSeconds prev) (StartSeconds prev);
                  let existing = foldl (\<lambda>m io. AList.update (iOp io) io m) [] (Operations prev);
                  rebuilt \<leftarrow> collect (rebuild_entry existing merged prevSpan) (ops c);
                  let prev = prev\<lparr>Operations := rebuilt\<rparr>;
                  let prev = (if prevSpan > 0
                              then prev\<lparr>OpsPerSec := fdiv (f64_of_int (Ops prev)) prevSpan\<rparr> else prev);
                  Some (c\<lparr>intervals := butlast (intervals c) @ [prev], lastBoundary := now\<rparr>)
                }
              else
                do {
                  operations \<leftarrow> collect (fresh_entry merged spn) (ops c);
                  Some (c\<lparr>intervals := intervals c @
                            [\<lparr>StartSeconds = startSecs, EndSeconds = endSecs, Ops = n_ops,
                              Errors = n_errs, OpsPerSec = rate spn n_ops, Operations = operations\<rparr>],
                          lastBoundary := now\<rparr>)
                })"

subsection \<open>Draining\<close>

definition drain_init :: "StatsCollector \<Rightarrow> (string, opStats) gomap" where
  "drain_init c = fresh_stats (ops c)"

definition drain_worker ::
  "StatsCollector \<Rightarrow> nat \<Rightarrow> (string, opStats) gomap \<Rightarrow> StatsCollector \<times> (string, opStats) gomap" where
  "drain_worker c i merged =
     (let (snap, ws) = snapshot (workers c ! i)
      in (c\<lparr>workers := (workers c)[i := ws]\<rparr>, merge_all merged snap))"

definition drain_finish ::
  "StatsCollector \<Rightarrow> int \<Rightarrow> (string, opStats) gomap \<Rightarrow> StatsCollector option" where
  "drain_finish c now merged =
     recordIntervalLocked (c\<lparr>totals := merge_all (totals c) merged\<rparr>) now merged"

fun drain_workers ::
  "nat list \<Rightarrow> StatsCollector \<Rightarrow> (string, opStats) gomap \<Rightarrow> StatsCollector \<times> (string, opStats) gomap" where
  "drain_workers [] c merged = (c, merged)"
| "drain_workers (i # js) c merged = (case drain_worker c i merged of (c', m') \<Rightarrow> drain_workers js c' m')"

definition drain ::
  "StatsCollector \<Rightarrow> int \<Rightarrow> (StatsCollector \<times> (string, opStats) gomap) option" where
  "drain c now =
     (case drain_workers [0..<length (workers c)] c (drain_init c) of
        (c', merged) \<Rightarrow> map_option (\<lambda>c''. (c'', merged)) (drain_finish c' now merged))"

text \<open>\<open>Finalize\<close>: the totals, the series, the start and the second reading of the clock,
  after a last drain.\<close>

definition Finalize ::
  "StatsCollector \<Rightarrow> int \<Rightarrow> int \<Rightarrow>
   (((string, opStats) gomap \<times> IntervalStats list \<times> int \<times> int) \<times> StatsCollector) option" where
  "Finalize c now ended = do {
     (c', merged) \<leftarrow> drain c now;
     Some ((totals c', intervals c', start c', ended), c')
   }"

section \<open>Lemmas\<close>

subsection \<open>Tables of statistics\<close>

text \<open>The entry of an operation, and a table with exactly the given operations, each of them
  satisfying the invariant.\<close>

definition stat_at :: "(string, opStats) gomap \<Rightarrow> string \<Rightarrow> opStats" where
  "stat_at m op = (case map_of m op of None \<Rightarrow> opStats_zero | Some s \<Rightarrow> s)"

definition table_ok :: "string list \<Rightarrow> (string, opStats) gomap \<Rightarrow> bool" where
  "table_ok names m \<longleftrightarrow> keys_ok m \<and> fst ` set m = set names \<and> (\<forall>(op, s) \<in> set m. stats_ok s)"

lemma table_ok_Some:
  assumes "table_ok names m" "op \<in> set names"
  shows "map_of m op = Some (stat_at m op)" "stats_ok (stat_at m op)"
proof -
  have "map_of m op \<noteq> None" using assms by (simp add: table_ok_def map_of_eq_None_iff)
  then show "map_of m op = Some (stat_at m op)" by (auto simp: stat_at_def)
  then show "stats_ok (stat_at m op)" using assms(1) by (auto simp: table_ok_def dest: map_of_SomeD)
qed

lemma table_ok_None: "table_ok names m \<Longrightarrow> op \<notin> set names \<Longrightarrow> map_of m op = None"
  by (simp add: table_ok_def map_of_eq_None_iff)

lemma table_ok_update:
  assumes "table_ok names m" "op \<in> set names" "stats_ok s"
  shows "table_ok names (AList.update op s m)"
  using assms set_update_subset [of op s m] by (auto simp: table_ok_def dom_update)

lemma stat_at_update [simp]: "stat_at (AList.update k s m) op = (if op = k then s else stat_at m op)"
  by (simp add: stat_at_def update_conv)

lemma fresh_stats_ok: "table_ok names (fresh_stats names)" "stat_at (fresh_stats names) op = opStats_zero"
    "\<forall>(op, s) \<in> set (fresh_stats names). s = opStats_zero"
proof -
  have "keys_ok (foldl (\<lambda>m op. AList.update op opStats_zero m) m xs) \<and>
        fst ` set (foldl (\<lambda>m op. AList.update op opStats_zero m) m xs) = fst ` set m \<union> set xs \<and>
        (\<forall>(op, s) \<in> set (foldl (\<lambda>m op. AList.update op opStats_zero m) m xs). s = opStats_zero)"
    if "keys_ok m" "\<forall>(op, s) \<in> set m. s = opStats_zero" for m and xs :: "string list"
    using that
  proof (induction xs arbitrary: m)
    case (Cons x xs)
    have "\<forall>(op, s) \<in> set (AList.update x opStats_zero m). s = opStats_zero"
      using Cons.prems(2) set_update_subset [of x opStats_zero m] by auto
    then show ?case using Cons.IH [of "AList.update x opStats_zero m"] Cons.prems by (auto simp: dom_update)
  qed simp
  from this [of "[]" names] have a: "keys_ok (fresh_stats names)" "fst ` set (fresh_stats names) = set names"
    "\<forall>(op, s) \<in> set (fresh_stats names). s = opStats_zero" by (simp_all add: fresh_stats_def)
  then show "table_ok names (fresh_stats names)" by (auto simp: table_ok_def)
  show "\<forall>(op, s) \<in> set (fresh_stats names). s = opStats_zero" by (rule a(3))
  show "stat_at (fresh_stats names) op = opStats_zero"
    using a(3) by (auto simp: stat_at_def dest: map_of_SomeD split: option.split)
qed

lemma newWorkerStats_fresh: "data (newWorkerStats names) = fresh_stats names"
  by (simp add: newWorkerStats_def fresh_stats_def)

lemma merge_entry_ok:
  assumes "table_ok names dst" "stats_ok s"
  shows "table_ok names (merge_entry dst (op, s))"
    and "op \<in> set names \<Longrightarrow>
         stat_at (merge_entry dst (op, s)) op' = (if op' = op then mergeInto (stat_at dst op) s else stat_at dst op')"
proof -
  show "table_ok names (merge_entry dst (op, s))"
  proof (cases "op \<in> set names")
    case True
    then show ?thesis
      using assms table_ok_Some [OF assms(1) True]
      by (simp add: merge_entry_def table_ok_update stats_ok_mergeInto)
  next
    case False
    then show ?thesis using assms table_ok_None by (simp add: merge_entry_def)
  qed
  assume "op \<in> set names"
  then show "stat_at (merge_entry dst (op, s)) op' =
      (if op' = op then mergeInto (stat_at dst op) s else stat_at dst op')"
    using table_ok_Some(1) [OF assms(1)] by (simp add: merge_entry_def)
qed

lemma merge_all_ok:
  assumes "table_ok names dst" "keys_ok src" "\<forall>(op, s) \<in> set src. stats_ok s" "fst ` set src \<subseteq> set names"
  shows "table_ok names (merge_all dst src) \<and>
         (\<forall>op. stat_at (merge_all dst src) op =
            (case map_of src op of None \<Rightarrow> stat_at dst op | Some s \<Rightarrow> mergeInto (stat_at dst op) s))"
  using assms
proof (induction src arbitrary: dst)
  case Nil
  then show ?case by (simp add: merge_all_def)
next
  case (Cons e src)
  obtain op s where e: "e = (op, s)" by fastforce
  let ?d = "merge_entry dst (op, s)"
  have s: "stats_ok s" "op \<in> set names" "op \<notin> fst ` set src" using Cons.prems e by auto
  have IH: "table_ok names (merge_all ?d src) \<and>
      (\<forall>o'. stat_at (merge_all ?d src) o' =
         (case map_of src o' of None \<Rightarrow> stat_at ?d o' | Some s \<Rightarrow> mergeInto (stat_at ?d o') s))"
    using Cons.prems e s merge_entry_ok(1) by (intro Cons.IH) auto
  have n: "map_of src op = None" using s(3) by (simp add: map_of_eq_None_iff)
  show ?case
    using IH merge_entry_ok(2) [OF Cons.prems(1) s(1,2)] n
    by (auto simp: merge_all_def e split: option.splits)
qed

lemma merge_tables:
  assumes "table_ok names dst" "table_ok names src"
  shows "table_ok names (merge_all dst src)"
    and "op \<in> set names \<Longrightarrow> stat_at (merge_all dst src) op = mergeInto (stat_at dst op) (stat_at src op)"
  using merge_all_ok [of names dst src] assms table_ok_Some(1) [OF assms(2)]
  by (auto simp: table_ok_def)

lemma table_ok_reset:
  assumes "table_ok names m"
  shows "table_ok names (map (\<lambda>(op, s). (op, opStats_zero)) m)"
proof -
  have "map fst (map (\<lambda>(op, s). (op, opStats_zero)) m) = map fst m" by auto
  moreover from this have "fst ` set (map (\<lambda>(op, s). (op, opStats_zero)) m) = fst ` set m"
    by (metis list.set_map)
  ultimately show ?thesis using assms by (auto simp: table_ok_def keys_ok_def simp del: map_map)
qed

lemma snapshot_ok:
  assumes "table_ok names (data ws)"
  shows "fst (snapshot ws) = data ws" "table_ok names (data (snd (snapshot ws)))"
    "stat_at (data (snd (snapshot ws))) op = opStats_zero"
  using table_ok_reset [OF assms]
  by (auto simp: snapshot_def stat_at_def dest!: map_of_SomeD split: option.split)

lemma Record_ok:
  assumes "table_ok names (data ws)" "op \<in> set names"
  shows "Record ws op d err =
           Some (ws\<lparr>data := AList.update op (record_op (stat_at (data ws) op) d err) (data ws)\<rparr>)"
    and "table_ok names (AList.update op (record_op (stat_at (data ws) op) d err) (data ws))"
  using table_ok_Some [OF assms] assms
  by (simp_all add: Record_def table_ok_update stats_ok_record_op)

subsection \<open>Totality\<close>

lemma interval_op_total:
  "\<exists>io. interval_op op s = Some io \<and> iOp io = op \<and> iCount io = 0 \<and> iErrors io = 0"
proof -
  obtain a b c where "percentile s q50 = Some a" "percentile s q95 = Some b" "percentile s q99 = Some c"
    using percentile_total [of s q50] percentile_total [of s q95] percentile_total [of s q99] by blast
  then show ?thesis by (simp add: interval_op_def)
qed

lemma collect_Some:
  "(\<And>x. x \<in> set xs \<Longrightarrow> f x = Some (g x)) \<Longrightarrow> collect f xs = Some (List.map_filter g xs)"
  by (induction xs) (auto simp: map_filter_simps split: option.split)


subsection \<open>Intervals\<close>

text \<open>What every entry of the series satisfies: its operations follow the profile's order,
  each was active, and they add up to the entry's own counts.\<close>

definition interval_ok :: "string list \<Rightarrow> IntervalStats \<Rightarrow> bool" where
  "interval_ok names iv \<longleftrightarrow>
     (\<exists>P. map iOp (Operations iv) = filter P names) \<and>
     (\<forall>io \<in> set (Operations iv). 0 < iCount io) \<and>
     sum_list (map iCount (Operations iv)) = Ops iv \<and>
     sum_list (map iErrors (Operations iv)) = Errors iv"

definition window_sum :: "(opStats \<Rightarrow> int) \<Rightarrow> string list \<Rightarrow> (string, opStats) gomap \<Rightarrow> int" where
  "window_sum f names m = sum_list (map (\<lambda>op. f (stat_at m op)) names)"

lemma stats_ok_bounds: "stats_ok s \<Longrightarrow> 0 \<le> errors s \<and> errors s \<le> count s"
  using samples_0_iff [of s] samples_pos [of s] by (fastforce simp: stats_ok_def)

lemma foldl_window:
  assumes "table_ok names m" "distinct names"
  shows "foldl (\<lambda>a (op, s). a + f s) 0 m = window_sum f names m"
proof -
  have "foldl (\<lambda>a (op, s). a + f s) a xs = a + sum_list (map (\<lambda>(op, s). f s) xs)"
    for a and xs :: "(string, opStats) gomap" by (induction xs arbitrary: a) auto
  moreover have "sum_list (map (\<lambda>(op, s). f s) m) =
      sum_list (map (\<lambda>op. case map_of m op of None \<Rightarrow> 0 | Some s \<Rightarrow> f s) names)"
    using assms by (intro sum_list_map_of) (auto simp: table_ok_def)
  moreover have "map (\<lambda>op. case map_of m op of None \<Rightarrow> 0 | Some s \<Rightarrow> f s) names =
      map (\<lambda>op. f (stat_at m op)) names"
    using table_ok_Some(1) [OF assms(1)] by simp
  ultimately show ?thesis by (simp add: window_sum_def)
qed

lemma window_sum_nonneg: "table_ok names m \<Longrightarrow> 0 \<le> window_sum count names m"
  unfolding window_sum_def using table_ok_Some(2) stats_ok_bounds
  by (intro sum_list_nonneg) fastforce

lemma window_empty:
  assumes "table_ok names m" "window_sum count names m = 0" "op \<in> set names"
  shows "count (stat_at m op) = 0" "errors (stat_at m op) = 0"
proof -
  have pos: "0 \<le> count (stat_at m o')" if "o' \<in> set names" for o'
    using that table_ok_Some(2) [OF assms(1)] stats_ok_bounds by fastforce
  show "count (stat_at m op) = 0"
    using assms(2,3) pos sum_list_nonneg_eq_0_iff [of "map (\<lambda>op. count (stat_at m op)) names"]
    by (auto simp: window_sum_def)
  then show "errors (stat_at m op) = 0"
    using table_ok_Some(2) [OF assms(1,3)] stats_ok_bounds by fastforce
qed

lemma window_sum_errors_0:
  assumes "table_ok names m" "window_sum count names m = 0"
  shows "window_sum errors names m = 0"
  using window_empty(2) [OF assms] by (simp add: window_sum_def cong: map_cong)

text \<open>The lists both loops build: the entries of the selected operations, in order.\<close>

lemma map_filter_interval:
  assumes "\<And>op. op \<in> set names \<Longrightarrow>
    (case g op of None \<Rightarrow> c op = 0 \<and> e op = 0
     | Some io \<Rightarrow> iOp io = op \<and> iCount io = c op \<and> iErrors io = e op \<and> 0 < c op)"
  shows "map iOp (List.map_filter g names) = filter (\<lambda>op. g op \<noteq> None) names \<and>
         (\<forall>io \<in> set (List.map_filter g names). 0 < iCount io) \<and>
         sum_list (map iCount (List.map_filter g names)) = sum_list (map c names) \<and>
         sum_list (map iErrors (List.map_filter g names)) = sum_list (map e names)"
  using assms
proof (induction names)
  case (Cons op names)
  have IH: "map iOp (List.map_filter g names) = filter (\<lambda>op. g op \<noteq> None) names \<and>
         (\<forall>io \<in> set (List.map_filter g names). 0 < iCount io) \<and>
         sum_list (map iCount (List.map_filter g names)) = sum_list (map c names) \<and>
         sum_list (map iErrors (List.map_filter g names)) = sum_list (map e names)"
    using Cons.prems by (intro Cons.IH) simp
  have "case g op of None \<Rightarrow> c op = 0 \<and> e op = 0
     | Some io \<Rightarrow> iOp io = op \<and> iCount io = c op \<and> iErrors io = e op \<and> 0 < c op"
    using Cons.prems [of op] by simp
  with IH show ?case by (cases "g op") (simp_all add: map_filter_simps)
qed (simp add: map_filter_simps)

lemma fresh_entry_eq:
  assumes "table_ok names m" "op \<in> set names"
  shows "\<exists>r. fresh_entry m spn op = Some r \<and>
    (case r of None \<Rightarrow> count (stat_at m op) = 0 \<and> errors (stat_at m op) = 0
     | Some io \<Rightarrow> iOp io = op \<and> iCount io = count (stat_at m op) \<and>
                  iErrors io = errors (stat_at m op) \<and> 0 < count (stat_at m op))"
proof -
  obtain io where "interval_op op (stat_at m op) = Some io" "iOp io = op"
    using interval_op_total by blast
  then show ?thesis
    using table_ok_Some [OF assms] stats_ok_bounds [of "stat_at m op"]
    by (auto simp: fresh_entry_def)
qed

lemma fresh_interval:
  assumes "table_ok names m"
  shows "\<exists>L. collect (fresh_entry m spn) names = Some L \<and> (\<exists>P. map iOp L = filter P names) \<and>
             (\<forall>io \<in> set L. 0 < iCount io) \<and> sum_list (map iCount L) = window_sum count names m \<and>
             sum_list (map iErrors L) = window_sum errors names m"
proof -
  let ?g = "\<lambda>op. the (fresh_entry m spn op)"
  have "collect (fresh_entry m spn) names = Some (List.map_filter ?g names)"
    using fresh_entry_eq [OF assms, of _ spn] by (intro collect_Some) fastforce
  moreover have "case ?g op of None \<Rightarrow> count (stat_at m op) = 0 \<and> errors (stat_at m op) = 0
     | Some io \<Rightarrow> iOp io = op \<and> iCount io = count (stat_at m op) \<and>
                  iErrors io = errors (stat_at m op) \<and> 0 < count (stat_at m op)"
    if "op \<in> set names" for op using fresh_entry_eq [OF assms that, of spn] by auto
  from map_filter_interval [OF this] show ?thesis
    using calculation by (auto simp: window_sum_def)
qed

text \<open>Folding a sliver into the previous entry.\<close>

definition op_entries :: "IntervalOp list \<Rightarrow> (string, IntervalOp) gomap" where
  "op_entries L = foldl (\<lambda>m io. AList.update (iOp io) io m) [] L"

lemma update_fresh: "k \<notin> fst ` set m \<Longrightarrow> AList.update k v m = m @ [(k, v)]"
  by (induction m) auto

lemma op_entries_distinct: "distinct (map iOp L) \<Longrightarrow> op_entries L = map (\<lambda>io. (iOp io, io)) L"
proof (induction L rule: rev_induct)
  case (snoc io L)
  have "op_entries (L @ [io]) = AList.update (iOp io) io (op_entries L)" by (simp add: op_entries_def)
  then show ?case using snoc by (simp add: update_fresh image_image)
qed (simp add: op_entries_def)

definition entry_of :: "(IntervalOp \<Rightarrow> int) \<Rightarrow> IntervalOp list \<Rightarrow> string \<Rightarrow> int" where
  "entry_of f L op = (case map_of (op_entries L) op of None \<Rightarrow> 0 | Some io \<Rightarrow> f io)"

lemma sum_entry_of:
  assumes "map iOp L = filter P names" "distinct names"
  shows "sum_list (map (entry_of f L) names) = sum_list (map f L)"
proof -
  have d: "distinct (map iOp L)" using assms by simp
  have "set (map iOp L) \<subseteq> set names" unfolding assms(1) by simp
  then have "sum_list (map (\<lambda>(k, v). f v) (op_entries L)) = sum_list (map (entry_of f L) names)"
    using assms(2) d unfolding entry_of_def
    by (intro sum_list_map_of) (auto simp: op_entries_distinct keys_ok_def comp_def)
  moreover have "map (\<lambda>(k, v). f v) (op_entries L) = map f L" by (simp add: op_entries_distinct [OF d])
  ultimately show ?thesis by simp
qed

lemma rebuild_entry_eq:
  assumes "table_ok names m" "op \<in> set names" "\<forall>io \<in> set L. 0 < iCount io" "distinct (map iOp L)"
  shows "\<exists>r. rebuild_entry (op_entries L) m spn op = Some r \<and>
    (case r of
       None \<Rightarrow> entry_of iCount L op + count (stat_at m op) = 0 \<and> entry_of iErrors L op + errors (stat_at m op) = 0
     | Some io \<Rightarrow> iOp io = op \<and> iCount io = entry_of iCount L op + count (stat_at m op) \<and>
                  iErrors io = entry_of iErrors L op + errors (stat_at m op) \<and>
                  0 < entry_of iCount L op + count (stat_at m op))"
proof -
  note s = table_ok_Some [OF assms(1,2)]
  obtain io where io: "interval_op op (stat_at m op) = Some io" "iOp io = op" "iCount io = 0" "iErrors io = 0"
    using interval_op_total by blast
  have b: "0 \<le> errors (stat_at m op)" "errors (stat_at m op) \<le> count (stat_at m op)"
    using stats_ok_bounds [OF s(2)] by auto
  show ?thesis
  proof (cases "map_of (op_entries L) op")
    case None
    then show ?thesis using s(1) io b by (auto simp: rebuild_entry_def Let_def entry_of_def)
  next
    case (Some had)
    then have "iOp had = op" "had \<in> set L"
      using op_entries_distinct [OF assms(4)] by (auto dest: map_of_SomeD)
    then show ?thesis
      using Some s(1) b assms(3) by (auto simp: rebuild_entry_def Let_def entry_of_def)
  qed
qed

lemma rebuilt_interval:
  assumes "table_ok names m" "distinct names" "interval_ok names iv"
  shows "\<exists>L. collect (rebuild_entry (op_entries (Operations iv)) m spn) names = Some L \<and>
             (\<exists>P. map iOp L = filter P names) \<and> (\<forall>io \<in> set L. 0 < iCount io) \<and>
             sum_list (map iCount L) = Ops iv + window_sum count names m \<and>
             sum_list (map iErrors L) = Errors iv + window_sum errors names m"
proof -
  let ?O = "Operations iv"
  let ?g = "\<lambda>op. the (rebuild_entry (op_entries ?O) m spn op)"
  obtain P where P: "map iOp ?O = filter P names" using assms(3) by (auto simp: interval_ok_def)
  have d: "distinct (map iOp ?O)" using P assms(2) by simp
  have pos: "\<forall>io \<in> set ?O. 0 < iCount io" using assms(3) by (simp add: interval_ok_def)
  note eq = rebuild_entry_eq [OF assms(1) _ pos d, of _ spn]
  have c: "collect (rebuild_entry (op_entries ?O) m spn) names = Some (List.map_filter ?g names)"
    using eq by (intro collect_Some) fastforce
  have "case ?g op of
       None \<Rightarrow> entry_of iCount ?O op + count (stat_at m op) = 0 \<and> entry_of iErrors ?O op + errors (stat_at m op) = 0
     | Some io \<Rightarrow> iOp io = op \<and> iCount io = entry_of iCount ?O op + count (stat_at m op) \<and>
                  iErrors io = entry_of iErrors ?O op + errors (stat_at m op) \<and>
                  0 < entry_of iCount ?O op + count (stat_at m op)"
    if "op \<in> set names" for op using eq [OF that] by auto
  note L = map_filter_interval [where g = ?g and names = names, OF this]
  have "sum_list (map (\<lambda>op. entry_of f ?O op + k op) names) = sum_list (map f ?O) + sum_list (map k names)"
    for f k using sum_entry_of [OF P assms(2), of f] by (simp add: sum_list_addf)
  then show ?thesis using c L assms(3) by (auto simp: window_sum_def interval_ok_def)
qed

subsection \<open>The series\<close>

definition contiguous :: "StatsCollector \<Rightarrow> bool" where
  "contiguous c \<longleftrightarrow>
     (let ivs = intervals c in
      (ivs = [] \<longrightarrow> lastBoundary c = start c) \<and>
      (ivs \<noteq> [] \<longrightarrow> StartSeconds (hd ivs) = 0 \<and>
                 EndSeconds (last ivs) = seconds (time_Sub (lastBoundary c) (start c))) \<and>
      (\<forall>i. Suc i < length ivs \<longrightarrow> EndSeconds (ivs ! i) = StartSeconds (ivs ! Suc i)))"

definition series_ok :: "StatsCollector \<Rightarrow> bool" where
  "series_ok c \<longleftrightarrow> contiguous c \<and> (\<forall>iv \<in> set (intervals c). interval_ok (ops c) iv \<and> 0 < Ops iv)"

lemma seconds_0 [simp]: "seconds (time_Sub t t) = 0"
  by (simp add: time_Sub_def seconds_def quot_def fadd_def fdiv_def)

lemma contiguous_snoc:
  assumes "contiguous c" "StartSeconds iv = seconds (time_Sub (lastBoundary c) (start c))"
    "EndSeconds iv = seconds (time_Sub now (start c))"
  shows "contiguous (c\<lparr>intervals := intervals c @ [iv], lastBoundary := now\<rparr>)"
  using assms unfolding contiguous_def Let_def
  by (cases "intervals c" rule: rev_cases)
     (auto simp: nth_append hd_append less_Suc_eq split: if_splits)

lemma contiguous_fold:
  assumes "contiguous c" "intervals c \<noteq> []" "StartSeconds iv = StartSeconds (last (intervals c))"
    "EndSeconds iv = seconds (time_Sub now (start c))"
  shows "contiguous (c\<lparr>intervals := butlast (intervals c) @ [iv], lastBoundary := now\<rparr>)"
proof -
  obtain b l where bl: "intervals c = b @ [l]" using assms(2) by (metis append_butlast_last_id)
  have c: "\<forall>i. Suc i < length (b @ [l]) \<longrightarrow> EndSeconds ((b @ [l]) ! i) = StartSeconds ((b @ [l]) ! Suc i)"
      "StartSeconds (hd (b @ [l])) = 0"
    using assms(1) unfolding contiguous_def Let_def bl by simp_all
  have "EndSeconds ((b @ [iv]) ! i) = StartSeconds ((b @ [iv]) ! Suc i)" if "Suc i < length (b @ [iv])" for i
  proof -
    have "Suc i < length b \<or> Suc i = length b" using that by auto
    then show ?thesis using c(1) [rule_format, of i] that assms(3) by (auto simp: nth_append bl)
  qed
  moreover have "StartSeconds (hd (b @ [iv])) = 0" using c(2) assms(3) by (cases b) (simp_all add: bl)
  ultimately show ?thesis using assms(4) by (simp add: contiguous_def bl)
qed

lemma sum_butlast: "xs \<noteq> [] \<Longrightarrow> sum_list (map f (butlast xs)) = sum_list (map f xs) - (f (last xs) :: int)"
  by (cases xs rule: rev_cases) simp_all

lemma series_snoc:
  assumes "series_ok c" "interval_ok (ops c) iv" "0 < Ops iv"
    "StartSeconds iv = seconds (time_Sub (lastBoundary c) (start c))"
    "EndSeconds iv = seconds (time_Sub now (start c))"
  shows "series_ok (c\<lparr>intervals := intervals c @ [iv], lastBoundary := now\<rparr>)"
  using assms contiguous_snoc [of c iv now] by (auto simp: series_ok_def)

lemma series_fold:
  assumes "series_ok c" "intervals c \<noteq> []" "interval_ok (ops c) iv" "0 < Ops iv"
    "StartSeconds iv = StartSeconds (last (intervals c))" "EndSeconds iv = seconds (time_Sub now (start c))"
  shows "series_ok (c\<lparr>intervals := butlast (intervals c) @ [iv], lastBoundary := now\<rparr>)"
  using assms contiguous_fold [of c iv now] by (auto simp: series_ok_def dest: in_set_butlastD)

text \<open>The effect of \<open>recordIntervalLocked\<close>, on every branch.\<close>

definition series_step ::
  "StatsCollector \<Rightarrow> (string, opStats) gomap \<Rightarrow> StatsCollector \<Rightarrow> bool" where
  "series_step c m c' \<longleftrightarrow>
     workers c' = workers c \<and> start c' = start c \<and> ops c' = ops c \<and> totals c' = totals c \<and>
     series_ok c' \<and>
     sum_list (map Ops (intervals c')) = sum_list (map Ops (intervals c)) + window_sum count (ops c) m \<and>
     sum_list (map Errors (intervals c')) = sum_list (map Errors (intervals c)) + window_sum errors (ops c) m"

lemma recordIntervalLocked_spec:
  assumes "table_ok (ops c) m" "distinct (ops c)" "series_ok c"
  shows "\<exists>c'. recordIntervalLocked c now m = Some c' \<and> series_step c m c' \<and>
              (window_sum count (ops c) m = 0 \<longrightarrow> c' = c)"
proof -
  let ?n = "window_sum count (ops c) m" and ?e = "window_sum errors (ops c) m"
  let ?s = "seconds (time_Sub (lastBoundary c) (start c))" and ?t = "seconds (time_Sub now (start c))"
  note f = foldl_window [OF assms(1,2), of count] foldl_window [OF assms(1,2), of errors]
  consider "?n = 0" | "?n \<noteq> 0" "fsub ?t ?s < minIntervalSeconds" "intervals c \<noteq> []"
    | "?n \<noteq> 0" "\<not> (fsub ?t ?s < minIntervalSeconds \<and> intervals c \<noteq> [])" by blast
  then show ?thesis
  proof cases
    case 1
    then show ?thesis
      using assms(3) window_sum_errors_0 [OF assms(1)] by (simp add: recordIntervalLocked_def f series_step_def)
  next
    case 2
    let ?p = "last (intervals c)"
    let ?w = "fsub ?t (StartSeconds ?p)"
    have p: "interval_ok (ops c) ?p" "0 < Ops ?p" using 2 assms(3) by (auto simp: series_ok_def)
    obtain L where L: "collect (rebuild_entry (op_entries (Operations ?p)) m ?w) (ops c) = Some L"
        "\<exists>P. map iOp L = filter P (ops c)" "\<forall>io \<in> set L. 0 < iCount io"
        "sum_list (map iCount L) = Ops ?p + ?n" "sum_list (map iErrors L) = Errors ?p + ?e"
      using rebuilt_interval [OF assms(1,2) p(1), of ?w] by blast
    let ?q0 = "?p\<lparr>Ops := Ops ?p + ?n, Errors := Errors ?p + ?e, EndSeconds := ?t, Operations := L\<rparr>"
    let ?q = "if ?w > 0 then ?q0\<lparr>OpsPerSec := fdiv (f64_of_int (Ops ?p + ?n)) ?w\<rparr> else ?q0"
    let ?c = "c\<lparr>intervals := butlast (intervals c) @ [?q], lastBoundary := now\<rparr>"
    have r: "recordIntervalLocked c now m = Some ?c"
      using 2 L(1) by (simp add: recordIntervalLocked_def f Let_def flip: op_entries_def)
    have q: "interval_ok (ops c) ?q" "0 < Ops ?q" "StartSeconds ?q = StartSeconds ?p" "EndSeconds ?q = ?t"
      using L(2-5) p(2) window_sum_nonneg [OF assms(1)] by (simp_all add: interval_ok_def)
    have "series_ok ?c" using q 2 assms(3) by (intro series_fold) simp_all
    then show ?thesis using r 2 by (simp add: series_step_def sum_butlast)
  next
    case 3
    let ?w = "fsub ?t ?s"
    obtain L where L: "collect (fresh_entry m ?w) (ops c) = Some L"
        "\<exists>P. map iOp L = filter P (ops c)" "\<forall>io \<in> set L. 0 < iCount io"
        "sum_list (map iCount L) = ?n" "sum_list (map iErrors L) = ?e"
      using fresh_interval [OF assms(1), of ?w] by blast
    let ?q = "\<lparr>StartSeconds = ?s, EndSeconds = ?t, Ops = ?n, Errors = ?e, OpsPerSec = rate ?w ?n, Operations = L\<rparr>"
    let ?c = "c\<lparr>intervals := intervals c @ [?q], lastBoundary := now\<rparr>"
    have r: "recordIntervalLocked c now m = Some ?c"
      using 3 L(1) by (auto simp: recordIntervalLocked_def f Let_def)
    have "series_ok ?c"
      using L(2-5) 3(1) window_sum_nonneg [OF assms(1)] assms(3)
      by (intro series_snoc) (simp_all add: interval_ok_def)
    then show ?thesis using r 3(1) by (simp add: series_step_def)
  qed
qed

end
