(* ===== verification/Conservation.thy ===== *)
theory Conservation
  imports Collector
begin

text \<open>
  Recording and draining, interleaved: the concurrency of \<open>workload/stats.go\<close>.

  The state is the collector, the drain in progress (its next worker, the merged windows and
  the instant it was called with) and the history of all completed \<open>Record\<close> calls. A step
  is one critical section: \<open>Record\<close> holds only its worker's mutex and so may run at any
  time, also between two snapshots of one drain; \<open>NewWorkerStats\<close> and the beginning of a
  drain need the collector's mutex and so wait for the drain in progress. The instant given
  to a drain is arbitrary: the summary loop passes the ticker's and \<open>Finalize\<close> its own.

  What is conserved is stated once, for every additive measure of \<open>opStats\<close>, in the locale
  \<open>additive_measure\<close>; attempts, errors and the observations of each latency are its
  interpretations.
\<close>

section \<open>The step relation\<close>

type_synonym observation = "string \<times> float64 \<times> goerr option"

record sys =
  coll :: StatsCollector
  drainer :: "(nat \<times> (string, opStats) gomap \<times> int) option"
  history :: "observation list"

definition sys_init :: "string list \<Rightarrow> sys \<Rightarrow> bool" where
  "sys_init names s \<longleftrightarrow>
     (\<exists>now. s = \<lparr>coll = NewStatsCollector now names, drainer = None, history = []\<rparr>)"

inductive sys_step :: "sys \<Rightarrow> sys \<Rightarrow> bool" where
  new_worker: "drainer s = None \<Longrightarrow> sys_step s (s\<lparr>coll := NewWorkerStats (coll s)\<rparr>)"
| record_call: "i < length (workers (coll s)) \<Longrightarrow> op \<in> set (ops (coll s)) \<Longrightarrow>
     Record (workers (coll s) ! i) op d err = Some ws \<Longrightarrow>
     sys_step s (s\<lparr>coll := (coll s)\<lparr>workers := (workers (coll s))[i := ws]\<rparr>,
                   history := history s @ [(op, d, err)]\<rparr>)"
| drain_begin: "drainer s = None \<Longrightarrow>
     sys_step s (s\<lparr>drainer := Some (0, drain_init (coll s), now)\<rparr>)"
| drain_snap: "drainer s = Some (i, merged, now) \<Longrightarrow> i < length (workers (coll s)) \<Longrightarrow>
     drain_worker (coll s) i merged = (c', merged') \<Longrightarrow>
     sys_step s (s\<lparr>coll := c', drainer := Some (Suc i, merged', now)\<rparr>)"
| drain_end: "drainer s = Some (i, merged, now) \<Longrightarrow> i = length (workers (coll s)) \<Longrightarrow>
     drain_finish (coll s) now merged = Some c' \<Longrightarrow>
     sys_step s (s\<lparr>coll := c', drainer := None\<rparr>)"

inductive_cases sys_stepE: "sys_step s s'"

text \<open>The steps of a drain: those of the summary loop and of \<open>Finalize\<close>.\<close>

definition drain_step :: "sys \<Rightarrow> sys \<Rightarrow> bool" where
  "drain_step s s' \<longleftrightarrow> sys_step s s' \<and> history s' = history s \<and>
     length (workers (coll s')) = length (workers (coll s)) \<and> (drainer s \<noteq> None \<or> drainer s' \<noteq> None)"

section \<open>The structural invariant\<close>

definition sys_ok :: "string list \<Rightarrow> sys \<Rightarrow> bool" where
  "sys_ok names s \<longleftrightarrow>
     ops (coll s) = names \<and> table_ok names (totals (coll s)) \<and>
     (\<forall>ws \<in> set (workers (coll s)). table_ok names (data ws)) \<and> series_ok (coll s) \<and>
     sum_list (map Ops (intervals (coll s))) = window_sum count names (totals (coll s)) \<and>
     sum_list (map Errors (intervals (coll s))) = window_sum errors names (totals (coll s)) \<and>
     (case drainer s of None \<Rightarrow> True
      | Some (i, merged, now) \<Rightarrow> table_ok names merged \<and> i \<le> length (workers (coll s))) \<and>
     (\<forall>(op, d, err) \<in> set (history s). op \<in> set names)"

lemma window_sum_merge:
  assumes "table_ok names t" "table_ok names m"
    and "\<And>d s. stats_ok s \<Longrightarrow> f (mergeInto d s) = f d + f s"
  shows "window_sum f names (merge_all t m) = window_sum f names t + window_sum f names m"
proof -
  have "map (\<lambda>op. f (stat_at (merge_all t m) op)) names = map (\<lambda>op. f (stat_at t op) + f (stat_at m op)) names"
    using merge_tables(2) [OF assms(1,2)] table_ok_Some(2) [OF assms(2)] assms(3) by simp
  then show ?thesis by (simp only: window_sum_def sum_list_addf)
qed

lemma drain_finish_spec:
  assumes "table_ok (ops c) m" "table_ok (ops c) (totals c)" "distinct (ops c)" "series_ok c"
  shows "\<exists>c'. drain_finish c now m = Some c' \<and>
              series_step (c\<lparr>totals := merge_all (totals c) m\<rparr>) m c' \<and>
              (window_sum count (ops c) m = 0 \<longrightarrow> c' = c\<lparr>totals := merge_all (totals c) m\<rparr>)"
  unfolding drain_finish_def
  using recordIntervalLocked_spec [of "c\<lparr>totals := merge_all (totals c) m\<rparr>" m now] assms
  by (simp add: series_ok_def contiguous_def)

lemma init_ok: "sys_init names s \<Longrightarrow> sys_ok names s"
  by (auto simp: sys_init_def sys_ok_def NewStatsCollector_def fresh_stats_ok series_ok_def
      contiguous_def window_sum_def opStats_zero_def)

lemma table_ok_nth:
  "\<forall>ws \<in> set W. table_ok names (data ws) \<Longrightarrow> i < length W \<Longrightarrow> table_ok names (data (W ! i))"
  by simp

lemma workers_update_ok:
  "\<forall>ws \<in> set W. table_ok names (data ws) \<Longrightarrow> table_ok names (data v) \<Longrightarrow>
   \<forall>ws \<in> set (W[i := v]). table_ok names (data ws)"
  using set_update_subset_insert by fastforce

lemma step_ok:
  assumes "sys_ok names s" "sys_step s s'" "distinct names"
  shows "sys_ok names s'"
  using assms(2)
proof (cases rule: sys_step.cases)
  case new_worker
  then show ?thesis
    using assms(1) fresh_stats_ok(1) [of names]
    by (auto simp: sys_ok_def NewWorkerStats_def newWorkerStats_fresh series_ok_def contiguous_def)
next
  case (record_call i op d err ws)
  have n: "ops (coll s) = names" and W: "\<forall>ws \<in> set (workers (coll s)). table_ok names (data ws)"
    using assms(1) by (auto simp: sys_ok_def)
  have "table_ok names (data ws)"
    using Record_ok [OF table_ok_nth [OF W record_call(2)], of op d err] record_call n by auto
  then have "\<forall>w \<in> set ((workers (coll s))[i := ws]). table_ok names (data w)"
    using W by (intro workers_update_ok)
  then show ?thesis
    using assms(1) record_call n by (auto simp: sys_ok_def series_ok_def contiguous_def split: option.splits)
next
  case (drain_begin now)
  then show ?thesis
    using assms(1) fresh_stats_ok(1) [of names] by (auto simp: sys_ok_def drain_init_def)
next
  case (drain_snap i merged now c' merged')
  have n: "ops (coll s) = names" and W: "\<forall>ws \<in> set (workers (coll s)). table_ok names (data ws)"
    and m: "table_ok names merged"
    using assms(1) drain_snap by (auto simp: sys_ok_def)
  note sn = snapshot_ok [OF table_ok_nth [OF W drain_snap(3)]]
  have c': "c' = (coll s)\<lparr>workers := (workers (coll s))[i := snd (snapshot (workers (coll s) ! i))]\<rparr>"
      "merged' = merge_all merged (data (workers (coll s) ! i))"
    using drain_snap(4) sn(1) by (auto simp: drain_worker_def split: prod.splits)
  have "\<forall>w \<in> set (workers c'). table_ok names (data w)"
    unfolding c' using workers_update_ok [OF W sn(2)] by simp
  moreover have "table_ok names merged'"
    unfolding c' using merge_tables(1) [OF m table_ok_nth [OF W drain_snap(3)]] .
  ultimately show ?thesis
    using assms(1) drain_snap by (auto simp: sys_ok_def c'(1) series_ok_def contiguous_def)
next
  case (drain_end i merged now c')
  have n: "ops (coll s) = names" and m: "table_ok names merged" and t: "table_ok names (totals (coll s))"
    and so: "series_ok (coll s)"
    using assms(1) drain_end by (auto simp: sys_ok_def)
  have "series_step ((coll s)\<lparr>totals := merge_all (totals (coll s)) merged\<rparr>) merged c'"
    using drain_finish_spec [of "coll s" merged now] m t so assms(3) n drain_end(4) by auto
  then show ?thesis
    using assms(1) drain_end merge_tables(1) [OF t m] window_sum_merge [OF t m, of count]
      window_sum_merge [OF t m, of errors]
    by (auto simp: sys_ok_def series_step_def)
qed

interpretation sys_inv: inductive_invariant "sys_init names" sys_step "\<lambda>s. distinct names \<longrightarrow> sys_ok names s" for names
  by unfold_locales (auto intro: init_ok step_ok)

section \<open>Additive measures\<close>

text \<open>Where an observation of an operation can be: in the totals, with the drain in progress,
  or in a worker's window.\<close>

definition in_windows :: "(opStats \<Rightarrow> int) \<Rightarrow> string \<Rightarrow> WorkerStats list \<Rightarrow> int" where
  "in_windows \<phi> op W = sum_list (map (\<lambda>ws. \<phi> (stat_at (data ws) op)) W)"

definition in_drain :: "(opStats \<Rightarrow> int) \<Rightarrow> string \<Rightarrow> sys \<Rightarrow> int" where
  "in_drain \<phi> op s = (case drainer s of None \<Rightarrow> 0 | Some (i, merged, now) \<Rightarrow> \<phi> (stat_at merged op))"

definition logged :: "(float64 \<Rightarrow> goerr option \<Rightarrow> int) \<Rightarrow> string \<Rightarrow> observation list \<Rightarrow> int" where
  "logged \<omega> op h = sum_list (map (\<lambda>(op', d, err). if op' = op then \<omega> d err else 0) h)"

definition held :: "(opStats \<Rightarrow> int) \<Rightarrow> string \<Rightarrow> sys \<Rightarrow> int" where
  "held \<phi> op s = \<phi> (stat_at (totals (coll s)) op) + in_drain \<phi> op s + in_windows \<phi> op (workers (coll s))"

lemma in_windows_update:
  "i < length W \<Longrightarrow> in_windows \<phi> op (W[i := v]) =
     in_windows \<phi> op W - \<phi> (stat_at (data (W ! i)) op) + \<phi> (stat_at (data v) op)"
  by (simp add: in_windows_def map_update sum_list_update_int)

lemma logged_snoc: "logged \<omega> op (h @ [(op', d, err)]) = logged \<omega> op h + (if op' = op then \<omega> d err else 0)"
  by (simp add: logged_def)

locale additive_measure =
  fixes \<phi> :: "opStats \<Rightarrow> int" and \<omega> :: "float64 \<Rightarrow> goerr option \<Rightarrow> int"
  assumes measure_zero: "\<phi> opStats_zero = 0"
    and measure_merge: "stats_ok s \<Longrightarrow> \<phi> (mergeInto t s) = \<phi> t + \<phi> s"
    and measure_record: "\<phi> (record_op s d err) = \<phi> s + \<omega> d err"
begin

definition conserved :: "string list \<Rightarrow> sys \<Rightarrow> bool" where
  "conserved names s \<longleftrightarrow> (\<forall>op \<in> set names. held \<phi> op s = logged \<omega> op (history s))"

lemma conserved_step:
  assumes ok: "sys_ok names s" and c: "conserved names s" and st: "sys_step s s'" and "distinct names"
  shows "conserved names s'"
  using st
proof (cases rule: sys_step.cases)
  case new_worker
  then show ?thesis using c
    by (simp add: conserved_def held_def in_windows_def in_drain_def NewWorkerStats_def newWorkerStats_fresh
        fresh_stats_ok measure_zero)
next
  case (record_call i op d err ws)
  have n: "ops (coll s) = names" and W: "\<forall>ws \<in> set (workers (coll s)). table_ok names (data ws)"
    using ok by (auto simp: sys_ok_def)
  note R = Record_ok(1) [OF table_ok_nth [OF W record_call(2)], of op d err]
  have ws: "ws = (workers (coll s) ! i)\<lparr>data := AList.update op
      (record_op (stat_at (data (workers (coll s) ! i)) op) d err) (data (workers (coll s) ! i))\<rparr>"
    using R record_call n by auto
  have "\<phi> (stat_at (data ws) o') =
      \<phi> (stat_at (data (workers (coll s) ! i)) o') + (if op = o' then \<omega> d err else 0)" for o'
    by (auto simp: ws measure_record)
  then show ?thesis
    using c record_call(1) in_windows_update [OF record_call(2), of \<phi> _ ws]
    by (simp add: conserved_def held_def in_drain_def logged_snoc add.assoc)
next
  case (drain_begin now)
  then show ?thesis
    using c ok fresh_stats_ok(2) measure_zero by (simp add: conserved_def held_def in_drain_def drain_init_def)
next
  case (drain_snap i merged now c' merged')
  let ?w = "workers (coll s) ! i"
  have W: "\<forall>ws \<in> set (workers (coll s)). table_ok names (data ws)" and m: "table_ok names merged"
    using ok drain_snap by (auto simp: sys_ok_def)
  note tw = table_ok_nth [OF W drain_snap(3)]
  note sn = snapshot_ok [OF tw]
  have c': "c' = (coll s)\<lparr>workers := (workers (coll s))[i := snd (snapshot ?w)]\<rparr>"
      "merged' = merge_all merged (data ?w)"
    using drain_snap(4) sn(1) by (auto simp: drain_worker_def split: prod.splits)
  have "\<phi> (stat_at merged' op) = \<phi> (stat_at merged op) + \<phi> (stat_at (data ?w) op)"
    if "op \<in> set names" for op
    using merge_tables(2) [OF m tw that] measure_merge table_ok_Some(2) [OF tw that] by (simp add: c'(2))
  then show ?thesis
    using c drain_snap(1,2) in_windows_update [OF drain_snap(3), of \<phi>] sn(3) measure_zero
    by (simp add: conserved_def held_def in_drain_def c'(1) add.assoc)
next
  case (drain_end i merged now c')
  have n: "ops (coll s) = names" and m: "table_ok names merged" and t: "table_ok names (totals (coll s))"
    and so: "series_ok (coll s)"
    using ok drain_end by (auto simp: sys_ok_def)
  have "series_step ((coll s)\<lparr>totals := merge_all (totals (coll s)) merged\<rparr>) merged c'"
    using drain_finish_spec [of "coll s" merged now] m t so assms(4) n drain_end(4) by auto
  then have "totals c' = merge_all (totals (coll s)) merged" "workers c' = workers (coll s)"
    by (simp_all add: series_step_def)
  moreover have "\<phi> (stat_at (merge_all (totals (coll s)) merged) op) =
      \<phi> (stat_at (totals (coll s)) op) + \<phi> (stat_at merged op)" if "op \<in> set names" for op
    using merge_tables(2) [OF t m that] measure_merge table_ok_Some(2) [OF m that] by simp
  ultimately show ?thesis using c drain_end(1,2) by (simp add: conserved_def held_def in_drain_def)
qed

lemma conservation:
  assumes "reach (sys_init names) sys_step s" "distinct names"
  shows "conserved names s"
  using assms(1)
proof (induction rule: reach.induct)
  case (start s)
  then show ?case
    by (auto simp: sys_init_def conserved_def held_def in_drain_def in_windows_def logged_def NewStatsCollector_def
        fresh_stats_ok measure_zero)
next
  case (next_step s s')
  then show ?case using sys_inv.always_good conserved_step assms(2) by blast
qed

end

interpretation attempts: additive_measure count "\<lambda>d err. 1"
  by unfold_locales (simp_all add: opStats_zero_def)

interpretation failures: additive_measure errors "\<lambda>d err. if err \<noteq> None then 1 else 0"
  by unfold_locales (auto simp: opStats_zero_def)

interpretation latency: additive_measure "\<lambda>s. mget (lat s) us"
    "\<lambda>d err. if err = None \<and> us = to_micros d then 1 else 0" for us
  by unfold_locales (simp_all add: mget_mergeInto stats_ok_def mget_record_op)

section \<open>The sequential drain\<close>

lemma drain_worker_eq:
  "drain_worker c i m =
     (c\<lparr>workers := (workers c)[i := snd (snapshot (workers c ! i))]\<rparr>, merge_all m (data (workers c ! i)))"
  by (simp add: drain_worker_def snapshot_def)

lemma drain_workers_eq:
  assumes "i \<le> length (workers c)"
  shows "drain_workers [i..<length (workers c)] c m =
    (c\<lparr>workers := take i (workers c) @ map (\<lambda>w. snd (snapshot w)) (drop i (workers c))\<rparr>,
     foldl (\<lambda>m w. merge_all m (data w)) m (drop i (workers c)))"
  using assms
proof (induction "length (workers c) - i" arbitrary: i c m)
  case 0
  then show ?case by simp
next
  case (Suc k)
  then have i: "i < length (workers c)" by simp
  let ?w = "workers c ! i" let ?c = "c\<lparr>workers := (workers c)[i := snd (snapshot ?w)]\<rparr>"
  let ?m = "merge_all m (data ?w)"
  have d: "drop i (workers c) = ?w # drop (Suc i) (workers c)" using i by (simp add: Cons_nth_drop_Suc)
  have "drain_workers [i..<length (workers c)] c m = drain_workers [Suc i..<length (workers ?c)] ?c ?m"
    using i by (simp add: upt_conv_Cons drain_worker_eq)
  also have "\<dots> = (?c\<lparr>workers := take (Suc i) (workers ?c) @ map (\<lambda>w. snd (snapshot w)) (drop (Suc i) (workers ?c))\<rparr>,
      foldl (\<lambda>m w. merge_all m (data w)) ?m (drop (Suc i) (workers ?c)))"
    using Suc i by (intro Suc.hyps(1)) simp_all
  also have "take (Suc i) (workers ?c) @ map (\<lambda>w. snd (snapshot w)) (drop (Suc i) (workers ?c)) =
      take i (workers c) @ map (\<lambda>w. snd (snapshot w)) (drop i (workers c))"
    using i by (simp add: d take_Suc_conv_app_nth)
  finally show ?case using i by (simp add: d)
qed

lemma drain_steps: "drain_step\<^sup>*\<^sup>* s s' \<Longrightarrow> sys_step\<^sup>*\<^sup>* s s'"
  using rtranclp_mono [of drain_step sys_step] by (auto simp: drain_step_def le_fun_def)

lemma drain_workers_run:
  assumes "drainer s = Some (i, m, now)" "i \<le> length (workers (coll s))"
    "drain_workers [i..<length (workers (coll s))] (coll s) m = (c', m')"
  shows "drain_step\<^sup>*\<^sup>* s (s\<lparr>coll := c', drainer := Some (length (workers (coll s)), m', now)\<rparr>)"
  using assms
proof (induction "length (workers (coll s)) - i" arbitrary: i s m)
  case 0
  then have "s\<lparr>coll := c', drainer := Some (length (workers (coll s)), m', now)\<rparr> = s" by (cases s) auto
  then show ?case by simp
next
  case (Suc k)
  then have i: "i < length (workers (coll s))" by simp
  obtain c1 m1 where w: "drain_worker (coll s) i m = (c1, m1)" by fastforce
  let ?s = "s\<lparr>coll := c1, drainer := Some (Suc i, m1, now)\<rparr>"
  have l: "length (workers c1) = length (workers (coll s))" using w by (auto simp: drain_worker_eq)
  have "drain_step s ?s" using drain_snap [OF Suc.prems(1) i w] Suc.prems(1) l by (simp add: drain_step_def)
  moreover have "drain_step\<^sup>*\<^sup>* ?s (?s\<lparr>coll := c', drainer := Some (length (workers (coll ?s)), m', now)\<rparr>)"
    using Suc i l w by (intro Suc.hyps(1)) (simp_all add: upt_conv_Cons)
  ultimately show ?case using l by simp
qed

text \<open>A drain that no \<open>Record\<close> interleaves: what it returns, that it is a run of the step
  relation, and that it leaves every window empty.\<close>

lemma drain_run:
  assumes ok: "sys_ok names s" and dr: "drainer s = None" and dist: "distinct names"
  shows "\<exists>c' m. drain (coll s) now = Some (c', m) \<and> sys_step\<^sup>*\<^sup>* s (s\<lparr>coll := c'\<rparr>) \<and>
           workers c' = map (\<lambda>w. snd (snapshot w)) (workers (coll s))"
proof -
  let ?W = "workers (coll s)" let ?n = "length ?W"
  let ?c = "(coll s)\<lparr>workers := map (\<lambda>w. snd (snapshot w)) ?W\<rparr>"
  define m where "m = foldl (\<lambda>m w. merge_all m (data w)) (drain_init (coll s)) ?W"
  have dw: "drain_workers [0..<?n] (coll s) (drain_init (coll s)) = (?c, m)"
    using drain_workers_eq [of 0 "coll s"] by (simp add: m_def)
  let ?s0 = "s\<lparr>drainer := Some (0, drain_init (coll s), now)\<rparr>"
  let ?s1 = "s\<lparr>coll := ?c, drainer := Some (?n, m, now)\<rparr>"
  have b: "sys_step s ?s0" using dr by (rule sys_step.drain_begin)
  have "sys_step\<^sup>*\<^sup>* ?s0 ?s1"
    using drain_workers_run [of ?s0 0 "drain_init (coll s)" now ?c m] dw by (intro drain_steps) simp
  then have r1: "sys_step\<^sup>*\<^sup>* s ?s1" using b by (meson converse_rtranclp_into_rtranclp)
  then have ok1: "sys_ok names ?s1" using sys_inv.run_good ok dist by blast
  then obtain c' where f: "drain_finish ?c now m = Some c'"
      "series_step (?c\<lparr>totals := merge_all (totals ?c) m\<rparr>) m c'"
    using drain_finish_spec [of ?c m now] dist by (auto simp: sys_ok_def)
  have "sys_step ?s1 (?s1\<lparr>coll := c', drainer := None\<rparr>)" using f(1) by (intro drain_end) simp_all
  moreover have "?s1\<lparr>coll := c', drainer := None\<rparr> = s\<lparr>coll := c'\<rparr>" using dr by simp
  ultimately have "sys_step\<^sup>*\<^sup>* s (s\<lparr>coll := c'\<rparr>)" using r1 by (metis rtranclp.rtrancl_into_rtrancl)
  moreover have "drain (coll s) now = Some (c', m)" using dw f(1) by (simp add: drain_def)
  moreover have "workers c' = map (\<lambda>w. snd (snapshot w)) ?W" using f(2) by (simp add: series_step_def)
  ultimately show ?thesis by blast
qed

lemma in_windows_reset:
  assumes "\<forall>ws \<in> set W. table_ok names (data ws)" "\<phi> opStats_zero = 0"
  shows "in_windows \<phi> op (map (\<lambda>w. snd (snapshot w)) W) = 0"
  using assms snapshot_ok(3) [of names] by (induction W) (simp_all add: in_windows_def)

text \<open>Draining empty windows changes nothing.\<close>

lemma mergeInto_zero [simp]: "mergeInto d opStats_zero = d"
  by (simp add: mergeInto_def opStats_zero_def lat_def)

lemma merge_all_zero: "\<forall>(op, s) \<in> set src. s = opStats_zero \<Longrightarrow> merge_all dst src = dst"
proof (induction src)
  case (Cons e src)
  then have "merge_entry dst e = dst" by (auto simp: merge_entry_def update_triv split: option.split)
  then show ?case using Cons by (simp add: merge_all_def)
qed (simp add: merge_all_def)

lemma snapshot_reset: "\<forall>(op, s) \<in> set (data (snd (snapshot ws))). s = opStats_zero"
    "snd (snapshot (snd (snapshot ws))) = snd (snapshot ws)"
  by (auto simp: snapshot_def comp_def split_def)

lemma drain_idle:
  assumes ok: "sys_ok names s" and dist: "distinct names"
    and W: "workers (coll s) = map (\<lambda>w. snd (snapshot w)) W"
  shows "drain (coll s) now = Some (coll s, drain_init (coll s))"
proof -
  let ?c = "coll s"
  have n: "ops ?c = names" and so: "series_ok ?c" and t: "table_ok names (totals ?c)"
    using ok by (auto simp: sys_ok_def)
  have "foldl (\<lambda>m w. merge_all m (data w)) m (map (\<lambda>w. snd (snapshot w)) V) = m" for m V
    using merge_all_zero [OF snapshot_reset(1)] by (induction V) simp_all
  then have dw: "drain_workers [0..<length (workers ?c)] ?c (drain_init ?c) = (?c, drain_init ?c)"
    using drain_workers_eq [of 0 ?c] by (simp add: W snapshot_reset(2) comp_def)
  have "totals ?c = merge_all (totals ?c) (drain_init ?c)"
    using merge_all_zero fresh_stats_ok(3) by (simp add: drain_init_def)
  moreover have "window_sum count names (drain_init ?c) = 0"
    using fresh_stats_ok(2) by (simp add: drain_init_def window_sum_def opStats_zero_def)
  ultimately have "drain_finish ?c now (drain_init ?c) = Some ?c"
    using drain_finish_spec [of ?c "drain_init ?c" now] fresh_stats_ok(1) [of names] n so t dist
    by (auto simp: drain_init_def)
  then show ?thesis using dw by (simp add: drain_def)
qed

subsection \<open>What the measures count\<close>

lemma logged_filter:
  assumes "\<And>d err. \<omega> d err = (if P d err then 1 else 0)"
  shows "logged \<omega> op h = int (length (filter (\<lambda>(op', d, err). op' = op \<and> P d err) h))"
proof -
  have "\<omega> = (\<lambda>d err. if P d err then 1 else 0)" using assms by blast
  then show ?thesis by (induction h) (auto simp: logged_def split: if_splits)
qed

text \<open>The history of an operation, filtered by what happened.\<close>

definition occurrences :: "string \<Rightarrow> (float64 \<Rightarrow> goerr option \<Rightarrow> bool) \<Rightarrow> observation list \<Rightarrow> int" where
  "occurrences op P h = int (length (filter (\<lambda>(op', d, err). op' = op \<and> P d err) h))"

lemma reach_sys_ok: "reach (sys_init names) sys_step s \<Longrightarrow> distinct names \<Longrightarrow> sys_ok names s"
  using sys_inv.always_good by blast

lemma held_occurrences:
  assumes "reach (sys_init names) sys_step s" "distinct names" "op \<in> set names"
  shows "held count op s = occurrences op (\<lambda>d err. True) (history s)"
    and "held errors op s = occurrences op (\<lambda>d err. err \<noteq> None) (history s)"
    and "held (\<lambda>st. mget (lat st) us) op s = occurrences op (\<lambda>d err. err = None \<and> us = to_micros d) (history s)"
proof -
  have l: "logged (\<lambda>d err. if P d err then 1 else 0) op h = occurrences op P h" for P h
    unfolding occurrences_def by (rule logged_filter) (rule refl)
  show "held count op s = occurrences op (\<lambda>d err. True) (history s)"
    using attempts.conservation [OF assms(1,2)] assms(3) l [of "\<lambda>d err. True"]
    by (simp add: attempts.conserved_def)
  show "held errors op s = occurrences op (\<lambda>d err. err \<noteq> None) (history s)"
    using failures.conservation [OF assms(1,2)] assms(3) by (simp only: failures.conserved_def l)
  show "held (\<lambda>st. mget (lat st) us) op s = occurrences op (\<lambda>d err. err = None \<and> us = to_micros d) (history s)"
    using latency.conservation [OF assms(1,2), of us] assms(3) by (simp only: latency.conserved_def l)
qed

lemma occurrences_all:
  assumes "\<forall>(op, d, err) \<in> set h. op \<in> set names" "distinct names"
  shows "sum_list (map (\<lambda>op. occurrences op P h) names) = int (length (filter (\<lambda>(op, d, err). P d err) h))"
  using assms(1)
proof (induction h)
  case (Cons x h)
  obtain op d err where x: "x = (op, d, err)" by (metis prod_cases3)
  have "occurrences o' P (x # h) = (if o' = op \<and> P d err then 1 else 0) + occurrences o' P h" for o'
    by (auto simp: occurrences_def x)
  then have "sum_list (map (\<lambda>o'. occurrences o' P (x # h)) names) =
      sum_list (map (\<lambda>o'. if o' = op \<and> P d err then 1 else 0) names) + sum_list (map (\<lambda>o'. occurrences o' P h) names)"
    by (simp add: sum_list_addf)
  moreover have "sum_list (map (\<lambda>o'. if o' = op \<and> P d err then 1 else (0 :: int)) names) = (if P d err then 1 else 0)"
    using Cons.prems assms(2) by (simp add: x sum_list_distinct_conv_sum_set)
  ultimately show ?case using Cons x by simp
qed (simp add: occurrences_def)

section \<open>Properties\<close>

text \<open>A run of three steps, used by the witnesses: a worker is created, records a success of
  250 ms, and a drain begins.\<close>

definition demo_names :: "string list" where
  "demo_names = [''insert'', ''delete'']"

lemma demo_run:
  "\<exists>s. reach (sys_init demo_names) sys_step s \<and> drainer s = None \<and> history s = [(''insert'', 1 / 4, None)]"
proof -
  let ?s0 = "\<lparr>coll = NewStatsCollector 0 demo_names, drainer = None, history = []\<rparr>"
  let ?s1 = "?s0\<lparr>coll := NewWorkerStats (coll ?s0)\<rparr>"
  have r0: "reach (sys_init demo_names) sys_step ?s0" by (rule reach.start) (auto simp: sys_init_def)
  then have r1: "reach (sys_init demo_names) sys_step ?s1"
    by (rule reach.next_step) (rule sys_step.new_worker, simp)
  have o: "ops (coll ?s1) = demo_names" and w: "workers (coll ?s1) = [newWorkerStats demo_names]"
    by (simp_all add: NewStatsCollector_def NewWorkerStats_def)
  obtain ws where ws: "Record (workers (coll ?s1) ! 0) ''insert'' (1 / 4) None = Some ws"
    unfolding w by (simp add: Record_def newWorkerStats_def demo_names_def)
  let ?s2 = "?s1\<lparr>coll := (coll ?s1)\<lparr>workers := (workers (coll ?s1))[0 := ws]\<rparr>,
                 history := history ?s1 @ [(''insert'', 1 / 4, None)]\<rparr>"
  have "sys_step ?s1 ?s2"
    using ws by (intro sys_step.record_call) (simp_all only: w o, simp_all add: demo_names_def)
  with r1 have "reach (sys_init demo_names) sys_step ?s2" by (rule reach.next_step)
  then show ?thesis by (intro exI [of _ ?s2]) simp
qed

lemma demo_distinct: "distinct demo_names" "''insert'' \<in> set demo_names"
  by (simp_all add: demo_names_def)

text \<open>
  C1: Conservation. In every state reachable by any interleaving of \<open>Record\<close>, worker
  registration and the steps of successive drains, each completed \<open>Record\<close> call is counted
  exactly once: over the totals, the drain in progress and the workers' windows together,
  the attempts, the errors and, for every latency, the observations of an operation are
  those of its history. No observation is lost, duplicated or attributed to another
  operation.
\<close>

theorem observations_conserved:
  assumes "reach (sys_init names) sys_step s" and "distinct names" and "op \<in> set names"
  shows "held count op s = occurrences op (\<lambda>d err. True) (history s) \<and>
         held errors op s = occurrences op (\<lambda>d err. err \<noteq> None) (history s) \<and>
         (\<forall>us. held (\<lambda>st. mget (lat st) us) op s =
                occurrences op (\<lambda>d err. err = None \<and> us = to_micros d) (history s))"
  using held_occurrences [OF assms] by simp

theorem observations_conserved_witness:
  "\<exists>s :: sys. drainer s = None \<and> held count ''insert'' s = 1 \<and> held errors ''insert'' s = 0"
proof -
  obtain s where s: "reach (sys_init demo_names) sys_step s" "drainer s = None"
      "history s = [(''insert'', 1 / 4, None)]" using demo_run by blast
  then show ?thesis
    using observations_conserved [OF s(1) demo_distinct] by (auto simp: occurrences_def)
qed

lemma Finalize_history:
  assumes "reach (sys_init names) sys_step s" and "distinct names" and "drainer s = None"
  shows "\<exists>tot ivs st c'. Finalize (coll s) now ended = Some ((tot, ivs, st, ended), c') \<and> table_ok names tot \<and>
    (\<forall>op \<in> set names. stats_ok (stat_at tot op) \<and>
       count (stat_at tot op) = occurrences op (\<lambda>d err. True) (history s) \<and>
       errors (stat_at tot op) = occurrences op (\<lambda>d err. err \<noteq> None) (history s) \<and>
       (\<forall>us. mget (lat (stat_at tot op)) us = occurrences op (\<lambda>d err. err = None \<and> us = to_micros d) (history s))) \<and>
    sum_list (map Ops ivs) = int (length (history s)) \<and>
    sum_list (map Errors ivs) = int (length (filter (\<lambda>(op, d, err). err \<noteq> None) (history s)))"
proof -
  have ok: "sys_ok names s" using assms(1,2) by (rule reach_sys_ok)
  obtain c' m where d: "drain (coll s) now = Some (c', m)" and run: "sys_step\<^sup>*\<^sup>* s (s\<lparr>coll := c'\<rparr>)"
      and W: "workers c' = map (\<lambda>w. snd (snapshot w)) (workers (coll s))"
    using drain_run [OF ok assms(3,2)] by blast
  let ?s = "s\<lparr>coll := c'\<rparr>"
  have r: "reach (sys_init names) sys_step ?s" using assms(1) run by (rule reach_rtranclp)
  have ok': "sys_ok names ?s" using r assms(2) by (rule reach_sys_ok)
  have h: "held \<phi> op ?s = \<phi> (stat_at (totals c') op)" if "\<phi> opStats_zero = 0" for \<phi> op
    using in_windows_reset [of "workers (coll s)" names \<phi> op] that ok assms(3)
    by (simp add: held_def in_drain_def W sys_ok_def)
  have c: "count (stat_at (totals c') op) = occurrences op (\<lambda>d err. True) (history s)"
      "errors (stat_at (totals c') op) = occurrences op (\<lambda>d err. err \<noteq> None) (history s)"
      "mget (lat (stat_at (totals c') op)) us = occurrences op (\<lambda>d err. err = None \<and> us = to_micros d) (history s)"
    if "op \<in> set names" for op us
    using held_occurrences [OF r assms(2) that] h [of count op] h [of errors op]
      h [of "\<lambda>st. mget (lat st) us" op] attempts.measure_zero failures.measure_zero
    by simp_all
  have hist: "\<forall>(op, d, err) \<in> set (history s). op \<in> set names" using ok by (simp add: sys_ok_def)
  have sums: "sum_list (map Ops (intervals c')) = int (length (history s))"
      "sum_list (map Errors (intervals c')) = int (length (filter (\<lambda>(op, d, err). err \<noteq> None) (history s)))"
    using ok' c(1,2) occurrences_all [OF hist assms(2), of "\<lambda>d err. True"]
      occurrences_all [OF hist assms(2), of "\<lambda>d err. err \<noteq> None"]
    by (simp_all add: sys_ok_def window_sum_def split_def cong: map_cong)
  have "table_ok names (totals c')" using ok' by (simp add: sys_ok_def)
  then show ?thesis using d c sums table_ok_Some(2) by (auto simp: Finalize_def)
qed

text \<open>
  C2: \<open>Finalize\<close> reports the whole run. Called when no drain is in progress and no \<open>Record\<close>
  interleaves it, it does not panic and returns, for every operation, exactly the attempts,
  errors and latency observations of the complete history, still satisfying the invariant
  of \<open>opStats\<close>; and the counts of the returned series add up to the number of all recorded
  operations and of all errors.
\<close>

theorem Finalize_reports_history:
  assumes "reach (sys_init names) sys_step s" and "distinct names" and "drainer s = None"
  shows "\<exists>tot ivs st c'. Finalize (coll s) now ended = Some ((tot, ivs, st, ended), c') \<and>
    (\<forall>op \<in> set names. stats_ok (stat_at tot op) \<and>
       count (stat_at tot op) = occurrences op (\<lambda>d err. True) (history s) \<and>
       errors (stat_at tot op) = occurrences op (\<lambda>d err. err \<noteq> None) (history s) \<and>
       (\<forall>us. mget (lat (stat_at tot op)) us = occurrences op (\<lambda>d err. err = None \<and> us = to_micros d) (history s))) \<and>
    sum_list (map Ops ivs) = int (length (history s)) \<and>
    sum_list (map Errors ivs) = int (length (filter (\<lambda>(op, d, err). err \<noteq> None) (history s)))"
  using Finalize_history [OF assms, of now ended] by blast

theorem Finalize_reports_history_witness:
  "\<exists>(s :: sys) tot ivs st c'. Finalize (coll s) 1000000000 1000000001 = Some ((tot, ivs, st, 1000000001), c') \<and>
     count (stat_at tot ''insert'') = 1 \<and> mget (lat (stat_at tot ''insert'')) 250000 = 1 \<and>
     sum_list (map Ops ivs) = 1"
proof -
  obtain s where s: "reach (sys_init demo_names) sys_step s" "drainer s = None"
      "history s = [(''insert'', 1 / 4, None)]" using demo_run by blast
  have "to_micros (1 / 4) = 250000" by code_simp
  then show ?thesis
    using Finalize_reports_history [OF s(1) demo_distinct(1) s(2), of 1000000000 1000000001] demo_distinct(2) s(3)
    by (fastforce simp: occurrences_def)
qed

text \<open>
  Calling \<open>Finalize\<close> twice is safe and the second call adds nothing: it returns the
  same totals, series and start, and leaves the collector as it was.
\<close>

theorem Finalize_idempotent:
  assumes "reach (sys_init names) sys_step s" and "distinct names" and "drainer s = None"
    and "Finalize (coll s) now ended = Some ((tot, ivs, st, ended), c')"
  shows "Finalize c' now' ended' = Some ((tot, ivs, st, ended'), c')"
proof -
  have ok: "sys_ok names s" using assms(1,2) by (rule reach_sys_ok)
  obtain m where d: "drain (coll s) now = Some (c', m)" and run: "sys_step\<^sup>*\<^sup>* s (s\<lparr>coll := c'\<rparr>)"
      and W: "workers c' = map (\<lambda>w. snd (snapshot w)) (workers (coll s))"
      and f: "tot = totals c'" "ivs = intervals c'" "st = start c'"
    using drain_run [OF ok assms(3,2), of now] assms(4) by (auto simp: Finalize_def)
  have "sys_ok names (s\<lparr>coll := c'\<rparr>)" using sys_inv.run_good [OF run] ok assms(2) by blast
  from drain_idle [OF this assms(2)] W show ?thesis by (simp add: Finalize_def f)
qed

theorem Finalize_idempotent_witness:
  "\<exists>(s :: sys) tot ivs st c'. Finalize (coll s) 5 6 = Some ((tot, ivs, st, 6), c') \<and>
     Finalize c' 7 8 = Some ((tot, ivs, st, 8), c')"
proof -
  obtain s where s: "reach (sys_init demo_names) sys_step s" "drainer s = None" using demo_run by blast
  obtain c' m where "drain (coll s) 5 = Some (c', m)"
    using drain_run [OF reach_sys_ok [OF s(1) demo_distinct(1)] s(2) demo_distinct(1), of 5] by blast
  then have "Finalize (coll s) 5 6 = Some ((totals c', intervals c', start c', 6), c')"
    by (simp add: Finalize_def)
  with Finalize_idempotent [OF s(1) demo_distinct(1) s(2) this] show ?thesis by blast
qed

text \<open>
  C8: The interval series is faithful in every reachable state. The entries' counts add
  up to the totals; within an entry the per-operation counts add up to the entry's own,
  the operations appear in the profile's order, and none is idle; the entries tile the run
  without gap or overlap, the first starting at zero and each at the end of its predecessor.
\<close>

theorem intervals_faithful:
  assumes "reach (sys_init names) sys_step s" and "distinct names"
  shows "sum_list (map Ops (intervals (coll s))) = sum_list (map (\<lambda>op. count (stat_at (totals (coll s)) op)) names) \<and>
         sum_list (map Errors (intervals (coll s))) = sum_list (map (\<lambda>op. errors (stat_at (totals (coll s)) op)) names) \<and>
         (\<forall>iv \<in> set (intervals (coll s)). interval_ok names iv \<and> 0 < Ops iv) \<and> contiguous (coll s)"
  using reach_sys_ok [OF assms] by (auto simp: sys_ok_def window_sum_def series_ok_def)

theorem intervals_faithful_witness:
  "\<exists>s :: sys. history s \<noteq> [] \<and> (\<forall>iv \<in> set (intervals (coll s)). interval_ok demo_names iv) \<and> contiguous (coll s)"
proof -
  obtain s where s: "reach (sys_init demo_names) sys_step s" "history s = [(''insert'', 1 / 4, None)]"
    using demo_run by blast
  then show ?thesis using intervals_faithful [OF s(1) demo_distinct(1)] by (intro exI [of _ s]) simp
qed

text \<open>A drain in progress can run to its end, whatever state it is in; only the collector changes.\<close>

lemma drain_completes:
  assumes ok: "sys_ok names s" and dist: "distinct names"
  shows "\<exists>s'. drain_step\<^sup>*\<^sup>* s s' \<and> drainer s' = None \<and> history s' = history s"
proof (cases "drainer s")
  case (Some dr)
  obtain i m now where dr: "dr = (i, m, now)" by (metis prod_cases3)
  obtain c m' where w: "drain_workers [i..<length (workers (coll s))] (coll s) m = (c, m')" by fastforce
  let ?s1 = "s\<lparr>coll := c, drainer := Some (length (workers (coll s)), m', now)\<rparr>"
  have i: "i \<le> length (workers (coll s))" using ok Some dr by (simp add: sys_ok_def)
  have run: "drain_step\<^sup>*\<^sup>* s ?s1" using drain_workers_run [OF _ i w] Some dr by simp
  then have ok1: "sys_ok names ?s1" using sys_inv.run_good [OF drain_steps [OF run]] ok dist by blast
  then obtain c' where f: "drain_finish c now m' = Some c'"
      "series_step (c\<lparr>totals := merge_all (totals c) m'\<rparr>) m' c'"
    using drain_finish_spec [of c m' now] dist by (auto simp: sys_ok_def)
  have l: "length (workers c) = length (workers (coll s))" using w drain_workers_eq [OF i, of m] by auto
  have "sys_step ?s1 (?s1\<lparr>coll := c', drainer := None\<rparr>)" using f(1) l by (intro drain_end) simp_all
  then have "drain_step ?s1 (?s1\<lparr>coll := c', drainer := None\<rparr>)"
    using f(2) by (simp add: drain_step_def series_step_def)
  then have "drain_step\<^sup>*\<^sup>* s (?s1\<lparr>coll := c', drainer := None\<rparr>)"
    using run by (rule rtranclp.rtrancl_into_rtrancl [rotated])
  then show ?thesis by (intro exI [of _ "?s1\<lparr>coll := c', drainer := None\<rparr>"]) simp
qed blast

text \<open>
  Nothing gets stuck. From every reachable state a drain in progress can run to its
  end without a panic and without the cooperation of any worker, leaving the history as it
  is; and every registered worker can record any operation of the profile at any moment.
\<close>

theorem drain_progress:
  assumes "reach (sys_init names) sys_step s" and "distinct names"
  shows "(\<exists>s'. sys_step\<^sup>*\<^sup>* s s' \<and> drainer s' = None \<and> history s' = history s) \<and>
         (\<forall>i < length (workers (coll s)). \<forall>op \<in> set names. \<forall>d err.
            \<exists>ws. Record (workers (coll s) ! i) op d err = Some ws)"
proof -
  have ok: "sys_ok names s" using assms by (rule reach_sys_ok)
  have "\<exists>ws. Record (workers (coll s) ! i) op d err = Some ws"
    if "i < length (workers (coll s))" "op \<in> set names" for i op d err
    using Record_ok(1) [of names "workers (coll s) ! i" op] that ok by (auto simp: sys_ok_def)
  moreover have "\<exists>s'. sys_step\<^sup>*\<^sup>* s s' \<and> drainer s' = None \<and> history s' = history s"
    using drain_completes [OF ok assms(2)] drain_steps by blast
  ultimately show ?thesis by blast
qed

theorem drain_progress_witness:
  "\<exists>(s :: sys) s'. sys_step\<^sup>*\<^sup>* s s' \<and> drainer s' = None \<and> history s' = [(''insert'', 1 / 4, None)]"
proof -
  obtain s where s: "reach (sys_init demo_names) sys_step s" "history s = [(''insert'', 1 / 4, None)]"
    using demo_run by blast
  then show ?thesis using drain_progress [OF s(1) demo_distinct(1)] by auto
qed

end
