(* ===== verification/Randomness.thy ===== *)
theory Randomness
  imports Prelude
begin

text \<open>
  Computations that draw from a \<open>*rand.Rand\<close>, and the helpers of \<open>workload/payload.go\<close> that
  every generator of random data is built from.

  A computation maps the tape to its result and the rest of the tape, or to \<open>None\<close> if it
  panics. \<open>yields P m\<close> is its total correctness: on every tape it returns, with a result
  that satisfies \<open>P\<close>; the rules below derive it by following the program text.
\<close>

section \<open>Definitions\<close>

type_synonym 'a rnd = "rng \<Rightarrow> ('a \<times> rng) option"

text \<open>\<open>xs[rng.Intn(len(xs))]\<close>, and a loop that fills a slice of the given length.\<close>

definition rpick :: "'a list \<Rightarrow> 'a rnd" where
  "rpick xs r = do { (i, r) \<leftarrow> intn (int (length xs)) r; Some (xs ! nat i, r) }"

fun rfill :: "nat \<Rightarrow> 'a rnd \<Rightarrow> 'a list rnd" where
  "rfill 0 m r = Some ([], r)"
| "rfill (Suc n) m r = do { (x, r) \<leftarrow> m r; (xs, r) \<leftarrow> rfill n m r; Some (x # xs, r) }"

text \<open>\<open>rng.Int63()\<close> printed by \<open>%016x\<close>.\<close>

definition rhex16 :: "string rnd" where
  "rhex16 r = (let (n, r) = int63 r in Some (hex16 n, r))"

definition charset :: string where
  "charset = ''abcdefghijklmnopqrstuvwxyzABCDEFGHIJKLMNOPQRSTUVWXYZ0123456789''"

definition randomString :: "int \<Rightarrow> int \<Rightarrow> string rnd" where
  "randomString minLen maxLen r = do {
     (k, r) \<leftarrow> intn (i64 (maxLen - minLen + 1)) r;
     let n = i64 (minLen + k);
     if make_ok 1 n then rfill (nat n) (rpick charset) r else None
   }"

subsection \<open>Base64\<close>

text \<open>\<open>base64.StdEncoding.EncodeToString\<close>, bytes being numbers below 256.\<close>

definition b64_alphabet :: string where
  "b64_alphabet = ''ABCDEFGHIJKLMNOPQRSTUVWXYZabcdefghijklmnopqrstuvwxyz0123456789+/''"

definition b64 :: "nat \<Rightarrow> char" where
  "b64 n = b64_alphabet ! (n mod 64)"

fun base64 :: "nat list \<Rightarrow> string" where
  "base64 [] = []"
| "base64 [a] = [b64 (a div 4), b64 (a mod 4 * 16), CHR ''='', CHR ''='']"
| "base64 [a, b] = [b64 (a div 4), b64 (a mod 4 * 16 + b div 16), b64 (b mod 16 * 4), CHR ''='']"
| "base64 (a # b # c # rest) =
     [b64 (a div 4), b64 (a mod 4 * 16 + b div 16), b64 (b mod 16 * 4 + c div 64), b64 (c mod 64)]
     @ base64 rest"

text \<open>The encoder allocates the encoded text too.\<close>

definition EncodedLen :: "int \<Rightarrow> int" where
  "EncodedLen n = 4 * ((n + 2) div 3)"

definition randomBase64 :: "int \<Rightarrow> string rnd" where
  "randomBase64 n r =
     (if make_ok 1 n then do {
        (b, r) \<leftarrow> rfill (nat n) (intn 256) r;
        if make_ok 1 (EncodedLen n) then Some (base64 (map nat b), r) else None
      } else None)"

text \<open>The slice expression \<open>s[:n]\<close> panics when \<open>n\<close> exceeds the length.\<close>

definition randomBase64Exact :: "int \<Rightarrow> string rnd" where
  "randomBase64Exact n r =
     (if n \<le> 0 then Some ([], r)
      else do {
        (s, r) \<leftarrow> randomBase64 (i64 (quot (i64 (n * 3)) 4 + 3)) r;
        if n \<le> int (length s) then Some (take (nat n) s, r) else None
      })"

section \<open>Total correctness\<close>

definition yields :: "('a \<Rightarrow> bool) \<Rightarrow> 'a rnd \<Rightarrow> bool" where
  "yields P m \<longleftrightarrow> (\<forall>r. \<exists>x r'. m r = Some (x, r') \<and> P x)"

named_theorems yields_rules "total correctness of random computations"

lemma yields_bind:
  assumes "yields P m" and "\<And>x. P x \<Longrightarrow> yields Q (f x)"
  shows "yields Q (\<lambda>r. Option.bind (m r) (\<lambda>(x, r'). f x r'))"
  unfolding yields_def
proof
  fix r
  obtain x r' where "m r = Some (x, r')" "P x" using assms(1) unfolding yields_def by blast
  moreover then obtain y r'' where "f x r' = Some (y, r'')" "Q y"
    using assms(2) unfolding yields_def by blast
  ultimately show "\<exists>y r'. Option.bind (m r) (\<lambda>(x, r'). f x r') = Some (y, r') \<and> Q y" by auto
qed

lemma yields_return: "P x \<Longrightarrow> yields P (\<lambda>r. Some (x, r))"
  by (simp add: yields_def)

lemma yields_mono: "yields P m \<Longrightarrow> (\<And>x. P x \<Longrightarrow> Q x) \<Longrightarrow> yields Q m"
  unfolding yields_def by blast

lemma yields_Some: "yields P m \<Longrightarrow> \<exists>x r'. m r = Some (x, r') \<and> P x"
  by (simp add: yields_def)

lemma yields_SomeD: "yields P m \<Longrightarrow> m r = Some (x, r') \<Longrightarrow> P x"
  unfolding yields_def by (metis option.inject prod.inject)

lemma yields_intn [yields_rules]: "0 < n \<Longrightarrow> yields (\<lambda>i. 0 \<le> i \<and> i < n) (intn n)"
  by (simp add: yields_def intn_def)

lemma yields_rpick [yields_rules]: "xs \<noteq> [] \<Longrightarrow> yields (\<lambda>x. x \<in> set xs) (rpick xs)"
  unfolding rpick_def [abs_def]
  by (rule yields_bind [OF yields_intn]) (auto intro!: yields_return)

lemma yields_rfill [yields_rules]:
  "yields P m \<Longrightarrow> yields (\<lambda>xs. length xs = n \<and> (\<forall>x \<in> set xs. P x)) (rfill n m)"
proof (induction n)
  case 0
  then show ?case by (simp add: yields_def)
next
  case (Suc n)
  have "yields (\<lambda>xs. length xs = Suc n \<and> (\<forall>x \<in> set xs. P x))
    (\<lambda>r. Option.bind (m r) (\<lambda>(x, r). Option.bind (rfill n m r) (\<lambda>(xs, r). Some (x # xs, r))))"
    by (rule yields_bind [OF Suc.prems], rule yields_bind [OF Suc.IH [OF Suc.prems]])
       (auto intro!: yields_return)
  then show ?case by (simp add: yields_def)
qed

section \<open>Characters\<close>

definition is_hex :: "char \<Rightarrow> bool" where
  "is_hex c \<longleftrightarrow> c \<in> set ''0123456789abcdef''"

lemma hex_char_is_hex: "d < 16 \<Longrightarrow> is_hex (hex_char d)"
proof -
  assume "d < 16"
  then have "d \<in> set [0..<16]" by simp
  moreover have "\<forall>d \<in> set [0..<16]. is_hex (hex_char d)"
    by (simp add: upt_rec is_hex_def hex_char_def) (simp add: char_of_def bit_Suc_0_iff)
  ultimately show ?thesis by blast
qed

lemma hex_digits_is_hex: "\<forall>c \<in> set (hex_digits k n). is_hex c"
  by (induction k arbitrary: n) (auto simp: hex_char_is_hex)

lemma yields_rhex16 [yields_rules]: "yields (\<lambda>s. length s = 16 \<and> (\<forall>c \<in> set s. is_hex c)) rhex16"
  by (auto simp: yields_def rhex16_def int63_def hex16_def hex_digits_is_hex)

definition in_charset :: "string \<Rightarrow> bool" where
  "in_charset s \<longleftrightarrow> set s \<subseteq> set charset"

lemma yields_randomString [yields_rules]:
  assumes "0 \<le> mn" "mn \<le> mx" "mx \<le> 2 ^ 47"
  shows "yields (\<lambda>s. in_charset s \<and> mn \<le> int (length s) \<and> int (length s) \<le> mx) (randomString mn mx)"
proof -
  have w: "i64 (mx - mn + 1) = mx - mn + 1" using assms by (intro i64_nonneg) simp_all
  have c: "charset \<noteq> []" by (simp add: charset_def)
  have n: "i64 (mn + k) = mn + k \<and> make_ok 1 (mn + k)" if "0 \<le> k \<and> k < mx - mn + 1" for k
    using that assms by (auto intro!: i64_nonneg simp: make_ok_def maxAlloc_def)
  show ?thesis
    unfolding randomString_def [abs_def] w Let_def
    using assms
    by (intro yields_bind [OF yields_intn])
       (auto simp: n in_charset_def intro!: yields_mono [OF yields_rfill [OF yields_rpick [OF c]]])
qed

definition in_b64 :: "string \<Rightarrow> bool" where
  "in_b64 s \<longleftrightarrow> set s \<subseteq> insert (CHR ''='') (set b64_alphabet)"

lemma b64_in: "b64 n \<in> set b64_alphabet"
  unfolding b64_def by (rule nth_mem) (simp add: b64_alphabet_def)

lemma base64_in: "in_b64 (base64 bs)"
  by (induction bs rule: base64.induct) (auto simp: in_b64_def b64_in)

lemma length_base64: "length (base64 bs) = 4 * ((length bs + 2) div 3)"
proof (induction bs rule: base64.induct)
  case (4 a b c rest)
  then show ?case using div_add_self1 [of 3 "length rest + 2"] by (simp add: add.commute)
qed auto

lemma yields_randomBase64 [yields_rules]:
  assumes "0 \<le> n" "n \<le> 2 ^ 47"
  shows "yields (\<lambda>s. in_b64 s \<and> length s = 4 * ((nat n + 2) div 3)) (randomBase64 n)"
proof -
  have "EncodedLen n \<le> maxAlloc" "0 \<le> EncodedLen n" "n \<le> maxAlloc"
    using assms by (auto simp: EncodedLen_def maxAlloc_def)
  then have "make_ok 1 n" "make_ok 1 (EncodedLen n)" using assms(1) by (simp_all add: make_ok_def)
  then show ?thesis
    unfolding randomBase64_def [abs_def]
    by (simp, intro yields_bind [OF yields_rfill [OF yields_intn]])
       (auto intro!: yields_return simp: base64_in length_base64)
qed

lemma yields_randomBase64Exact [yields_rules]:
  assumes "0 < n" "n < 2 ^ 46"
  shows "yields (\<lambda>s. in_b64 s \<and> int (length s) = n) (randomBase64Exact n)"
proof -
  have a: "i64 (n * 3) = n * 3" using assms by (intro i64_nonneg) simp_all
  have b: "quot (n * 3) 4 = n * 3 div 4" using assms by (intro quot_nonneg) simp_all
  have c: "i64 (n * 3 div 4 + 3) = n * 3 div 4 + 3" using assms by (intro i64_nonneg) simp_all
  have "n \<le> 4 * ((n * 3 div 4 + 3 + 2) div 3)" using assms by linarith
  then have len: "n \<le> int (4 * ((nat (n * 3 div 4 + 3) + 2) div 3))"
    using assms by (simp add: zdiv_int nat_add_distrib pos_imp_zdiv_nonneg_iff)
  have p: "0 \<le> n * 3 div 4 + 3" "n * 3 div 4 + 3 \<le> 2 ^ 47" using assms by simp_all
  have "yields (\<lambda>s. in_b64 s \<and> int (length s) = n)
    (\<lambda>r. Option.bind (randomBase64 (n * 3 div 4 + 3) r)
      (\<lambda>(s, r). if n \<le> int (length s) then Some (take (nat n) s, r) else None))"
    using len assms(1)
    by (intro yields_bind [OF yields_randomBase64 [OF p]])
       (auto simp: yields_def in_b64_def dest: in_set_takeD)
  then show ?thesis using assms(1) unfolding randomBase64Exact_def [abs_def] a b c by simp
qed

end
