(* ===== verification/Payload.thy ===== *)
theory Payload
  imports Randomness Float64 Config
begin

text \<open>
  JSON payloads: \<open>workload/payload.go\<close> and the part of \<open>encoding/json\<close> and \<open>strconv\<close> it uses.

  Documents are values of \<open>json\<close>, printed by \<open>Marshal\<close> with the keys of every object in
  increasing order, as Go prints maps. All strings of the program are ASCII, so \<open>escape\<close>
  treats that range only. Function calls in a composite literal are evaluated in the order
  of the text. \<open>rand.NewSource\<close> is a map from seeds to tapes, over which every theorem
  quantifies.
\<close>

section \<open>Printing JSON\<close>

datatype json =
    JStr string
  | JInt int
  | JNum float64
  | JArr "json list"
  | JObj "(string \<times> json) list"

definition escape :: "char \<Rightarrow> string" where
  "escape c =
     (let n = of_char c :: nat in
      if n = 34 \<or> n = 92 then [CHR 0x5C, c]
      else if n = 8 then [CHR 0x5C, CHR ''b'']
      else if n = 12 then [CHR 0x5C, CHR ''f'']
      else if n = 10 then [CHR 0x5C, CHR ''n'']
      else if n = 13 then [CHR 0x5C, CHR ''r'']
      else if n = 9 then [CHR 0x5C, CHR ''t'']
      else if n < 32 \<or> n = 60 \<or> n = 62 \<or> n = 38 then
        [CHR 0x5C, CHR ''u'', CHR ''0'', CHR ''0''] @ hex_digits 2 n
      else [c])"

definition quote :: "string \<Rightarrow> string" where
  "quote s = CHR 0x22 # concat (map escape s) @ [CHR 0x22]"

text \<open>Shortest decimal that reads back as the double: \<open>scale10\<close> finds the position of the
  decimal point (400 steps cover the range of doubles), \<open>shortest\<close> the number of digits.\<close>

fun scale10 :: "nat \<Rightarrow> rat \<Rightarrow> int \<Rightarrow> int" where
  "scale10 0 x e = e"
| "scale10 (Suc n) x e =
     (if 1 \<le> x then scale10 n (x / 10) (e + 1) else if x < 1 / 10 then scale10 n (x * 10) (e - 1) else e)"

definition reads_back :: "rat \<Rightarrow> int \<Rightarrow> int \<Rightarrow> bool" where
  "reads_back x c q \<longleftrightarrow> rne (of_int c * 10 powi q) = x"

fun shortest :: "nat \<Rightarrow> nat \<Rightarrow> rat \<Rightarrow> int \<Rightarrow> int \<times> int" where
  "shortest 0 p x dp = (\<lfloor>x * 10 powi (int p - dp)\<rfloor>, dp - int p)"
| "shortest (Suc n) p x dp =
     (let y = x * 10 powi (int p - dp);
          lo = reads_back x \<lfloor>y\<rfloor> (dp - int p);
          hi = reads_back x \<lceil>y\<rceil> (dp - int p)
      in if lo \<and> (\<not> hi \<or> y - of_int \<lfloor>y\<rfloor> \<le> of_int \<lceil>y\<rceil> - y) then (\<lfloor>y\<rfloor>, dp - int p)
         else if hi then (\<lceil>y\<rceil>, dp - int p)
         else shortest n (Suc p) x dp)"

fun strip_zeros :: "nat \<Rightarrow> nat \<Rightarrow> int \<Rightarrow> nat \<times> int" where
  "strip_zeros 0 c q = (c, q)"
| "strip_zeros (Suc n) c q = (if c \<noteq> 0 \<and> c mod 10 = 0 then strip_zeros n (c div 10) (q + 1) else (c, q))"

definition fmt_f :: "nat \<Rightarrow> int \<Rightarrow> string" where
  "fmt_f c q =
     (let ds = nat_digits c in
      if 0 \<le> q then ds @ replicate (nat q) (CHR ''0'')
      else let k = nat (- q) in
           if k < length ds then take (length ds - k) ds @ ''.'' @ drop (length ds - k) ds
           else ''0.'' @ replicate (k - length ds) (CHR ''0'') @ ds)"

definition fmt_e :: "nat \<Rightarrow> int \<Rightarrow> string" where
  "fmt_e c q =
     (let ds = nat_digits c; e = q + int (length ds) - 1
      in take 1 ds @ (if length ds > 1 then ''.'' @ drop 1 ds else []) @ ''e'' @
         (if e < 0 then ''-'' else ''+'') @ nat_digits (nat \<bar>e\<bar>))"

definition fmt_float :: "float64 \<Rightarrow> string" where
  "fmt_float f =
     (let x = \<bar>f\<bar> in
      if x = 0 then ''0''
      else let (c, q) = shortest 17 1 x (scale10 400 x 0);
               (c', q') = strip_zeros 20 (nat c) q
           in (if f < 0 then ''-'' else []) @
              (if x < 1 / 10 ^ 6 \<or> 10 ^ 21 \<le> x then fmt_e c' q' else fmt_f c' q'))"

fun join :: "string list \<Rightarrow> string" where
  "join [] = []"
| "join [s] = s"
| "join (s # t # ss) = s @ '','' @ join (t # ss)"

fun Marshal :: "json \<Rightarrow> string" where
  "Marshal (JStr s) = quote s"
| "Marshal (JInt n) = itoa n"
| "Marshal (JNum x) = fmt_float x"
| "Marshal (JArr xs) = ''['' @ join (map Marshal xs) @ '']''"
| "Marshal (JObj kvs) =
     ''{'' @ join (map (\<lambda>(k, s). quote k @ '':'' @ s) (sort_key fst (map (\<lambda>(k, v). (k, Marshal v)) kvs))) @ ''}''"

text \<open>\<open>bytes.Index\<close>: \<open>None\<close> is \<open>-1\<close>.\<close>

fun bytes_Index :: "string \<Rightarrow> string \<Rightarrow> nat option" where
  "bytes_Index pat [] = (if pat = [] then Some 0 else None)"
| "bytes_Index pat (c # cs) =
     (if take (length pat) (c # cs) = pat then Some 0 else map_option Suc (bytes_Index pat cs))"

section \<open>Building templates\<close>

abbreviation templatePoolSize :: nat where "templatePoolSize \<equiv> 100"

definition trace_marker :: string where
  \<open>trace_marker = ''"trace_id":"''\<close>

definition nonce_marker :: string where
  \<open>nonce_marker = ''"_nonce":"''\<close>

definition find_marker :: "string \<Rightarrow> string \<Rightarrow> int" where
  "find_marker marker data =
     (case bytes_Index marker data of None \<Rightarrow> - 1 | Some idx \<Rightarrow> int idx + int (length marker))"

definition findTraceIDOffset :: "string \<Rightarrow> int" where
  "findTraceIDOffset data = find_marker trace_marker data"

definition findAuditNonceOffset :: "string \<Rightarrow> int" where
  "findAuditNonceOffset data = find_marker nonce_marker data"

definition methods :: "string list" where
  "methods = [''GET'', ''POST'', ''PUT'', ''DELETE'', ''PATCH'']"

definition statuses :: "int list" where
  "statuses = [200, 201, 400, 404, 500]"

text \<open>A map filled by a loop over \<open>i\<close>: the keys \<open>prefix0\<close>, \<open>prefix1\<close>, ...\<close>

definition numbered :: "string \<Rightarrow> (string \<Rightarrow> json) \<Rightarrow> string list \<Rightarrow> json" where
  "numbered pre f vs = JObj (map (\<lambda>(i, v). (pre @ itoa (int i), f v)) (enumerate 0 vs))"

definition buildRequest :: "int \<Rightarrow> json rnd" where
  "buildRequest bodyKB r = do {
     (hs, r) \<leftarrow> rfill 25 (randomString 20 60) r;
     (method, r) \<leftarrow> rpick methods r;
     (path, r) \<leftarrow> rpick [''/api/v2/users'', ''/api/v2/sessions'', ''/api/v2/events'', ''/api/v2/reports'', ''/api/v2/metrics''] r;
     (body, r) \<leftarrow> randomBase64 (quot (i64 (bodyKB * 1024 * 3)) 4) r;
     Some (JObj [(''method'', JStr method), (''path'', JStr path),
                 (''headers'', numbered ''X-Header-'' JStr hs), (''body'', JStr body)], r)
   }"

definition buildResponse :: "int \<Rightarrow> json rnd" where
  "buildResponse bodyKB r = do {
     (hs, r) \<leftarrow> rfill 15 (randomString 10 40) r;
     (status, r) \<leftarrow> rpick statuses r;
     (body, r) \<leftarrow> randomBase64 (quot (i64 (bodyKB * 1024 * 3)) 4) r;
     Some (JObj [(''status'', JInt status), (''headers'', numbered ''X-Resp-Header-'' JStr hs), (''body'', JStr body)], r)
   }"

definition stack_frame :: "json rnd" where
  "stack_frame r = do {
     (a, r) \<leftarrow> randomString 5 15 r;
     (b, r) \<leftarrow> randomString 5 15 r;
     (c, r) \<leftarrow> randomString 5 15 r;
     (n, r) \<leftarrow> intn 500 r;
     Some (JStr (''at '' @ a @ ''.'' @ b @ '' ('' @ c @ ''.go'' @ '':'' @ itoa (n + 1) @ '')''), r)
   }"

definition buildStackTrace :: "json rnd" where
  "buildStackTrace r = do {
     (k, r) \<leftarrow> intn 21 r;
     (frames, r) \<leftarrow> rfill (nat (20 + k)) stack_frame r;
     Some (JArr frames, r)
   }"

definition buildTags :: "json rnd" where
  "buildTags r = do {
     (k, r) \<leftarrow> intn 51 r;
     (tags, r) \<leftarrow> rfill (nat (50 + k)) (randomString 5 20) r;
     Some (JArr (map JStr tags), r)
   }"

text \<open>\<open>rng.Float64() * 1000\<close>.\<close>

definition metric_value :: "float64 rnd" where
  "metric_value r = Some (fmul (fdiv (f64_of_int (int (shd r mod 2 ^ 53))) (2 ^ 53)) 1000, stl r)"

definition buildMetrics :: "json rnd" where
  "buildMetrics r = do {
     (vs, r) \<leftarrow> rfill 40 metric_value r;
     Some (JObj (map (\<lambda>(i, v). (''metric_'' @ itoa (int i), JNum v)) (enumerate 0 vs)), r)
   }"

definition buildContext :: "json rnd" where
  "buildContext r = do {
     (v1, r) \<leftarrow> randomString 10 30 r;
     (v2, r) \<leftarrow> randomString 10 30 r;
     (v3, r) \<leftarrow> randomString 10 30 r;
     (d3, r) \<leftarrow> randomString 50 100 r;
     Some (JObj [(''level1'', JObj [(''value'', JStr v1),
             (''level2'', JObj [(''value'', JStr v2),
               (''level3'', JObj [(''value'', JStr v3), (''data'', JStr d3)])])])], r)
   }"

definition body_budget :: "int \<Rightarrow> int \<times> int" where
  "body_budget targetKB =
     (let bodyBudgetKB = i64 (targetKB - 4);
          bodyBudgetKB = (if bodyBudgetKB < 1 then 1 else bodyBudgetKB);
          reqBodyKB = quot (i64 (bodyBudgetKB * 3)) 5;
          reqBodyKB = (if reqBodyKB < 1 then 1 else reqBodyKB);
          respBodyKB = bodyBudgetKB - reqBodyKB;
          respBodyKB = (if respBodyKB < 1 then 1 else respBodyKB)
      in (reqBodyKB, respBodyKB))"

definition template_doc :: "int \<Rightarrow> int \<Rightarrow> json rnd" where
  "template_doc minKB maxKB r = do {
     (k, r) \<leftarrow> intn (i64 (maxKB - minKB + 1)) r;
     let (reqBodyKB, respBodyKB) = body_budget (minKB + k);
     (request, r) \<leftarrow> buildRequest reqBodyKB r;
     (response, r) \<leftarrow> buildResponse respBodyKB r;
     (stack_trace, r) \<leftarrow> buildStackTrace r;
     (tags, r) \<leftarrow> buildTags r;
     (mets, r) \<leftarrow> buildMetrics r;
     (context, r) \<leftarrow> buildContext r;
     (a, r) \<leftarrow> rhex16 r;
     (b, r) \<leftarrow> rhex16 r;
     Some (JObj [(''request'', request), (''response'', response), (''stack_trace'', stack_trace),
                 (''tags'', tags), (''metrics'', mets), (''context'', context),
                 (''trace_id'', JStr (a @ b))], r)
   }"

definition buildTemplate :: "int \<Rightarrow> int \<Rightarrow> (string \<times> int) rnd" where
  "buildTemplate minKB maxKB r = do {
     (doc, r) \<leftarrow> template_doc minKB maxKB r;
     let data = Marshal doc;
     Some ((data, findTraceIDOffset data), r)
   }"

text \<open>The diff of an audit record, without and with the padding.\<close>

definition audit_fields :: "string \<Rightarrow> string \<Rightarrow> string \<Rightarrow> string \<Rightarrow> (string \<times> json) list" where
  "audit_fields nonce mb ma ctx =
     [(''_nonce'', JStr nonce),
      (''before'', JObj [(''status'', JStr ''active''), (''metadata'', JStr mb)]),
      (''after'', JObj [(''status'', JStr ''closed''), (''metadata'', JStr ma)]),
      (''changed_fields'', JArr [JStr ''status'', JStr ''metadata'', JStr ''ended_at'']),
      (''context'', JStr ctx)]"

definition audit_doc :: "json rnd" where
  "audit_doc r = do {
     (nonce, r) \<leftarrow> rhex16 r;
     (mb, r) \<leftarrow> randomString 50 100 r;
     (ma, r) \<leftarrow> randomString 50 100 r;
     (ctx, r) \<leftarrow> randomString 100 200 r;
     let diff = audit_fields nonce mb ma ctx;
     let data = Marshal (JObj diff);
     (k, r) \<leftarrow> intn 3 r;
     let targetSize = (2 + k) * 1024;
     let padLen = targetSize - int (length data) - 12;
     if padLen > 0 then do {
       (pad, r) \<leftarrow> randomBase64Exact padLen r;
       Some (JObj (diff @ [(''_pad'', JStr pad)]), r)
     } else Some (JObj diff, r)
   }"

definition buildAuditTemplate :: "(string \<times> int) rnd" where
  "buildAuditTemplate r = do {
     (doc, r) \<leftarrow> audit_doc r;
     let data = Marshal doc;
     Some ((data, findAuditNonceOffset data), r)
   }"

definition small_payload_doc :: "json rnd" where
  "small_payload_doc r = do {
     (k, r) \<leftarrow> intn 769 r;
     (method, r) \<leftarrow> rpick methods r;
     (path, r) \<leftarrow> rpick [''/api/v2/users'', ''/api/v2/sessions'', ''/api/v2/events''] r;
     (status, r) \<leftarrow> rpick statuses r;
     (tags, r) \<leftarrow> rfill 3 (randomString 5 20) r;
     (body, r) \<leftarrow> randomBase64 (128 + k) r;
     (a, r) \<leftarrow> rhex16 r;
     (b, r) \<leftarrow> rhex16 r;
     Some (JObj [(''method'', JStr method), (''path'', JStr path), (''status'', JInt status),
                 (''tags'', JArr (map JStr tags)), (''body'', JStr body),
                 (''trace_id'', JStr (a @ b))], r)
   }"

definition buildSmallPayloadTemplate :: "(string \<times> int) rnd" where
  "buildSmallPayloadTemplate r = do {
     (doc, r) \<leftarrow> small_payload_doc r;
     let data = Marshal doc;
     Some ((data, findTraceIDOffset data), r)
   }"

definition small_audit_doc :: "json rnd" where
  "small_audit_doc r = do {
     (nonce, r) \<leftarrow> rhex16 r;
     (mb, r) \<leftarrow> randomString 50 100 r;
     (ma, r) \<leftarrow> randomString 50 100 r;
     (k, r) \<leftarrow> intn 513 r;
     (ctx, r) \<leftarrow> randomBase64 (128 + k) r;
     Some (JObj [(''_nonce'', JStr nonce),
       (''before'', JObj [(''status'', JStr ''active''), (''metadata'', JStr mb)]),
       (''after'', JObj [(''status'', JStr ''closed''), (''metadata'', JStr ma)]),
       (''changed_fields'', JArr [JStr ''status'', JStr ''metadata'']),
       (''context'', JStr ctx)], r)
   }"

definition buildSmallAuditTemplate :: "(string \<times> int) rnd" where
  "buildSmallAuditTemplate r = do {
     (doc, r) \<leftarrow> small_audit_doc r;
     let data = Marshal doc;
     Some ((data, findAuditNonceOffset data), r)
   }"

section \<open>The pools\<close>

record Templates =
  sessionTemplatePool :: "string list"
  sessionTraceIDOffsets :: "int list"
  eventTemplatePool :: "string list"
  eventTraceIDOffsets :: "int list"
  auditTemplatePool :: "string list"
  auditNonceOffsets :: "int list"
  smallPayloadPool :: "string list"
  smallPayloadOffsets :: "int list"
  smallAuditPool :: "string list"
  smallAuditOffsets :: "int list"
  toastPct :: int

text \<open>One pass of the loop in \<open>init\<close>.\<close>

definition init_entry ::
  "(int \<Rightarrow> rng) \<Rightarrow> nat \<Rightarrow> ((string \<times> int) \<times> (string \<times> int) \<times> (string \<times> int) \<times> (string \<times> int)) option" where
  "init_entry src i = do {
     (s, _) \<leftarrow> buildTemplate 4 8 (src (int i));
     (a, _) \<leftarrow> buildAuditTemplate (src (int i + 2 * int templatePoolSize));
     (p, _) \<leftarrow> buildSmallPayloadTemplate (src (int i + 3 * int templatePoolSize));
     (sa, _) \<leftarrow> buildSmallAuditTemplate (src (int i + 4 * int templatePoolSize));
     Some (s, a, p, sa)
   }"

text \<open>The package variables before \<open>init\<close> are arrays of zero values.\<close>

definition payload_init :: "(int \<Rightarrow> rng) \<Rightarrow> Templates option" where
  "payload_init src = do {
     es \<leftarrow> those (map (init_entry src) [0..<templatePoolSize]);
     Some \<lparr>sessionTemplatePool = map (\<lambda>(s, a, p, sa). fst s) es,
           sessionTraceIDOffsets = map (\<lambda>(s, a, p, sa). snd s) es,
           eventTemplatePool = replicate templatePoolSize [],
           eventTraceIDOffsets = replicate templatePoolSize 0,
           auditTemplatePool = map (\<lambda>(s, a, p, sa). fst a) es,
           auditNonceOffsets = map (\<lambda>(s, a, p, sa). snd a) es,
           smallPayloadPool = map (\<lambda>(s, a, p, sa). fst p) es,
           smallPayloadOffsets = map (\<lambda>(s, a, p, sa). snd p) es,
           smallAuditPool = map (\<lambda>(s, a, p, sa). fst sa) es,
           smallAuditOffsets = map (\<lambda>(s, a, p, sa). snd sa) es,
           toastPct = 100\<rparr>
   }"

definition event_entry :: "(int \<Rightarrow> rng) \<Rightarrow> int \<Rightarrow> int \<Rightarrow> nat \<Rightarrow> (string \<times> int) option" where
  "event_entry src minKB maxKB i = map_option fst (buildTemplate minKB maxKB (src (int i + int templatePoolSize)))"

definition InitEventPool :: "(int \<Rightarrow> rng) \<Rightarrow> int \<Rightarrow> int \<Rightarrow> Templates \<Rightarrow> Templates option" where
  "InitEventPool src minKB maxKB t = do {
     es \<leftarrow> those (map (event_entry src minKB maxKB) [0..<templatePoolSize]);
     Some (t\<lparr>eventTemplatePool := map fst es, eventTraceIDOffsets := map snd es\<rparr>)
   }"

definition SetToastPct :: "int \<Rightarrow> Templates \<Rightarrow> Templates" where
  "SetToastPct pct t = t\<lparr>toastPct := pct\<rparr>"

definition isLarge :: "Templates \<Rightarrow> bool rnd" where
  "isLarge t r = do { (k, r) \<leftarrow> intn 100 r; Some (k < toastPct t, r) }"

definition hexChars :: string where "hexChars = ''0123456789abcdef''"

text \<open>\<open>mutatedPayload\<close>: an index beyond the arrays panics.\<close>

definition mutatedPayload :: "string list \<Rightarrow> int list \<Rightarrow> string rnd" where
  "mutatedPayload pool offsets r = do {
     (idx, r) \<leftarrow> intn (int templatePoolSize) r;
     if length pool \<le> nat idx \<or> length offsets \<le> nat idx then None
     else do {
       let buf = pool ! nat idx;
       let offset = offsets ! nat idx;
       if 0 \<le> offset \<and> offset + 16 \<le> int (length buf) then do {
         (hs, r) \<leftarrow> rfill 16 (rpick hexChars) r;
         Some (take (nat offset) buf @ hs @ drop (nat offset + 16) buf, r)
       } else Some (buf, r)
     }
   }"

definition GetSessionPayload :: "Templates \<Rightarrow> string rnd" where
  "GetSessionPayload t r = do {
     (large, r) \<leftarrow> isLarge t r;
     if large then mutatedPayload (sessionTemplatePool t) (sessionTraceIDOffsets t) r
     else mutatedPayload (smallPayloadPool t) (smallPayloadOffsets t) r
   }"

definition GetEventPayload :: "Templates \<Rightarrow> string rnd" where
  "GetEventPayload t r = do {
     (large, r) \<leftarrow> isLarge t r;
     if large then mutatedPayload (eventTemplatePool t) (eventTraceIDOffsets t) r
     else mutatedPayload (smallPayloadPool t) (smallPayloadOffsets t) r
   }"

definition GetAuditDiff :: "Templates \<Rightarrow> string rnd" where
  "GetAuditDiff t r = do {
     (large, r) \<leftarrow> isLarge t r;
     if large then mutatedPayload (auditTemplatePool t) (auditNonceOffsets t) r
     else mutatedPayload (smallAuditPool t) (smallAuditOffsets t) r
   }"

section \<open>Specification\<close>

text \<open>Replacing the string value of a field.\<close>

fun set_field :: "string \<Rightarrow> string \<Rightarrow> json \<Rightarrow> json" where
  "set_field k s (JObj kvs) = JObj (map (\<lambda>(k', v). if k' = k then (k', JStr s) else (k', v)) kvs)"
| "set_field k s v = v"

abbreviation all_hex :: "string \<Rightarrow> bool" where
  "all_hex h \<equiv> \<forall>c \<in> set h. is_hex c"

text \<open>The text of a document from \<open>off\<close> on is the value of its field \<open>k\<close>: hexadecimal, and
  replaceable in place by any other hexadecimal value.\<close>

definition mutable_doc :: "string \<Rightarrow> json \<Rightarrow> int \<Rightarrow> bool" where
  "mutable_doc k doc off \<longleftrightarrow>
     (\<exists>pre h post. off = int (length pre) \<and> 16 \<le> length h \<and> all_hex h \<and> Marshal doc = pre @ h @ post \<and>
        (\<forall>h'. all_hex h' \<longrightarrow> Marshal (set_field k h' doc) = pre @ h' @ post))"

definition template_ok :: "string \<Rightarrow> string \<times> int \<Rightarrow> bool" where
  "template_ok k e \<longleftrightarrow> (\<exists>doc. fst e = Marshal doc \<and> mutable_doc k doc (snd e))"

text \<open>\<open>v\<close> is the text of the template's document with a fresh hexadecimal value in field \<open>k\<close>.\<close>

definition rewritten :: "string \<Rightarrow> string \<Rightarrow> string \<Rightarrow> bool" where
  "rewritten k d v \<longleftrightarrow>
     (\<exists>kvs h. d = Marshal (JObj kvs) \<and> k \<in> fst ` set kvs \<and> all_hex h \<and> v = Marshal (set_field k h (JObj kvs))) \<and>
     length v = length d"

section \<open>Lemmas\<close>

subsection \<open>Plain characters\<close>

definition plain :: "string \<Rightarrow> bool" where
  "plain s \<longleftrightarrow> (\<forall>c \<in> set s. escape c = [c])"

lemma escape_id:
  assumes "32 \<le> (of_char c :: nat)" "(of_char c :: nat) \<notin> {34, 38, 60, 62, 92}"
  shows "escape c = [c]"
  using assms by (simp add: escape_def Let_def)

lemma plain_Nil [simp]: "plain []"
  by (simp add: plain_def)

lemma plain_Cons [simp]: "plain (c # s) \<longleftrightarrow> escape c = [c] \<and> plain s"
  by (simp add: plain_def)

lemma plain_append [simp]: "plain (s @ t) \<longleftrightarrow> plain s \<and> plain t"
  by (auto simp: plain_def)

lemma quote_plain: "plain s \<Longrightarrow> quote s = CHR 0x22 # s @ [CHR 0x22]"
proof -
  assume "plain s"
  then have "concat (map escape s) = s" by (induction s) (auto simp: plain_def)
  then show ?thesis by (simp add: quote_def)
qed

lemma plain_subset: "set s \<subseteq> set t \<Longrightarrow> plain t \<Longrightarrow> plain s"
  by (auto simp: plain_def)

lemma plain_charset: "plain charset" and plain_b64: "plain (CHR ''='' # b64_alphabet)"
  and plain_hex: "plain hexChars" and plain_digits: "plain ''0123456789''"
  by (simp_all add: charset_def b64_alphabet_def hexChars_def escape_id)

lemma no_underscore: "CHR ''_'' \<notin> set charset" "CHR ''_'' \<notin> set (CHR ''='' # b64_alphabet)"
    "CHR ''_'' \<notin> set hexChars"
  by (simp_all add: charset_def b64_alphabet_def hexChars_def)

lemma in_charset_plain: "in_charset s \<Longrightarrow> plain s \<and> CHR ''_'' \<notin> set s"
  using plain_subset [OF _ plain_charset] no_underscore(1) by (auto simp: in_charset_def)

lemma in_b64_plain: "in_b64 s \<Longrightarrow> plain s \<and> CHR ''_'' \<notin> set s"
proof -
  assume "in_b64 s"
  then have "set s \<subseteq> set (CHR ''='' # b64_alphabet)" by (simp add: in_b64_def)
  then show ?thesis using plain_subset [OF _ plain_b64] no_underscore(2) by blast
qed

lemma all_hex_plain: "all_hex h \<Longrightarrow> plain h \<and> CHR ''_'' \<notin> set h"
proof -
  assume "all_hex h"
  then have "set h \<subseteq> set hexChars" unfolding is_hex_def hexChars_def by blast
  then show ?thesis using plain_subset [OF _ plain_hex] no_underscore(3) by blast
qed

lemma digits_no_underscore [simp]: "CHR ''_'' \<notin> set (nat_digits n)" "CHR ''_'' \<notin> set (itoa z)"
proof -
  show "CHR ''_'' \<notin> set (nat_digits n)" for n using nat_digits_digits [of n] by (auto simp: is_digit_def)
  then show "CHR ''_'' \<notin> set (itoa z)" by (auto simp: itoa_def)
qed

lemma fmt_float_no_underscore [simp]: "CHR ''_'' \<notin> set (fmt_float x)"
proof -
  have f: "CHR ''_'' \<notin> set (fmt_f c q)" for c q
    using digits_no_underscore(1) [of c] by (auto simp: fmt_f_def Let_def dest: in_set_takeD in_set_dropD)
  have e: "CHR ''_'' \<notin> set (fmt_e c q)" for c q
    using digits_no_underscore(1) [of c] by (auto simp: fmt_e_def Let_def dest: in_set_takeD in_set_dropD)
  show ?thesis by (simp add: fmt_float_def Let_def split_def f e)
qed

subsection \<open>Texts in which the marker cannot begin\<close>

text \<open>Every underscore is followed by a character other than \<open>i\<close>.\<close>

fun safe :: "string \<Rightarrow> bool" where
  "safe [] = True"
| "safe (c # cs) = ((c = CHR ''_'' \<longrightarrow> (case cs of [] \<Rightarrow> False | d # _ \<Rightarrow> d \<noteq> CHR ''i'')) \<and> safe cs)"

lemma safe_append [simp]: "safe xs \<Longrightarrow> safe ys \<Longrightarrow> safe (xs @ ys)"
  by (induction xs) (auto split: list.splits)

lemma safe_plain: "CHR ''_'' \<notin> set s \<Longrightarrow> safe s"
  by (induction s) auto

lemma safe_join: "\<forall>s \<in> set ss. safe s \<Longrightarrow> safe (join ss)"
  by (induction ss rule: join.induct) auto

lemma safe_JArr: "(\<And>x. x \<in> set xs \<Longrightarrow> safe (Marshal x)) \<Longrightarrow> safe (Marshal (JArr xs))"
  by (auto intro!: safe_append safe_join)

lemma safe_JObj:
  assumes "\<And>k v. (k, v) \<in> set kvs \<Longrightarrow> safe (quote k) \<and> safe (Marshal v)"
  shows "safe (Marshal (JObj kvs))"
proof -
  have "\<forall>s \<in> set (map (\<lambda>(k, s). quote k @ '':'' @ s) (sort_key fst (map (\<lambda>(k, v). (k, Marshal v)) kvs))). safe s"
    using assms by fastforce
  from safe_join [OF this] show ?thesis by simp
qed

lemma safe_quote: "plain s \<Longrightarrow> safe s \<Longrightarrow> safe (quote s)"
  using safe_append [of s "[CHR 0x22]"] by (auto simp: quote_plain)

lemma safe_JStr: "plain s \<Longrightarrow> CHR ''_'' \<notin> set s \<Longrightarrow> safe (Marshal (JStr s))"
  by (simp add: safe_quote safe_plain)

lemma safe_JInt: "safe (Marshal (JInt n))" and safe_JNum: "safe (Marshal (JNum x))"
  by (simp_all add: safe_plain)

lemma safe_nth: "safe s \<Longrightarrow> Suc i < length s \<Longrightarrow> s ! i = CHR ''_'' \<Longrightarrow> s ! Suc i \<noteq> CHR ''i''"
proof (induction s arbitrary: i)
  case (Cons c s)
  then show ?case by (cases i; cases s) auto
qed simp

lemma length_trace_marker: "length trace_marker = 12"
  by (simp add: trace_marker_def)

lemma Index_after_safe:
  assumes "safe xs"
  shows "bytes_Index trace_marker (xs @ trace_marker @ ys) = Some (length xs)"
  using assms
proof (induction xs)
  case Nil
  then show ?case by (simp add: trace_marker_def)
next
  case (Cons x xs)
  have "take (length trace_marker) (x # xs @ trace_marker @ ys) \<noteq> trace_marker"
  proof
    assume eq: "take (length trace_marker) (x # xs @ trace_marker @ ys) = trace_marker"
    have n: "(x # xs @ trace_marker @ ys) ! i = trace_marker ! i" if "i < 12" for i
      using that nth_take [of i "length trace_marker" "x # xs @ trace_marker @ ys"]
      unfolding eq by (simp add: length_trace_marker)
    show False
    proof (cases "length (x # xs) \<ge> 8")
      case True
      then have "(x # xs) ! 6 = CHR ''_''" "(x # xs) ! 7 = CHR ''i''"
        using n [of 6] n [of 7] by (simp_all add: trace_marker_def nth_append nth_Cons')
      then show False using safe_nth [OF Cons.prems, of 6] True by simp
    next
      case False
      let ?l = "length (x # xs)"
      have "(x # xs @ trace_marker @ ys) ! ?l = CHR 0x22" by (simp add: nth_append trace_marker_def)
      then have m: "trace_marker ! ?l = CHR 0x22" using n [of ?l] False by simp
      have "?l \<in> set [1..<8]" using False by auto
      moreover have "\<forall>i \<in> set [1..<8]. trace_marker ! i \<noteq> CHR 0x22"
        by (simp add: upt_rec trace_marker_def)
      ultimately show False using m by blast
    qed
  qed
  then show ?case using Cons by simp
qed

subsection \<open>Field positions\<close>

lemma join_snoc: "ss \<noteq> [] \<Longrightarrow> join (ss @ [s]) = join ss @ '','' @ s"
  by (induction ss rule: join.induct) auto

text \<open>An object whose greatest key is the trace identifier.\<close>

lemma trace_doc:
  assumes "safe pre" "all_hex h" "16 \<le> length h"
    and shape: "\<And>s. plain s \<Longrightarrow> Marshal (set_field ''trace_id'' s doc) = pre @ trace_marker @ s @ post"
    and self: "set_field ''trace_id'' h doc = doc"
  shows "mutable_doc ''trace_id'' doc (findTraceIDOffset (Marshal doc))"
proof -
  have m: "Marshal doc = (pre @ trace_marker) @ h @ post"
    using shape [of h] all_hex_plain [OF assms(2)] self by simp
  have "findTraceIDOffset (Marshal doc) = int (length (pre @ trace_marker))"
    using Index_after_safe [OF assms(1), of "h @ post"] by (simp add: findTraceIDOffset_def find_marker_def m)
  then show ?thesis
    unfolding mutable_doc_def using m assms(2,3) shape all_hex_plain
    by (intro exI [of _ "pre @ trace_marker"] exI [of _ h] exI [of _ post]) simp
qed

lemma nonce_doc:
  assumes "all_hex h" "16 \<le> length h"
    and shape: "\<And>s. plain s \<Longrightarrow> Marshal (set_field ''_nonce'' s doc) = ''{'' @ nonce_marker @ s @ post"
    and self: "set_field ''_nonce'' h doc = doc"
  shows "mutable_doc ''_nonce'' doc (findAuditNonceOffset (Marshal doc))"
proof -
  have m: "Marshal doc = (''{'' @ nonce_marker) @ h @ post"
    using shape [of h] all_hex_plain [OF assms(1)] self by simp
  have "findAuditNonceOffset (Marshal doc) = int (length (''{'' @ nonce_marker))"
    by (simp add: findAuditNonceOffset_def find_marker_def m nonce_marker_def)
  then show ?thesis
    unfolding mutable_doc_def using m assms(1,2) shape all_hex_plain
    by (intro exI [of _ "''{'' @ nonce_marker"] exI [of _ h] exI [of _ post]) simp
qed

subsection \<open>The builders\<close>

lemma safe_enumerate:
  assumes "\<And>i. safe (quote (pre @ itoa (int i)))" "\<And>v. v \<in> set vs \<Longrightarrow> safe (Marshal (f v))"
  shows "safe (Marshal (JObj (map (\<lambda>(i, v). (pre @ itoa (int i), f v)) (enumerate 0 vs))))"
  by (rule safe_JObj) (auto simp: assms in_set_enumerate_eq)

lemma plain_itoa: "0 \<le> n \<Longrightarrow> plain (itoa n)"
proof -
  assume n: "0 \<le> n"
  have "escape c = [c]" if "is_digit c" for c using that by (intro escape_id) (auto simp: is_digit_def)
  then show ?thesis using n nat_digits_digits [of "nat n"] by (auto simp: plain_def itoa_def)
qed

lemma length_join_ge: "s \<in> set ss \<Longrightarrow> length s \<le> length (join ss)"
  by (induction ss rule: join.induct) auto

lemma Marshal_field_length:
  assumes "(k, v) \<in> set kvs"
  shows "length (quote k) + 1 + length (Marshal v) \<le> length (Marshal (JObj kvs))"
proof -
  let ?ss = "map (\<lambda>(k, s). quote k @ '':'' @ s) (sort_key fst (map (\<lambda>(k, v). (k, Marshal v)) kvs))"
  have "quote k @ '':'' @ Marshal v \<in> set ?ss" using assms by force
  from length_join_ge [OF this] show ?thesis by simp
qed

lemma length_quote: "plain s \<Longrightarrow> length (quote s) = length s + 2"
  by (simp add: quote_plain)

lemma body_bytes:
  assumes "1 \<le> kb" "kb \<le> 2 ^ 30"
  shows "quot (i64 (kb * 1024 * 3)) 4 = kb * 768"
proof -
  have "i64 (kb * 1024 * 3) = kb * 1024 * 3" using assms by (intro i64_nonneg) simp_all
  then show ?thesis using quot_nonneg [of "kb * 1024 * 3" 4] assms by simp
qed

definition kb_bound :: "int \<Rightarrow> bool" where "kb_bound kb \<longleftrightarrow> 1 \<le> kb \<and> kb \<le> 2 ^ 30"

lemma yields_body:
  assumes "kb_bound kb"
  shows "yields (\<lambda>s. in_b64 s \<and> int (length s) = kb * 1024) (randomBase64 (quot (i64 (kb * 1024 * 3)) 4))"
proof -
  have b: "quot (i64 (kb * 1024 * 3)) 4 = kb * 768" using assms body_bytes by (simp add: kb_bound_def)
  have "int (4 * ((nat (kb * 768) + 2) div 3)) = kb * 1024"
    using assms by (simp add: zdiv_int kb_bound_def)
  then show ?thesis unfolding b using assms
    by (intro yields_mono [OF yields_randomBase64]) (auto simp: kb_bound_def)
qed

lemma pick_plain:
  assumes "\<forall>x \<in> set xs. plain x \<and> CHR ''_'' \<notin> set x" "xs \<noteq> []"
  shows "yields (\<lambda>x. plain x \<and> CHR ''_'' \<notin> set x) (rpick xs)"
  by (rule yields_mono [OF yields_rpick [OF assms(2)]]) (use assms(1) in blast)

lemma literals_plain:
  "\<forall>x \<in> set methods. plain x \<and> CHR ''_'' \<notin> set x" "methods \<noteq> []" "statuses \<noteq> []"
  "\<forall>x \<in> set [''/api/v2/users'', ''/api/v2/sessions'', ''/api/v2/events'', ''/api/v2/reports'', ''/api/v2/metrics''].
     plain x \<and> CHR ''_'' \<notin> set x"
  "\<forall>x \<in> set [''/api/v2/users'', ''/api/v2/sessions'', ''/api/v2/events'']. plain x \<and> CHR ''_'' \<notin> set x"
  by (simp_all add: methods_def statuses_def escape_id)

lemma key_safe:
  "safe (quote ''method'')" "safe (quote ''path'')" "safe (quote ''headers'')" "safe (quote ''body'')"
  "safe (quote ''status'')" "safe (quote ''tags'')" "safe (quote ''value'')" "safe (quote ''data'')"
  "safe (quote ''level1'')" "safe (quote ''level2'')" "safe (quote ''level3'')"
  "safe (quote ''context'')" "safe (quote ''metrics'')" "safe (quote ''request'')"
  "safe (quote ''response'')" "safe (quote ''stack_trace'')"
  by (simp_all add: quote_def escape_id)

lemma header_safe:
  "safe (quote (''X-Header-'' @ itoa (int i)))" "safe (quote (''X-Resp-Header-'' @ itoa (int i)))"
  "safe (quote (''metric_'' @ itoa (int i)))"
proof -
  have d: "plain (itoa (int i))" by (rule plain_itoa) simp
  have p: "plain ''X-Header-''" "plain ''X-Resp-Header-''" "plain ''metric_''"
    by (simp_all add: escape_id)
  have "safe (itoa (int i))" by (rule safe_plain) simp
  then show "safe (quote (''X-Header-'' @ itoa (int i)))" "safe (quote (''X-Resp-Header-'' @ itoa (int i)))"
    using p d by (auto intro!: safe_quote)
  obtain c cs where c: "itoa (int i) = c # cs" using itoa_not_Nil by (metis neq_Nil_conv)
  then have "is_digit c" using nat_digits_hd [of i] by (simp add: itoa_def)
  then have "c \<noteq> CHR ''i''" by (auto simp: is_digit_def)
  then have "safe (''metric_'' @ itoa (int i))" using \<open>safe (itoa (int i))\<close> by (simp add: c)
  then show "safe (quote (''metric_'' @ itoa (int i)))" using p(3) d by (intro safe_quote) simp_all
qed

lemma random_strings:
  "yields (\<lambda>s. in_charset s \<and> 20 \<le> int (length s) \<and> int (length s) \<le> 60) (randomString 20 60)"
  "yields (\<lambda>s. in_charset s \<and> 10 \<le> int (length s) \<and> int (length s) \<le> 40) (randomString 10 40)"
  "yields (\<lambda>s. in_charset s \<and> 5 \<le> int (length s) \<and> int (length s) \<le> 15) (randomString 5 15)"
  "yields (\<lambda>s. in_charset s \<and> 5 \<le> int (length s) \<and> int (length s) \<le> 20) (randomString 5 20)"
  "yields (\<lambda>s. in_charset s \<and> 10 \<le> int (length s) \<and> int (length s) \<le> 30) (randomString 10 30)"
  "yields (\<lambda>s. in_charset s \<and> 50 \<le> int (length s) \<and> int (length s) \<le> 100) (randomString 50 100)"
  "yields (\<lambda>s. in_charset s \<and> 100 \<le> int (length s) \<and> int (length s) \<le> 200) (randomString 100 200)"
  by (rule yields_randomString; simp)+

lemma yields_buildRequest:
  assumes "kb_bound kb"
  shows "yields (\<lambda>j. safe (Marshal j) \<and> kb * 1024 \<le> int (length (Marshal j))) (buildRequest kb)"
proof -
  have "safe (Marshal j) \<and> kb * 1024 \<le> int (length (Marshal j))"
    if "j = JObj [(''method'', JStr m), (''path'', JStr p), (''headers'', numbered ''X-Header-'' JStr hs), (''body'', JStr b)]"
      "\<forall>h \<in> set hs. in_charset h" "plain m \<and> CHR ''_'' \<notin> set m" "plain p \<and> CHR ''_'' \<notin> set p"
      "in_b64 b \<and> int (length b) = kb * 1024" for j m p hs b
  proof -
    have "safe (Marshal (numbered ''X-Header-'' JStr hs))"
      unfolding numbered_def using that(2) in_charset_plain header_safe(1)
      by (intro safe_enumerate safe_JStr) auto
    then have "safe (Marshal j)"
      unfolding that(1) using that(3-5) in_b64_plain key_safe by (intro safe_JObj) (auto intro: safe_JStr simp del: Marshal.simps)
    moreover have "int (length (Marshal (JStr b))) = kb * 1024 + 2"
      using that(5) in_b64_plain length_quote by simp
    moreover have "length (Marshal (JStr b)) \<le> length (Marshal j)"
      using Marshal_field_length [of "''body''" "JStr b"] unfolding that(1) by fastforce
    ultimately show ?thesis by linarith
  qed
  then show ?thesis
    unfolding buildRequest_def [abs_def]
    by (intro yields_bind [OF yields_rfill [OF random_strings(1)]] yields_bind [OF pick_plain [OF literals_plain(1,2)]]
        yields_bind [OF pick_plain [OF literals_plain(4)]] yields_bind [OF yields_body [OF assms]] yields_return) simp_all
qed

lemma yields_buildResponse:
  assumes "kb_bound kb"
  shows "yields (\<lambda>j. safe (Marshal j) \<and> kb * 1024 \<le> int (length (Marshal j))) (buildResponse kb)"
proof -
  have "safe (Marshal j) \<and> kb * 1024 \<le> int (length (Marshal j))"
    if "j = JObj [(''status'', JInt n), (''headers'', numbered ''X-Resp-Header-'' JStr hs), (''body'', JStr b)]"
      "\<forall>h \<in> set hs. in_charset h" "in_b64 b \<and> int (length b) = kb * 1024" for j n hs b
  proof -
    have "safe (Marshal (numbered ''X-Resp-Header-'' JStr hs))"
      unfolding numbered_def using that(2) in_charset_plain header_safe(2)
      by (intro safe_enumerate safe_JStr) auto
    then have "safe (Marshal j)"
      unfolding that(1) using that(3) in_b64_plain key_safe
      by (intro safe_JObj) (auto intro: safe_JStr safe_JInt simp del: Marshal.simps)
    moreover have "int (length (Marshal (JStr b))) = kb * 1024 + 2"
      using that(3) in_b64_plain length_quote by simp
    moreover have "length (Marshal (JStr b)) \<le> length (Marshal j)"
      using Marshal_field_length [of "''body''" "JStr b"] unfolding that(1) by fastforce
    ultimately show ?thesis by linarith
  qed
  then show ?thesis
    unfolding buildResponse_def [abs_def]
    by (intro yields_bind [OF yields_rfill [OF random_strings(2)]] yields_bind [OF yields_rpick [OF literals_plain(3)]]
        yields_bind [OF yields_body [OF assms]] yields_return) simp_all
qed

lemma yields_stack_frame: "yields (\<lambda>j. safe (Marshal j)) stack_frame"
proof -
  have "safe (Marshal (JStr (''at '' @ a @ ''.'' @ b @ '' ('' @ c @ ''.go'' @ '':'' @ itoa (n + 1) @ '')'')))"
    if "in_charset a" "in_charset b" "in_charset c" "0 \<le> n" for a b c n
    using that in_charset_plain plain_itoa [of "n + 1"]
    by (intro safe_JStr) (simp_all add: escape_id)
  then show ?thesis
    unfolding stack_frame_def [abs_def]
    by (intro yields_bind [OF random_strings(3)] yields_bind [OF yields_intn] yields_return) simp_all
qed

lemma yields_buildStackTrace: "yields (\<lambda>j. safe (Marshal j)) buildStackTrace"
  unfolding buildStackTrace_def [abs_def]
  by (intro yields_bind [OF yields_intn] yields_bind [OF yields_rfill [OF yields_stack_frame]]
      yields_return safe_JArr) simp_all

lemma yields_buildTags: "yields (\<lambda>j. safe (Marshal j)) buildTags"
  unfolding buildTags_def [abs_def]
  by (intro yields_bind [OF yields_intn] yields_bind [OF yields_rfill [OF random_strings(4)]]
      yields_return safe_JArr) (auto intro!: safe_JStr dest: in_charset_plain simp del: Marshal.simps)

lemma yields_metric_value: "yields (\<lambda>x. True) metric_value"
  by (simp add: yields_def metric_value_def)

lemma yields_buildMetrics: "yields (\<lambda>j. safe (Marshal j)) buildMetrics"
  unfolding buildMetrics_def [abs_def]
  by (intro yields_bind [OF yields_rfill [OF yields_metric_value]] yields_return safe_enumerate
      header_safe(3) safe_JNum)

lemma safe_field: "safe (quote k) \<Longrightarrow> safe (Marshal v) \<Longrightarrow> safe (Marshal (JObj [(k, v)]))"
  by (intro safe_JObj) auto

lemma safe_field2:
  "safe (quote k) \<Longrightarrow> safe (Marshal v) \<Longrightarrow> safe (quote l) \<Longrightarrow> safe (Marshal w) \<Longrightarrow>
   safe (Marshal (JObj [(k, v), (l, w)]))"
  by (intro safe_JObj) auto

lemma yields_buildContext: "yields (\<lambda>j. safe (Marshal j)) buildContext"
  unfolding buildContext_def [abs_def]
  by (intro yields_bind [OF random_strings(5)] yields_bind [OF random_strings(6)] yields_return
      safe_field safe_field2 key_safe safe_JStr) (auto dest: in_charset_plain)

lemma body_budget_bounds:
  assumes "1 \<le> t" "t \<le> 2 ^ 30"
  shows "kb_bound (fst (body_budget t))" "kb_bound (snd (body_budget t))"
    "max 2 (t - 4) \<le> fst (body_budget t) + snd (body_budget t)"
proof -
  define b where "b = (if t - 4 < 1 then 1 else t - 4)"
  have w: "i64 (t - 4) = t - 4" using assms by (intro i64_id) (simp add: in_i64_def)
  have b: "1 \<le> b" "b \<le> 2 ^ 30" using assms by (auto simp: b_def)
  have "i64 (b * 3) = b * 3" using b by (intro i64_nonneg) simp_all
  then have q: "quot (i64 (b * 3)) 5 = b * 3 div 5" using b quot_nonneg [of "b * 3" 5] by simp
  have "body_budget t = (let req = (if b * 3 div 5 < 1 then 1 else b * 3 div 5)
      in (req, if b - req < 1 then 1 else b - req))"
    unfolding body_budget_def Let_def w by (simp only: flip: b_def) (simp only: q)
  then show "kb_bound (fst (body_budget t))" "kb_bound (snd (body_budget t))"
      "max 2 (t - 4) \<le> fst (body_budget t) + snd (body_budget t)"
    using b by (auto simp: Let_def kb_bound_def b_def)
qed

subsection \<open>The documents\<close>

text \<open>The order in which Go prints the fields.\<close>

lemma sort_template:
  "sort_key fst [(''request'', a), (''response'', b), (''stack_trace'', c), (''tags'', d), (''metrics'', e),
     (''context'', f), (''trace_id'', g)] =
   [(''context'', f), (''metrics'', e), (''request'', a), (''response'', b), (''stack_trace'', c),
    (''tags'', d), (''trace_id'', g)]"
  by simp

lemma sort_audit:
  "sort_key fst [(''_nonce'', a), (''before'', b), (''after'', c), (''changed_fields'', d), (''context'', e)] =
   [(''_nonce'', a), (''after'', c), (''before'', b), (''changed_fields'', d), (''context'', e)]"
  "sort_key fst [(''_nonce'', a), (''before'', b), (''after'', c), (''changed_fields'', d), (''context'', e), (''_pad'', f)] =
   [(''_nonce'', a), (''_pad'', f), (''after'', c), (''before'', b), (''changed_fields'', d), (''context'', e)]"
  by simp_all

lemma sort_small:
  "sort_key fst [(''method'', a), (''path'', b), (''status'', c), (''tags'', d), (''body'', e), (''trace_id'', f)] =
   [(''body'', e), (''method'', a), (''path'', b), (''status'', c), (''tags'', d), (''trace_id'', f)]"
  by simp

lemma sort_change:
  "sort_key fst [(''status'', a), (''metadata'', b)] = [(''metadata'', b), (''status'', a)]"
  by simp

lemma quote_trace: "plain s \<Longrightarrow> quote ''trace_id'' @ '':'' @ quote s = trace_marker @ s @ [CHR 0x22]"
  by (simp add: quote_plain escape_id trace_marker_def)

lemma quote_nonce: "plain s \<Longrightarrow> quote ''_nonce'' @ '':'' @ quote s = nonce_marker @ s @ [CHR 0x22]"
  by (simp add: quote_plain escape_id nonce_marker_def)

text \<open>A template for a target of at least \<open>minKB\<close> carries bodies of \<open>minKB - 4\<close>, and of two KB at least.\<close>

definition body_size :: "int \<Rightarrow> nat \<Rightarrow> bool" where
  "body_size minKB n \<longleftrightarrow> 1024 * max 2 (minKB - 4) < int n"

definition large_template :: "int \<Rightarrow> json \<Rightarrow> bool" where
  "large_template minKB doc \<longleftrightarrow>
     mutable_doc ''trace_id'' doc (findTraceIDOffset (Marshal doc)) \<and> body_size minKB (length (Marshal doc))"

lemma template_shape:
  assumes "plain s"
  shows "Marshal (JObj [(''request'', a), (''response'', b), (''stack_trace'', c), (''tags'', d), (''metrics'', e),
     (''context'', f), (''trace_id'', JStr s)]) =
   (''{'' @ join (map (\<lambda>(k, v). quote k @ '':'' @ Marshal v)
      [(''context'', f), (''metrics'', e), (''request'', a), (''response'', b), (''stack_trace'', c), (''tags'', d)]) @ '','')
   @ trace_marker @ s @ [CHR 0x22, CHR ''}'']"
  using quote_trace [OF assms] by (simp add: sort_template del: sort_key_simps)

lemma large_templateI:
  assumes "safe (Marshal a) \<and> x * 1024 \<le> int (length (Marshal a))" "safe (Marshal b) \<and> y * 1024 \<le> int (length (Marshal b))"
    "safe (Marshal c)" "safe (Marshal d)" "safe (Marshal e)" "safe (Marshal f)"
    "length h = 32" "all_hex h" "max 2 (mn - 4) \<le> x + y"
  shows "large_template mn (JObj [(''request'', a), (''response'', b), (''stack_trace'', c), (''tags'', d),
     (''metrics'', e), (''context'', f), (''trace_id'', JStr h)])" (is "large_template _ ?doc")
proof -
  let ?fs = "[(''context'', f), (''metrics'', e), (''request'', a), (''response'', b), (''stack_trace'', c), (''tags'', d)]"
  let ?pre = "''{'' @ join (map (\<lambda>(k, v). quote k @ '':'' @ Marshal v) ?fs) @ '',''"
  have pre: "safe ?pre"
    using assms(1-6) key_safe by (intro safe_append safe_join) auto
  have m: "mutable_doc ''trace_id'' ?doc (findTraceIDOffset (Marshal ?doc))"
    by (rule trace_doc [OF pre assms(8)]) (use assms(7) template_shape in \<open>simp_all del: Marshal.simps\<close>)
  have "length (Marshal a) + length (Marshal b) \<le> length ?pre" by simp
  moreover have "length (Marshal ?doc) = length ?pre + 12 + 32 + 2"
    using template_shape [of h a b c d e f] all_hex_plain [OF assms(8)] assms(7)
    by (simp add: length_trace_marker del: Marshal.simps join.simps)
  ultimately have "length (Marshal a) + length (Marshal b) < length (Marshal ?doc)" by linarith
  moreover have "1024 * max 2 (mn - 4) \<le> x * 1024 + y * 1024" using assms(9) by (simp add: max_def split: if_splits)
  ultimately show ?thesis using m assms(1,2) unfolding large_template_def body_size_def by linarith
qed

lemma yields_template_doc:
  assumes "1 \<le> mn" "mn \<le> mx" "mx \<le> 2 ^ 30"
  shows "yields (large_template mn) (template_doc mn mx)"
proof -
  have w: "i64 (mx - mn + 1) = mx - mn + 1" using assms by (intro i64_nonneg) simp_all
  have k: "kb_bound (fst (body_budget (mn + k)))" "kb_bound (snd (body_budget (mn + k)))"
      "max 2 (mn - 4) \<le> fst (body_budget (mn + k)) + snd (body_budget (mn + k))"
    if "0 \<le> k \<and> k < mx - mn + 1" for k
    using that assms body_budget_bounds [of "mn + k"] by auto
  show ?thesis
    unfolding template_doc_def [abs_def] w Let_def split_def
    apply (rule yields_bind [unfolded split_def, OF yields_intn])
     apply (use assms in simp)
    apply (rule yields_bind [unfolded split_def, OF yields_buildRequest [OF k(1)]], assumption)
    apply (rule yields_bind [unfolded split_def, OF yields_buildResponse [OF k(2)]], assumption)
    apply (rule yields_bind [unfolded split_def, OF yields_buildStackTrace])
    apply (rule yields_bind [unfolded split_def, OF yields_buildTags])
    apply (rule yields_bind [unfolded split_def, OF yields_buildMetrics])
    apply (rule yields_bind [unfolded split_def, OF yields_buildContext])
    apply (rule yields_bind [unfolded split_def, OF yields_rhex16])
    apply (rule yields_bind [unfolded split_def, OF yields_rhex16])
    apply (rule yields_return, rule large_templateI, assumption, assumption)
    by (simp_all add: ball_Un k(3) del: max.bounded_iff)
qed

text \<open>The printed audit diff: everything after the nonce.\<close>

definition change_text :: "string \<Rightarrow> string \<Rightarrow> string" where
  "change_text status md =
     ''{'' @ quote ''metadata'' @ '':'' @ quote md @ '','' @ quote ''status'' @ '':'' @ quote status @ ''}''"

definition audit_tail :: "string \<Rightarrow> json list \<Rightarrow> string \<Rightarrow> string \<Rightarrow> string \<Rightarrow> string" where
  "audit_tail pad fs mb ma ctx =
     [CHR 0x22] @ pad @ '','' @ quote ''after'' @ '':'' @ change_text ''closed'' ma @ '','' @
     quote ''before'' @ '':'' @ change_text ''active'' mb @ '','' @
     quote ''changed_fields'' @ '':'' @ Marshal (JArr fs) @ '','' @ quote ''context'' @ '':'' @ quote ctx @ ''}''"

definition audit_base :: "string \<Rightarrow> string \<Rightarrow> string \<Rightarrow> json list \<Rightarrow> string \<Rightarrow> (string \<times> json) list" where
  "audit_base nonce mb ma fs ctx =
     [(''_nonce'', JStr nonce),
      (''before'', JObj [(''status'', JStr ''active''), (''metadata'', JStr mb)]),
      (''after'', JObj [(''status'', JStr ''closed''), (''metadata'', JStr ma)]),
      (''changed_fields'', JArr fs), (''context'', JStr ctx)]"

lemma change_Marshal:
  "Marshal (JObj [(''status'', JStr st), (''metadata'', JStr md)]) = change_text st md"
  by (simp add: sort_change change_text_def del: sort_key_simps)

lemma audit_shape:
  assumes "plain n"
  shows "Marshal (JObj (audit_base n mb ma fs ctx)) = ''{'' @ nonce_marker @ n @ audit_tail [] fs mb ma ctx"
    and "Marshal (JObj (audit_base n mb ma fs ctx @ [(''_pad'', JStr pad)])) =
         ''{'' @ nonce_marker @ n @ audit_tail ('','' @ quote ''_pad'' @ '':'' @ quote pad) fs mb ma ctx"
  using quote_nonce [OF assms] change_Marshal
  by (simp_all add: audit_base_def sort_audit audit_tail_def del: sort_key_simps)

lemma set_field_audit:
  "set_field ''_nonce'' s (JObj (audit_base n mb ma fs ctx)) = JObj (audit_base s mb ma fs ctx)"
  "set_field ''_nonce'' s (JObj (audit_base n mb ma fs ctx @ [(''_pad'', JStr pad)])) =
   JObj (audit_base s mb ma fs ctx @ [(''_pad'', JStr pad)])"
  by (simp_all add: audit_base_def)

lemma mutable_audit:
  assumes "all_hex n" "length n = 16"
  shows "mutable_doc ''_nonce'' (JObj (audit_base n mb ma fs ctx))
           (findAuditNonceOffset (Marshal (JObj (audit_base n mb ma fs ctx))))"
    and "mutable_doc ''_nonce'' (JObj (audit_base n mb ma fs ctx @ [(''_pad'', JStr pad)]))
           (findAuditNonceOffset (Marshal (JObj (audit_base n mb ma fs ctx @ [(''_pad'', JStr pad)]))))"
  by (rule nonce_doc [OF assms(1)]; use assms(2) audit_shape set_field_audit in \<open>simp del: Marshal.simps\<close>)+

lemma length_audit:
  assumes "plain n" "plain mb" "plain ma" "plain ctx" "length n = 16"
  shows "length (Marshal (JObj (audit_base n mb ma fs ctx))) =
           145 + length (Marshal (JArr fs)) + length mb + length ma + length ctx"
    and "plain pad \<Longrightarrow> length (Marshal (JObj (audit_base n mb ma fs ctx @ [(''_pad'', JStr pad)]))) =
           length (Marshal (JObj (audit_base n mb ma fs ctx))) + 10 + length pad"
  using assms
  by (simp_all add: audit_shape audit_tail_def change_text_def nonce_marker_def length_quote escape_id
      del: Marshal.simps)

definition full_fields :: "json list" where
  "full_fields = [JStr ''status'', JStr ''metadata'', JStr ''ended_at'']"

definition small_fields :: "json list" where
  "small_fields = [JStr ''status'', JStr ''metadata'']"

lemma length_fields: "length (Marshal (JArr full_fields)) = 32" "length (Marshal (JArr small_fields)) = 21"
  by (simp_all add: full_fields_def small_fields_def length_quote escape_id)

lemma audit_fields_base: "audit_fields n mb ma ctx = audit_base n mb ma full_fields ctx"
  by (simp add: audit_fields_def audit_base_def full_fields_def)

definition audit_template :: "json \<Rightarrow> bool" where
  "audit_template doc \<longleftrightarrow>
     mutable_doc ''_nonce'' doc (findAuditNonceOffset (Marshal doc)) \<and>
     length (Marshal doc) \<in> {2046, 3070, 4094}"

lemma audit_pad:
  assumes "length n = 16 \<and> all_hex n" "in_charset mb \<and> int (length mb) \<le> 100"
    "in_charset ma \<and> int (length ma) \<le> 100" "in_charset ctx \<and> int (length ctx) \<le> 200" "0 \<le> k \<and> k < 3"
  defines "fs \<equiv> audit_fields n mb ma ctx"
  defines "p \<equiv> (2 + k) * 1024 - int (length (Marshal (JObj fs))) - 12"
  shows "0 < p \<and> p < 2 ^ 46"
    and "in_b64 pad \<and> int (length pad) = p \<Longrightarrow> audit_template (JObj (fs @ [(''_pad'', JStr pad)]))"
proof -
  have pl: "plain n" "plain mb" "plain ma" "plain ctx"
    using assms(1-4) all_hex_plain in_charset_plain by auto
  note l = length_audit(1) [OF pl, of full_fields, unfolded length_fields]
  show p: "0 < p \<and> p < 2 ^ 46"
    using assms(1-5) l by (simp add: p_def fs_def audit_fields_base del: Marshal.simps)
  assume pad: "in_b64 pad \<and> int (length pad) = p"
  then have "plain pad" using in_b64_plain by blast
  then have "length (Marshal (JObj (fs @ [(''_pad'', JStr pad)]))) = length (Marshal (JObj fs)) + 10 + length pad"
    using length_audit(2) [OF pl] assms(1) by (simp add: fs_def audit_fields_base del: Marshal.simps)
  then have "int (length (Marshal (JObj (fs @ [(''_pad'', JStr pad)])))) = (2 + k) * 1024 - 2"
    using pad by (simp add: p_def del: Marshal.simps)
  moreover have "k = 0 \<or> k = 1 \<or> k = 2" using assms(5) by linarith
  ultimately have "length (Marshal (JObj (fs @ [(''_pad'', JStr pad)]))) \<in> {2046, 3070, 4094}"
    by (auto simp del: Marshal.simps)
  then show "audit_template (JObj (fs @ [(''_pad'', JStr pad)]))"
    using mutable_audit(2) [of n mb ma full_fields ctx pad] assms(1)
    by (simp add: audit_template_def fs_def audit_fields_base del: Marshal.simps)
qed

lemma yields_audit_doc: "yields audit_template audit_doc"
  unfolding audit_doc_def [abs_def] Let_def
  apply (rule yields_bind [OF yields_rhex16])
  apply (rule yields_bind [OF random_strings(6)])
  apply (rule yields_bind [OF random_strings(6)])
  apply (rule yields_bind [OF random_strings(7)])
  apply (rule yields_bind [OF yields_intn], simp)
  subgoal for n mb ma ctx k
    using audit_pad [of n mb ma ctx k]
    by (auto intro!: yields_bind [OF yields_randomBase64Exact] yields_return simp del: Marshal.simps)
  done

text \<open>The small variants.\<close>

definition small_template :: "string \<Rightarrow> json \<Rightarrow> int \<Rightarrow> bool" where
  "small_template k doc off \<longleftrightarrow> mutable_doc k doc off \<and> length (Marshal doc) < 2048"

lemma small_shape:
  assumes "plain s"
  shows "Marshal (JObj [(''method'', a), (''path'', b), (''status'', c), (''tags'', d), (''body'', e), (''trace_id'', JStr s)]) =
   (''{'' @ join (map (\<lambda>(k, v). quote k @ '':'' @ Marshal v)
      [(''body'', e), (''method'', a), (''path'', b), (''status'', c), (''tags'', d)]) @ '','')
   @ trace_marker @ s @ [CHR 0x22, CHR ''}'']"
  using quote_trace [OF assms] by (simp add: sort_small del: sort_key_simps)

lemma pick_short:
  assumes "\<forall>x \<in> set xs. plain x \<and> CHR ''_'' \<notin> set x \<and> length x \<le> 16" "xs \<noteq> []"
  shows "yields (\<lambda>x. plain x \<and> CHR ''_'' \<notin> set x \<and> length x \<le> 16) (rpick xs)"
  by (rule yields_mono [OF yields_rpick [OF assms(2)]]) (use assms(1) in blast)

lemma short_literals:
  "\<forall>x \<in> set methods. plain x \<and> CHR ''_'' \<notin> set x \<and> length x \<le> 16"
  "\<forall>x \<in> set [''/api/v2/users'', ''/api/v2/sessions'', ''/api/v2/events'']. plain x \<and> CHR ''_'' \<notin> set x \<and> length x \<le> 16"
  by (simp_all add: methods_def escape_id)

lemma yields_status: "yields (\<lambda>n. length (itoa n) = 3) (rpick statuses)"
proof (rule yields_mono [OF yields_rpick [OF literals_plain(3)]])
  show "n \<in> set statuses \<Longrightarrow> length (itoa n) = 3" for n
    by (auto simp: statuses_def itoa_def nat_digits.simps)
qed

lemma small_payload_ok:
  assumes "plain m \<and> CHR ''_'' \<notin> set m \<and> length m \<le> 16" "plain p \<and> CHR ''_'' \<notin> set p \<and> length p \<le> 16"
    "length (itoa n) = 3" "length ts = 3 \<and> (\<forall>t \<in> set ts. in_charset t \<and> 5 \<le> int (length t) \<and> int (length t) \<le> 20)"
    "in_b64 b \<and> length b \<le> 1196" "length h = 32" "all_hex h"
  shows "small_template ''trace_id'' (JObj [(''method'', JStr m), (''path'', JStr p), (''status'', JInt n),
      (''tags'', JArr (map JStr ts)), (''body'', JStr b), (''trace_id'', JStr h)])
    (findTraceIDOffset (Marshal (JObj [(''method'', JStr m), (''path'', JStr p), (''status'', JInt n),
      (''tags'', JArr (map JStr ts)), (''body'', JStr b), (''trace_id'', JStr h)])))"
    (is "small_template _ ?doc _")
proof -
  let ?fs = "[(''body'', JStr b), (''method'', JStr m), (''path'', JStr p), (''status'', JInt n), (''tags'', JArr (map JStr ts))]"
  let ?pre = "''{'' @ join (map (\<lambda>(k, v). quote k @ '':'' @ Marshal v) ?fs) @ '',''"
  have tags: "safe (Marshal (JArr (map JStr ts)))"
    using assms(4) in_charset_plain by (intro safe_JArr) (auto intro: safe_JStr simp del: Marshal.simps)
  have strs: "safe (Marshal (JStr b))" "safe (Marshal (JStr m))" "safe (Marshal (JStr p))"
    using assms(1,2,5) in_b64_plain by (auto intro!: safe_JStr simp del: Marshal.simps)
  have pre: "safe ?pre"
    using strs tags key_safe safe_JInt
    by (intro safe_append safe_join) (auto simp del: Marshal.simps)
  have m: "mutable_doc ''trace_id'' ?doc (findTraceIDOffset (Marshal ?doc))"
    by (rule trace_doc [OF pre assms(7)]) (use assms(6) small_shape in \<open>simp_all del: Marshal.simps\<close>)
  obtain t1 t2 t3 where ts: "ts = [t1, t2, t3]" using assms(4) by (metis length_0_conv length_Suc_conv numeral_3_eq_3)
  have "length (Marshal (JArr (map JStr ts))) \<le> 70"
    using assms(4) in_charset_plain by (simp add: ts length_quote)
  moreover have "length (Marshal (JStr b)) \<le> 1198" "length (Marshal (JStr m)) \<le> 18" "length (Marshal (JStr p)) \<le> 18"
    using assms(1,2,5) in_b64_plain [of b] by (simp_all add: length_quote)
  ultimately have "length ?pre \<le> 1400"
    using assms(3) by (simp add: length_quote escape_id del: Marshal.simps(1,4))
  moreover have "length (Marshal ?doc) = length ?pre + 12 + 32 + 2"
    using small_shape [of h] all_hex_plain [OF assms(7)] assms(6)
    by (simp add: length_trace_marker del: Marshal.simps join.simps)
  ultimately show ?thesis using m by (simp add: small_template_def del: Marshal.simps)
qed

lemma yields_small_payload_doc:
  "yields (\<lambda>doc. small_template ''trace_id'' doc (findTraceIDOffset (Marshal doc))) small_payload_doc"
  unfolding small_payload_doc_def [abs_def]
  apply (rule yields_bind [OF yields_intn], simp)
  apply (rule yields_bind [OF pick_short [OF short_literals(1) literals_plain(2)]])
  apply (rule yields_bind [OF pick_short [OF short_literals(2)]], simp)
  apply (rule yields_bind [OF yields_status])
  apply (rule yields_bind [OF yields_rfill [OF random_strings(4)]])
  apply (rule yields_bind [OF yields_randomBase64], simp, simp)
  apply (rule yields_bind [OF yields_rhex16])
  apply (rule yields_bind [OF yields_rhex16])
  apply (rule yields_return, rule small_payload_ok)
        apply (simp_all add: ball_Un)
  subgoal for k by (simp add: nat_add_distrib) linarith
  done

lemma yields_small_audit_doc:
  "yields (\<lambda>doc. small_template ''_nonce'' doc (findAuditNonceOffset (Marshal doc))) small_audit_doc"
proof -
  have "small_template ''_nonce'' (JObj (audit_base n mb ma small_fields ctx))
      (findAuditNonceOffset (Marshal (JObj (audit_base n mb ma small_fields ctx))))"
    if "length n = 16 \<and> all_hex n" "in_charset mb \<and> 50 \<le> int (length mb) \<and> int (length mb) \<le> 100"
      "in_charset ma \<and> 50 \<le> int (length ma) \<and> int (length ma) \<le> 100" "0 \<le> k \<and> k < 513"
      "in_b64 ctx \<and> length ctx = 4 * ((nat (128 + k) + 2) div 3)" for n mb ma k ctx
  proof -
    have pl: "plain n" "plain mb" "plain ma" "plain ctx"
      using that all_hex_plain in_charset_plain in_b64_plain by auto
    have "length ctx \<le> 1000" using that(4,5) by (simp add: nat_add_distrib) linarith
    then show ?thesis
      using mutable_audit(1) that(1-3) length_audit(1) [OF pl, of small_fields, unfolded length_fields]
      by (simp add: small_template_def del: Marshal.simps)
  qed
  then show ?thesis
    unfolding small_audit_doc_def [abs_def] audit_base_def small_fields_def
    apply -
    apply (rule yields_bind [OF yields_rhex16])
    apply (rule yields_bind [OF random_strings(6)])
    apply (rule yields_bind [OF random_strings(6)])
    apply (rule yields_bind [OF yields_intn], simp)
    apply (rule yields_bind [OF yields_randomBase64], simp, simp)
    apply (rule yields_return)
    by blast
qed

subsection \<open>Pools\<close>

lemma template_builds:
  assumes "yields P doc_rnd" "\<And>doc. P doc \<Longrightarrow> Q (Marshal doc, locate (Marshal doc))"
  shows "yields Q (\<lambda>r. Option.bind (doc_rnd r) (\<lambda>(doc, r). let data = Marshal doc in Some ((data, locate data), r)))"
  unfolding Let_def by (rule yields_bind [OF assms(1)], rule yields_return, rule assms(2))

text \<open>A template whose size satisfies a predicate.\<close>

definition sized_template :: "string \<Rightarrow> (nat \<Rightarrow> bool) \<Rightarrow> string \<times> int \<Rightarrow> bool" where
  "sized_template k S e \<longleftrightarrow> template_ok k e \<and> S (length (fst e))"

lemma sized_templateI: "mutable_doc k doc off \<Longrightarrow> S (length (Marshal doc)) \<Longrightarrow> sized_template k S (Marshal doc, off)"
  by (auto simp: sized_template_def template_ok_def simp del: Marshal.simps)

abbreviation large_size :: "nat \<Rightarrow> bool" where "large_size n \<equiv> 2048 < n"
abbreviation audit_size :: "nat \<Rightarrow> bool" where "audit_size n \<equiv> n \<in> {2046, 3070, 4094}"
abbreviation small_size :: "nat \<Rightarrow> bool" where "small_size n \<equiv> n < 2048"

lemma yields_buildTemplate:
  "1 \<le> mn \<Longrightarrow> mn \<le> mx \<Longrightarrow> mx \<le> 2 ^ 30 \<Longrightarrow> yields (sized_template ''trace_id'' (body_size mn)) (buildTemplate mn mx)"
  unfolding buildTemplate_def [abs_def]
  by (rule template_builds [OF yields_template_doc]) (auto simp: large_template_def intro!: sized_templateI)

lemma yields_buildAuditTemplate: "yields (sized_template ''_nonce'' audit_size) buildAuditTemplate"
  unfolding buildAuditTemplate_def [abs_def]
  by (rule template_builds [OF yields_audit_doc]) (auto simp: audit_template_def intro!: sized_templateI)

lemma yields_buildSmallPayloadTemplate: "yields (sized_template ''trace_id'' small_size) buildSmallPayloadTemplate"
  unfolding buildSmallPayloadTemplate_def [abs_def]
  by (rule template_builds [OF yields_small_payload_doc]) (auto simp: small_template_def intro!: sized_templateI)

lemma yields_buildSmallAuditTemplate: "yields (sized_template ''_nonce'' small_size) buildSmallAuditTemplate"
  unfolding buildSmallAuditTemplate_def [abs_def]
  by (rule template_builds [OF yields_small_audit_doc]) (auto simp: small_template_def intro!: sized_templateI)

definition pool_ok :: "string \<Rightarrow> (nat \<Rightarrow> bool) \<Rightarrow> string list \<Rightarrow> int list \<Rightarrow> bool" where
  "pool_ok k S pool offs \<longleftrightarrow>
     length pool = templatePoolSize \<and> length offs = templatePoolSize \<and>
     (\<forall>i < templatePoolSize. sized_template k S (pool ! i, offs ! i))"

text \<open>The state once \<open>init\<close> and \<open>OLTPProfile.Init\<close> have run.\<close>

lemma pool_ok_mono: "pool_ok k S pool offs \<Longrightarrow> (\<And>n. S n \<Longrightarrow> S' n) \<Longrightarrow> pool_ok k S' pool offs"
  by (auto simp: pool_ok_def sized_template_def)

definition templates_ok :: "Templates \<Rightarrow> bool" where
  "templates_ok t \<longleftrightarrow>
     pool_ok ''trace_id'' large_size (sessionTemplatePool t) (sessionTraceIDOffsets t) \<and>
     pool_ok ''trace_id'' large_size (eventTemplatePool t) (eventTraceIDOffsets t) \<and>
     pool_ok ''_nonce'' audit_size (auditTemplatePool t) (auditNonceOffsets t) \<and>
     pool_ok ''trace_id'' small_size (smallPayloadPool t) (smallPayloadOffsets t) \<and>
     pool_ok ''_nonce'' small_size (smallAuditPool t) (smallAuditOffsets t)"

lemma those_Some: "(\<And>x. x \<in> set xs \<Longrightarrow> \<exists>y. f x = Some y \<and> P y) \<Longrightarrow>
    \<exists>ys. those (map f xs) = Some ys \<and> length ys = length xs \<and> (\<forall>y \<in> set ys. P y)"
proof (induction xs)
  case (Cons x xs)
  obtain y where "f x = Some y" "P y" using Cons.prems [of x] by auto
  moreover obtain ys where "those (map f xs) = Some ys" "length ys = length xs" "\<forall>y \<in> set ys. P y"
    using Cons.IH Cons.prems by auto
  ultimately show ?case by auto
qed simp

lemma pool_ok_map:
  "length es = templatePoolSize \<Longrightarrow> (\<forall>e \<in> set es. sized_template k S (f e, g e)) \<Longrightarrow> pool_ok k S (map f es) (map g es)"
  by (simp add: pool_ok_def)

lemma payload_init_ok:
  "\<exists>t. payload_init src = Some t \<and> toastPct t = 100 \<and>
     pool_ok ''trace_id'' large_size (sessionTemplatePool t) (sessionTraceIDOffsets t) \<and>
     pool_ok ''_nonce'' audit_size (auditTemplatePool t) (auditNonceOffsets t) \<and>
     pool_ok ''trace_id'' small_size (smallPayloadPool t) (smallPayloadOffsets t) \<and>
     pool_ok ''_nonce'' small_size (smallAuditPool t) (smallAuditOffsets t)"
proof -
  let ?P = "\<lambda>(s, a, p, sa). sized_template ''trace_id'' large_size s \<and> sized_template ''_nonce'' audit_size a \<and>
    sized_template ''trace_id'' small_size p \<and> sized_template ''_nonce'' small_size sa"
  have "\<exists>y. init_entry src i = Some y \<and> ?P y" for i
  proof -
    obtain s r1 where "buildTemplate 4 8 (src (int i)) = Some (s, r1)" "sized_template ''trace_id'' large_size s"
      using yields_Some [OF yields_buildTemplate [of 4 8]] by (fastforce simp: sized_template_def body_size_def)
    moreover obtain a r2 where "buildAuditTemplate (src (int i + 2 * int templatePoolSize)) = Some (a, r2)"
        "sized_template ''_nonce'' audit_size a"
      using yields_Some [OF yields_buildAuditTemplate] by blast
    moreover obtain p r3 where "buildSmallPayloadTemplate (src (int i + 3 * int templatePoolSize)) = Some (p, r3)"
        "sized_template ''trace_id'' small_size p"
      using yields_Some [OF yields_buildSmallPayloadTemplate] by blast
    moreover obtain sa r4 where "buildSmallAuditTemplate (src (int i + 4 * int templatePoolSize)) = Some (sa, r4)"
        "sized_template ''_nonce'' small_size sa"
      using yields_Some [OF yields_buildSmallAuditTemplate] by blast
    ultimately show ?thesis by (simp add: init_entry_def)
  qed
  then obtain es where es: "those (map (init_entry src) [0..<templatePoolSize]) = Some es"
      "length es = templatePoolSize" "\<forall>e \<in> set es. ?P e"
    using those_Some [of "[0..<templatePoolSize]" "init_entry src" ?P] by auto
  then show ?thesis by (fastforce simp: payload_init_def intro!: pool_ok_map)
qed

lemma InitEventPool_ok:
  assumes "1 \<le> mn" "mn \<le> mx" "mx \<le> 2 ^ 30"
  shows "\<exists>pool offs. InitEventPool src mn mx t = Some (t\<lparr>eventTemplatePool := pool, eventTraceIDOffsets := offs\<rparr>) \<and>
           pool_ok ''trace_id'' (body_size mn) pool offs"
proof -
  have "\<exists>y. event_entry src mn mx i = Some y \<and> sized_template ''trace_id'' (body_size mn) y" for i
    using yields_Some [OF yields_buildTemplate [OF assms], of "src (int i + int templatePoolSize)"]
    by (auto simp: event_entry_def)
  then obtain es where es: "those (map (event_entry src mn mx) [0..<templatePoolSize]) = Some es"
      "length es = templatePoolSize" "\<forall>e \<in> set es. sized_template ''trace_id'' (body_size mn) e"
    using those_Some [of "[0..<templatePoolSize]" "event_entry src mn mx" "sized_template ''trace_id'' (body_size mn)"]
    by auto
  then show ?thesis
    by (intro exI [of _ "map fst es"] exI [of _ "map snd es"]) (simp add: InitEventPool_def pool_ok_map)
qed

subsection \<open>Rewriting the mutable field\<close>

lemma mutable_doc_field:
  assumes "mutable_doc k doc off"
  obtains kvs where "doc = JObj kvs" "k \<in> fst ` set kvs"
proof -
  obtain pre post where p: "\<And>h. all_hex h \<Longrightarrow> Marshal (set_field k h doc) = pre @ h @ post"
    using assms unfolding mutable_doc_def by blast
  have "set_field k h doc = doc" if "\<nexists>kvs. doc = JObj kvs \<and> k \<in> fst ` set kvs" for h
    using that by (cases doc) (auto intro!: map_idI simp: image_iff split_def)
  then show ?thesis using p [of "[]"] p [of "''0''"] that by (force simp: is_hex_def)
qed

lemma mutate_doc:
  assumes "mutable_doc k doc off" "length hs = 16" "all_hex hs"
  shows "0 \<le> off \<and> off + 16 \<le> int (length (Marshal doc))"
    and "rewritten k (Marshal doc) (take (nat off) (Marshal doc) @ hs @ drop (nat off + 16) (Marshal doc))"
proof -
  obtain pre h post where p: "off = int (length pre)" "16 \<le> length h" "all_hex h" "Marshal doc = pre @ h @ post"
      "\<And>h'. all_hex h' \<Longrightarrow> Marshal (set_field k h' doc) = pre @ h' @ post"
    using assms(1) unfolding mutable_doc_def by blast
  show "0 \<le> off \<and> off + 16 \<le> int (length (Marshal doc))" using p(1,2) by (simp add: p(4))
  have h: "all_hex (hs @ drop 16 h)" using assms(3) p(3) by (auto dest: in_set_dropD)
  have "take (nat off) (Marshal doc) @ hs @ drop (nat off + 16) (Marshal doc) = pre @ (hs @ drop 16 h) @ post"
    using p(1,2) by (simp add: p(4))
  moreover have "length (pre @ (hs @ drop 16 h) @ post) = length (Marshal doc)" using p(2,4) assms(2) by simp
  ultimately show "rewritten k (Marshal doc) (take (nat off) (Marshal doc) @ hs @ drop (nat off + 16) (Marshal doc))"
    unfolding rewritten_def using h p(5) [OF h] mutable_doc_field [OF assms(1)] by metis
qed

lemma yields_hex_fill: "yields (\<lambda>hs. length hs = 16 \<and> all_hex hs) (rfill 16 (rpick hexChars))"
  by (rule yields_rfill, rule yields_mono [OF yields_rpick]) (simp_all add: hexChars_def is_hex_def)

lemma yields_mutatedPayload:
  assumes "pool_ok k S pool offs"
  shows "yields (\<lambda>v. (\<exists>d \<in> set pool. rewritten k d v) \<and> S (length v)) (mutatedPayload pool offs)"
  unfolding mutatedPayload_def [abs_def]
proof (rule yields_bind [OF yields_intn])
  fix idx :: int
  assume i: "0 \<le> idx \<and> idx < int templatePoolSize"
  then have n: "nat idx < templatePoolSize" "nat idx < length pool" "nat idx < length offs"
    using assms by (auto simp: pool_ok_def)
  obtain doc where doc: "pool ! nat idx = Marshal doc" "mutable_doc k doc (offs ! nat idx)" "S (length (Marshal doc))"
    using assms n(1) by (auto simp: pool_ok_def sized_template_def template_ok_def)
  have mem: "Marshal doc \<in> set pool" using n(2) doc(1) by (metis nth_mem)
  have off: "0 \<le> offs ! nat idx \<and> offs ! nat idx + 16 \<le> int (length (Marshal doc))"
    using mutate_doc(1) [OF doc(2), of "replicate 16 (CHR ''0'')"] by (simp add: is_hex_def)
  have m: "(\<exists>d \<in> set pool. rewritten k d v) \<and> S (length v)"
    if "length hs = 16 \<and> all_hex hs"
      "v = take (nat (offs ! nat idx)) (Marshal doc) @ hs @ drop (nat (offs ! nat idx) + 16) (Marshal doc)" for hs v
  proof -
    have r: "rewritten k (Marshal doc) v" unfolding that(2) using that(1) by (intro mutate_doc(2) [OF doc(2)]) auto
    moreover from r have "length v = length (Marshal doc)" by (simp add: rewritten_def)
    ultimately show ?thesis using mem doc(3) by metis
  qed
  show "yields (\<lambda>v. (\<exists>d \<in> set pool. rewritten k d v) \<and> S (length v))
    (\<lambda>r. if length pool \<le> nat idx \<or> length offs \<le> nat idx then None
      else let buf = pool ! nat idx in
           let offset = offs ! nat idx in
           if 0 \<le> offset \<and> offset + 16 \<le> int (length buf)
           then Option.bind (rfill 16 (rpick hexChars) r)
             (\<lambda>(hs, r). Some (take (nat offset) buf @ hs @ drop (nat offset + 16) buf, r))
           else Some (buf, r))"
    using n(2,3) off
    by (simp add: Let_def doc(1) not_le)
       (rule yields_bind [OF yields_hex_fill], rule yields_return, rule m, assumption, rule refl)
qed simp

text \<open>A value of one of two pools.\<close>

definition drawn :: "string \<Rightarrow> string list \<Rightarrow> (nat \<Rightarrow> bool) \<Rightarrow> string list \<Rightarrow> string \<Rightarrow> bool" where
  "drawn k large L small v \<longleftrightarrow>
     (\<exists>d \<in> set large. rewritten k d v) \<and> L (length v) \<or> (\<exists>d \<in> set small. rewritten k d v) \<and> small_size (length v)"

lemma yields_payload:
  assumes "pool_ok k L lp lo" "pool_ok k small_size sp so"
  shows "yields (drawn k lp L sp)
    (\<lambda>r. Option.bind (isLarge t r) (\<lambda>(large, r). if large then mutatedPayload lp lo r else mutatedPayload sp so r))"
proof (rule yields_bind)
  show "yields (\<lambda>x. True) (isLarge t)"
    unfolding isLarge_def [abs_def] by (intro yields_bind [OF yields_intn] yields_return) simp_all
  show "yields (drawn k lp L sp) (\<lambda>r. if large then mutatedPayload lp lo r else mutatedPayload sp so r)" for large
    using yields_mutatedPayload [OF assms(1)] yields_mutatedPayload [OF assms(2)]
    by (cases large) (auto simp: drawn_def elim!: yields_mono)
qed

lemma yields_GetSessionPayload:
  "templates_ok t \<Longrightarrow>
   yields (drawn ''trace_id'' (sessionTemplatePool t) large_size (smallPayloadPool t)) (GetSessionPayload t)"
  unfolding GetSessionPayload_def [abs_def] templates_ok_def by (elim conjE, rule yields_payload)

lemma yields_GetEventPayload:
  "templates_ok t \<Longrightarrow>
   yields (drawn ''trace_id'' (eventTemplatePool t) large_size (smallPayloadPool t)) (GetEventPayload t)"
  unfolding GetEventPayload_def [abs_def] templates_ok_def by (elim conjE, rule yields_payload)

lemma yields_GetEventPayload_size:
  "templates_ok t \<Longrightarrow> pool_ok ''trace_id'' (body_size mn) (eventTemplatePool t) (eventTraceIDOffsets t) \<Longrightarrow>
   yields (drawn ''trace_id'' (eventTemplatePool t) (body_size mn) (smallPayloadPool t)) (GetEventPayload t)"
  unfolding GetEventPayload_def [abs_def] templates_ok_def by (elim conjE, rule yields_payload)

lemma yields_GetAuditDiff:
  "templates_ok t \<Longrightarrow>
   yields (drawn ''_nonce'' (auditTemplatePool t) audit_size (smallAuditPool t)) (GetAuditDiff t)"
  unfolding GetAuditDiff_def [abs_def] templates_ok_def by (elim conjE, rule yields_payload)

text \<open>The three calls of \<open>init\<close> and \<open>OLTPProfile.Init\<close> on the package variables.\<close>

definition payload_setup :: "(int \<Rightarrow> rng) \<Rightarrow> Config \<Rightarrow> Templates option" where
  "payload_setup src cfg = do {
     t \<leftarrow> payload_init src;
     t \<leftarrow> InitEventPool src (MinPayloadKB cfg) (MaxPayloadKB cfg) t;
     Some (SetToastPct (ToastPct cfg) t)
   }"

lemma payload_setup_ok:
  assumes "config_ok cfg" "MaxPayloadKB cfg \<le> 2 ^ 30"
  shows "\<exists>t. payload_setup src cfg = Some t \<and> templates_ok t \<and> toastPct t = ToastPct cfg \<and>
           pool_ok ''trace_id'' (body_size (MinPayloadKB cfg)) (eventTemplatePool t) (eventTraceIDOffsets t)"
proof -
  obtain t where t: "payload_init src = Some t"
     "pool_ok ''trace_id'' large_size (sessionTemplatePool t) (sessionTraceIDOffsets t)"
     "pool_ok ''_nonce'' audit_size (auditTemplatePool t) (auditNonceOffsets t)"
     "pool_ok ''trace_id'' small_size (smallPayloadPool t) (smallPayloadOffsets t)"
     "pool_ok ''_nonce'' small_size (smallAuditPool t) (smallAuditOffsets t)"
    using payload_init_ok by blast
  obtain pool offs where e: "InitEventPool src (MinPayloadKB cfg) (MaxPayloadKB cfg) t =
        Some (t\<lparr>eventTemplatePool := pool, eventTraceIDOffsets := offs\<rparr>)"
      "pool_ok ''trace_id'' (body_size (MinPayloadKB cfg)) pool offs"
    using InitEventPool_ok [of "MinPayloadKB cfg" "MaxPayloadKB cfg" src t] assms unfolding config_ok_def by blast
  have "pool_ok ''trace_id'' large_size pool offs" by (rule pool_ok_mono [OF e(2)]) (auto simp: body_size_def max_def split: if_splits)
  with t e show ?thesis by (simp add: payload_setup_def SetToastPct_def templates_ok_def)
qed

section \<open>Properties\<close>

text \<open>
  The share of large payloads is exact: of the 100 values \<open>rng.Intn(100)\<close> can return,
  exactly \<open>TOAST_PCT\<close> make a write large, for every accepted configuration.
\<close>

theorem toast_share:
  assumes "config_ok cfg"
  shows "int (card {k \<in> {0..<100}. \<exists>r. isLarge (SetToastPct (ToastPct cfg) t) (k ## r) = Some (True, r)}) = ToastPct cfg"
proof -
  have b: "0 \<le> ToastPct cfg" "ToastPct cfg \<le> 100" using assms by (auto simp: config_ok_def)
  have "{k \<in> {0..<100}. \<exists>r. isLarge (SetToastPct (ToastPct cfg) t) (k ## r) = Some (True, r)} = {0..<nat (ToastPct cfg)}"
    using b by (auto simp: isLarge_def intn_def SetToastPct_def)
  then show ?thesis using b by simp
qed

theorem toast_share_witness:
  "\<exists>t. int (card {k \<in> {0..<100}. \<exists>r. isLarge (SetToastPct 20 t) (k ## r) = Some (True, r)}) = 20"
proof -
  have "config_ok (read_config Map.empty)" "ToastPct (read_config Map.empty) = 20"
    by (simp_all add: config_ok_def read_config_def getEnvInt_def getenv_def)
  then show ?thesis using toast_share [of "read_config Map.empty"] by metis
qed

end
