(* ===== verification/Ops.thy ===== *)
theory Ops
  imports Payload Ring Weights
begin

text \<open>
  The operations of the OLTP profile: \<open>workload/ops.go\<close>, the actor pools of
  \<open>workload/actors.go\<close> and the profile methods of \<open>workload/oltp.go\<close>.

  The database driver is a parameter: \<open>db\<close> maps the calls made so far and the next call to
  the reply, so that every behaviour of a server, of the network and of a cancelled context
  is some \<open>db\<close>. A call is recorded in the trace with the statement it carries; a statement
  is one constructor per SQL text of the source, its arguments in the order of the
  placeholders. An operation maps the executor's state to its error (\<open>None\<close> is nil) and the
  new state, or to \<open>None\<close> if it panics. Each operation uses the shared ring in one critical
  section, so that passing the ring through is the run in which that section is the
  linearisation point.
\<close>

section \<open>Definitions\<close>

subsection \<open>Actor pools\<close>

record ActorPools =
  userPool :: "uuid list"
  actorPool :: "uuid list"

fun new_uuids :: "nat \<Rightarrow> entropy \<Rightarrow> uuid list \<times> entropy" where
  "new_uuids 0 e = ([], e)"
| "new_uuids (Suc n) e =
     (let (u, e) = uuid_New e; (us, e) = new_uuids n e in (u # us, e))"

text \<open>The second pool is made after the first is filled; a panic of \<open>make\<close> ends the process.\<close>

definition InitActorPools :: "int \<Rightarrow> int \<Rightarrow> entropy \<Rightarrow> (ActorPools \<times> entropy) option" where
  "InitActorPools userPoolSize actorPoolSize e =
     (if \<not> make_ok 16 userPoolSize then None
      else let (us, e) = new_uuids (nat userPoolSize) e
           in if \<not> make_ok 16 actorPoolSize then None
              else let (as, e) = new_uuids (nat actorPoolSize) e
                   in Some (\<lparr>userPool = us, actorPool = as\<rparr>, e))"

definition pickUser :: "ActorPools \<Rightarrow> uuid rnd" where
  "pickUser p = rpick (userPool p)"

definition pickActor :: "ActorPools \<Rightarrow> uuid rnd" where
  "pickActor p = rpick (actorPool p)"

subsection \<open>The driver\<close>

datatype stmt =
    InsertSession uuid uuid string string
  | InsertEvent uuid uuid string string string string string
  | InsertAudit string uuid uuid uuid string string
  | ReadSimple bool uuid
  | ReadJoin uuid string
  | LockSession uuid
  | UpdateSession uuid string
  | DeleteEvents uuid int
  | ReadByIP bool string string

datatype db_call =
    Begin
  | TxExec stmt
  | TxQueryRow stmt
  | Commit
  | Rollback
  | PoolQuery stmt
  | PoolExec stmt
  | RowsClose

text \<open>The error of the call; for a query also how many rows it yields and the error that ends
  the iteration.\<close>

record reply =
  rerr :: "goerr option"
  nrows :: nat
  rows_err :: "goerr option"

type_synonym db = "db_call list \<Rightarrow> db_call \<Rightarrow> reply"

subsection \<open>The executor\<close>

record exec_state =
  ring :: SessionRing
  rsrc :: rng
  entr :: entropy
  trace :: "db_call list"

text \<open>What the executor reads: the templates, the actor pools and the configuration.\<close>

record exec_env =
  tmpl :: Templates
  actors :: ActorPools
  ecfg :: Config

type_synonym 'a oper = "exec_state \<Rightarrow> ('a \<times> exec_state) option"

definition draw :: "'a rnd \<Rightarrow> 'a oper" where
  "draw m st = do { (x, r) \<leftarrow> m (rsrc st); Some (x, st\<lparr>rsrc := r\<rparr>) }"

definition new_uuid :: "uuid oper" where
  "new_uuid st = (let (u, e) = uuid_New (entr st) in Some (u, st\<lparr>entr := e\<rparr>))"

definition dbcall :: "db \<Rightarrow> db_call \<Rightarrow> reply oper" where
  "dbcall db c st = Some (db (trace st) c, st\<lparr>trace := trace st @ [c]\<rparr>)"

definition regions :: "string list" where
  "regions = [''us-east-1'', ''us-west-2'', ''eu-west-1'', ''ap-southeast-1'', ''ap-northeast-1'']"

definition severities :: "string list" where
  "severities = [''info'', ''warn'', ''error'', ''debug'']"

definition eventTypes :: "string list" where
  "eventTypes = [''request'', ''response'', ''error'', ''auth'', ''payment'', ''audit'', ''system'']"

definition randomIP :: "string rnd" where
  "randomIP r = do {
     (a, r) \<leftarrow> intn 256 r;
     (b, r) \<leftarrow> intn 256 r;
     Some (''192.168.'' @ itoa a @ ''.'' @ itoa b, r)
   }"

text \<open>\<open>e.ring.Sample(e.rng)\<close>.\<close>

definition sample_ring :: "(uuid \<times> bool) oper" where
  "sample_ring st = do { (x, r) \<leftarrow> Sample (ring st) (rsrc st); Some (x, st\<lparr>rsrc := r\<rparr>) }"

text \<open>The loop of \<open>doInsert\<close>.\<close>

fun insert_events :: "exec_env \<Rightarrow> db \<Rightarrow> uuid \<Rightarrow> nat \<Rightarrow> goerr option oper" where
  "insert_events e db sessionID 0 st = Some (None, st)"
| "insert_events e db sessionID (Suc n) st = do {
     (eventID, st) \<leftarrow> new_uuid st;
     (payload, st) \<leftarrow> draw (GetEventPayload (tmpl e)) st;
     (traceID, st) \<leftarrow> draw rhex16 st;
     (severity, st) \<leftarrow> draw (rpick severities) st;
     (evType, st) \<leftarrow> draw (rpick eventTypes) st;
     (sourceIP, st) \<leftarrow> draw randomIP st;
     (rep, st) \<leftarrow> dbcall db (TxExec (InsertEvent eventID sessionID evType payload severity traceID sourceIP)) st;
     (case rerr rep of
        Some err \<Rightarrow> Some (Some (Wrap ''insert event'' err), st)
      | None \<Rightarrow> insert_events e db sessionID n st)
   }"

text \<open>The audit record both writing operations end with.\<close>

definition insert_audit :: "exec_env \<Rightarrow> db \<Rightarrow> string \<Rightarrow> uuid \<Rightarrow> reply oper" where
  "insert_audit e db action sessionID st = do {
     (auditID, st) \<leftarrow> new_uuid st;
     (changedBy, st) \<leftarrow> draw (pickActor (actors e)) st;
     (diff, st) \<leftarrow> draw (GetAuditDiff (tmpl e)) st;
     (checksum, st) \<leftarrow> draw rhex16 st;
     dbcall db (TxExec (InsertAudit action auditID sessionID changedBy diff checksum)) st
   }"

text \<open>The part of \<open>doInsert\<close> between \<open>Begin\<close> and the deferred \<open>Rollback\<close>.\<close>

definition insert_body :: "exec_env \<Rightarrow> db \<Rightarrow> uuid \<Rightarrow> uuid \<Rightarrow> string \<Rightarrow> string \<Rightarrow> nat \<Rightarrow> goerr option oper" where
  "insert_body e db sessionID userID region metadata numEvents st = do {
     (rep, st) \<leftarrow> dbcall db (TxExec (InsertSession sessionID userID region metadata)) st;
     (case rerr rep of
        Some err \<Rightarrow> Some (Some (Wrap ''insert session'' err), st)
      | None \<Rightarrow> do {
          (res, st) \<leftarrow> insert_events e db sessionID numEvents st;
          (case res of
             Some err \<Rightarrow> Some (Some err, st)
           | None \<Rightarrow> do {
               (rep, st) \<leftarrow> insert_audit e db ''INSERT'' sessionID st;
               (case rerr rep of
                  Some err \<Rightarrow> Some (Some (Wrap ''insert audit'' err), st)
                | None \<Rightarrow> do {
                    (rep, st) \<leftarrow> dbcall db Commit st;
                    (case rerr rep of
                       Some err \<Rightarrow> Some (Some (Wrap ''commit insert'' err), st)
                     | None \<Rightarrow> do {
                         r \<leftarrow> Push (ring st) sessionID;
                         Some (None, st\<lparr>ring := r\<rparr>)
                       })
                  })
             })
        })
   }"

definition doInsert :: "exec_env \<Rightarrow> db \<Rightarrow> goerr option oper" where
  "doInsert e db st = do {
     (sessionID, st) \<leftarrow> new_uuid st;
     (userID, st) \<leftarrow> draw (pickUser (actors e)) st;
     (region, st) \<leftarrow> draw (rpick regions) st;
     (metadata, st) \<leftarrow> draw (GetSessionPayload (tmpl e)) st;
     (k, st) \<leftarrow> draw (intn 3) st;
     (rep, st) \<leftarrow> dbcall db Begin st;
     (case rerr rep of
        Some err \<Rightarrow> Some (Some err, st)
      | None \<Rightarrow> do {
          (res, st) \<leftarrow> insert_body e db sessionID userID region metadata (nat (1 + k)) st;
          (_, st) \<leftarrow> dbcall db Rollback st;
          Some (res, st)
        })
   }"

text \<open>A query, the iteration over its rows (whose scan results are discarded) and the deferred
  \<open>Close\<close>.\<close>

definition run_query :: "db \<Rightarrow> string \<Rightarrow> stmt \<Rightarrow> goerr option oper" where
  "run_query db what s st = do {
     (rep, st) \<leftarrow> dbcall db (PoolQuery s) st;
     (case rerr rep of
        Some err \<Rightarrow> Some (Some (Wrap what err), st)
      | None \<Rightarrow> do { (_, st) \<leftarrow> dbcall db RowsClose st; Some (rows_err rep, st) })
   }"

definition doReadSimple :: "exec_env \<Rightarrow> db \<Rightarrow> goerr option oper" where
  "doReadSimple e db st = do {
     ((sessionID, ok), st) \<leftarrow> sample_ring st;
     if \<not> ok then Some (Some ErrSkipped, st)
     else run_query db ''read simple'' (ReadSimple (ReadPayload (ecfg e)) sessionID) st
   }"

definition doReadJoin :: "exec_env \<Rightarrow> db \<Rightarrow> goerr option oper" where
  "doReadJoin e db st = do {
     ((sessionID, ok), st) \<leftarrow> sample_ring st;
     if \<not> ok then Some (Some ErrSkipped, st)
     else do {
       (severity, st) \<leftarrow> draw (rpick severities) st;
       run_query db ''read join'' (ReadJoin sessionID severity) st
     }
   }"

definition update_body :: "exec_env \<Rightarrow> db \<Rightarrow> uuid \<Rightarrow> string \<Rightarrow> goerr option oper" where
  "update_body e db sessionID metadata st = do {
     (rep, st) \<leftarrow> dbcall db (TxQueryRow (LockSession sessionID)) st;
     if rerr rep = Some ErrNoRows then Some (Some ErrSkipped, st)
     else (case rerr rep of
       Some err \<Rightarrow> Some (Some (Wrap ''lock session'' err), st)
     | None \<Rightarrow> do {
         (rep, st) \<leftarrow> dbcall db (TxExec (UpdateSession sessionID metadata)) st;
         (case rerr rep of
            Some err \<Rightarrow> Some (Some (Wrap ''update session'' err), st)
          | None \<Rightarrow> do {
              (rep, st) \<leftarrow> insert_audit e db ''UPDATE'' sessionID st;
              (case rerr rep of
                 Some err \<Rightarrow> Some (Some (Wrap ''update audit'' err), st)
               | None \<Rightarrow> do { (rep, st) \<leftarrow> dbcall db Commit st; Some (rerr rep, st) })
            })
       })
   }"

definition doUpdate :: "exec_env \<Rightarrow> db \<Rightarrow> goerr option oper" where
  "doUpdate e db st = do {
     ((sessionID, ok), st) \<leftarrow> sample_ring st;
     if \<not> ok then Some (Some ErrSkipped, st)
     else do {
       (metadata, st) \<leftarrow> draw (GetSessionPayload (tmpl e)) st;
       (rep, st) \<leftarrow> dbcall db Begin st;
       (case rerr rep of
          Some err \<Rightarrow> Some (Some err, st)
        | None \<Rightarrow> do {
            (res, st) \<leftarrow> update_body e db sessionID metadata st;
            (_, st) \<leftarrow> dbcall db Rollback st;
            Some (res, st)
          })
     }
   }"

definition doDelete :: "exec_env \<Rightarrow> db \<Rightarrow> goerr option oper" where
  "doDelete e db st = do {
     ((sessionID, ok), st) \<leftarrow> sample_ring st;
     if \<not> ok then Some (Some ErrSkipped, st)
     else do {
       (rep, st) \<leftarrow> dbcall db (PoolExec (DeleteEvents sessionID (DeleteBatchSize (ecfg e)))) st;
       (case rerr rep of
          Some err \<Rightarrow> Some (Some (Wrap ''delete events'' err), st)
        | None \<Rightarrow> Some (None, st))
     }
   }"

text \<open>\<open>int(sessionID[0])\<close>.\<close>

definition subnet :: "uuid \<Rightarrow> string \<times> string" where
  "subnet sessionID =
     (let octet = uint (sessionID ! 0)
      in (''192.168.'' @ itoa octet @ ''.0'', ''192.168.'' @ itoa octet @ ''.255''))"

definition doReadByIP :: "exec_env \<Rightarrow> db \<Rightarrow> goerr option oper" where
  "doReadByIP e db st = do {
     ((sessionID, ok), st) \<leftarrow> sample_ring st;
     if \<not> ok then Some (Some ErrSkipped, st)
     else let (lo, hi) = subnet sessionID
          in run_query db ''read by ip'' (ReadByIP (ReadPayload (ecfg e)) lo hi) st
   }"

definition Execute :: "exec_env \<Rightarrow> db \<Rightarrow> string \<Rightarrow> goerr option oper" where
  "Execute e db op st =
     (if op = OpInsert then doInsert e db st
      else if op = OpReadSimple then doReadSimple e db st
      else if op = OpReadJoin then doReadJoin e db st
      else if op = OpUpdate then doUpdate e db st
      else if op = OpDelete then doDelete e db st
      else if op = OpReadByIP then doReadByIP e db st
      else Some (Some (ErrText (''unknown op: '' @ op)), st))"

subsection \<open>The profile\<close>

text \<open>\<open>OLTPProfile.Init\<close>: the ring, the template pools and the actor pools; \<open>None\<close> is a panic.
  The package variables of \<open>payload.go\<close> were set by its \<open>init\<close>.\<close>

definition Init :: "(int \<Rightarrow> rng) \<Rightarrow> Config \<Rightarrow> Templates \<Rightarrow> entropy \<Rightarrow> ((SessionRing \<times> exec_env) \<times> entropy) option" where
  "Init src cfg t ent = do {
     r \<leftarrow> NewSessionRing (RingSize cfg);
     t \<leftarrow> InitEventPool src (MinPayloadKB cfg) (MaxPayloadKB cfg) t;
     (ps, ent) \<leftarrow> InitActorPools (UserPoolSize cfg) (ActorPoolSize cfg) ent;
     let t = SetToastPct (ToastPct cfg) t;
     Some ((r, \<lparr>tmpl = t, actors = ps, ecfg = cfg\<rparr>), ent)
   }"

section \<open>Specification: transactions as plans\<close>

text \<open>
  A transaction is specified by the calls it intends to make, each with what becomes of its
  error. Running a plan stops at the first call that fails; a transaction begins, runs its
  plan and is rolled back, which has no effect after a commit.
\<close>

type_synonym plan = "(db_call \<times> (goerr \<Rightarrow> goerr)) list"

fun run_plan :: "db \<Rightarrow> db_call list \<Rightarrow> plan \<Rightarrow> db_call list \<times> goerr option" where
  "run_plan db T [] = (T, None)"
| "run_plan db T ((c, w) # ps) =
     (case rerr (db T c) of
        Some err \<Rightarrow> (T @ [c], Some (w err))
      | None \<Rightarrow> run_plan db (T @ [c]) ps)"

definition transaction :: "db \<Rightarrow> db_call list \<Rightarrow> plan \<Rightarrow> db_call list \<times> goerr option" where
  "transaction db T ps =
     (case rerr (db T Begin) of
        Some err \<Rightarrow> (T @ [Begin], Some err)
      | None \<Rightarrow> (case run_plan db (T @ [Begin]) ps of (T', res) \<Rightarrow> (T' @ [Rollback], res)))"

definition insert_plan :: "stmt \<Rightarrow> stmt list \<Rightarrow> stmt \<Rightarrow> plan" where
  "insert_plan s evs aud =
     (TxExec s, Wrap ''insert session'') # map (\<lambda>ev. (TxExec ev, Wrap ''insert event'')) evs @
     [(TxExec aud, Wrap ''insert audit''), (Commit, Wrap ''commit insert'')]"

definition lock_error :: "goerr \<Rightarrow> goerr" where
  "lock_error err = (if err = ErrNoRows then ErrSkipped else Wrap ''lock session'' err)"

definition update_plan :: "uuid \<Rightarrow> string \<Rightarrow> stmt \<Rightarrow> plan" where
  "update_plan sid md aud =
     [(TxQueryRow (LockSession sid), lock_error), (TxExec (UpdateSession sid md), Wrap ''update session''),
      (TxExec aud, Wrap ''update audit''), (Commit, \<lambda>err. err)]"

text \<open>The statements a transaction about session \<open>sid\<close> may carry.\<close>

definition is_ip :: "string \<Rightarrow> bool" where
  "is_ip s \<longleftrightarrow> (\<exists>a b. 0 \<le> a \<and> a < 256 \<and> 0 \<le> b \<and> b < 256 \<and> s = ''192.168.'' @ itoa a @ ''.'' @ itoa b)"

definition event_of :: "uuid \<Rightarrow> stmt \<Rightarrow> bool" where
  "event_of sid s \<longleftrightarrow>
     (\<exists>eid et pl sev tr ip. s = InsertEvent eid sid et pl sev tr ip \<and> length eid = 16 \<and> et \<in> set eventTypes \<and>
        sev \<in> set severities \<and> length tr = 16 \<and> all_hex tr \<and> is_ip ip)"

definition audit_of :: "exec_env \<Rightarrow> string \<Rightarrow> uuid \<Rightarrow> stmt \<Rightarrow> bool" where
  "audit_of e action sid s \<longleftrightarrow>
     (\<exists>aid by diff sum. s = InsertAudit action aid sid by diff sum \<and> length aid = 16 \<and>
        by \<in> set (actorPool (actors e)) \<and> length sum = 16 \<and> all_hex sum)"

definition env_ok :: "exec_env \<Rightarrow> bool" where
  "env_ok e \<longleftrightarrow> templates_ok (tmpl e) \<and> userPool (actors e) \<noteq> [] \<and> actorPool (actors e) \<noteq> []"

section \<open>Lemmas\<close>

subsection \<open>Total correctness of operations\<close>

definition runs :: "(exec_state \<Rightarrow> bool) \<Rightarrow> 'a oper \<Rightarrow> ('a \<Rightarrow> exec_state \<Rightarrow> bool) \<Rightarrow> bool" where
  "runs P m Q \<longleftrightarrow> (\<forall>st. P st \<longrightarrow> (\<exists>x st'. m st = Some (x, st') \<and> Q x st'))"

text \<open>The part of the state the specifications speak of.\<close>

definition here :: "SessionRing \<Rightarrow> db_call list \<Rightarrow> exec_state \<Rightarrow> bool" where
  "here R T st \<longleftrightarrow> ring st = R \<and> trace st = T"

lemma runs_bind:
  assumes "runs P m Q" "\<And>x. runs (Q x) (f x) S"
  shows "runs P (\<lambda>st. Option.bind (m st) (\<lambda>(x, st'). f x st')) S"
  unfolding runs_def
proof (intro allI impI)
  fix st
  assume "P st"
  then obtain x st' where 1: "m st = Some (x, st')" "Q x st'" using assms(1) unfolding runs_def by blast
  then obtain y st'' where "f x st' = Some (y, st'')" "S y st''" using assms(2) [of x] unfolding runs_def by blast
  with 1 show "\<exists>y st'. Option.bind (m st) (\<lambda>(x, st'). f x st') = Some (y, st') \<and> S y st'" by auto
qed

lemma runs_return: "(\<And>st. P st \<Longrightarrow> Q x st) \<Longrightarrow> runs P (\<lambda>st. Some (x, st)) Q"
  by (auto simp: runs_def)

lemma runs_pre: "(\<And>st. P st \<Longrightarrow> P' st) \<Longrightarrow> runs P' m Q \<Longrightarrow> runs P m Q"
  unfolding runs_def by blast

lemma runs_post: "runs P m Q \<Longrightarrow> (\<And>x st. Q x st \<Longrightarrow> Q' x st) \<Longrightarrow> runs P m Q'"
  unfolding runs_def by blast

lemma runs_assume: "(A \<Longrightarrow> runs P m Q) \<Longrightarrow> runs (\<lambda>st. A \<and> P st) m Q"
  unfolding runs_def by blast

lemma runs_ex: "(\<And>a. runs (P a) m Q) \<Longrightarrow> runs (\<lambda>st. \<exists>a. P a st) m Q"
  unfolding runs_def by blast

lemma runs_if: "(b \<Longrightarrow> runs P m Q) \<Longrightarrow> (\<not> b \<Longrightarrow> runs P n Q) \<Longrightarrow> runs P (\<lambda>st. if b then m st else n st) Q"
  by (cases b) simp_all

lemma runs_case:
  "(\<And>e. x = Some e \<Longrightarrow> runs P (f e) Q) \<Longrightarrow> (x = None \<Longrightarrow> runs P n Q) \<Longrightarrow>
   runs P (\<lambda>st. case x of Some e \<Rightarrow> f e st | None \<Rightarrow> n st) Q"
  by (cases x) simp_all

lemma runs_draw: "yields R m \<Longrightarrow> runs (here S T) (draw m) (\<lambda>x st. R x \<and> here S T st)"
  unfolding runs_def here_def
proof (intro allI impI)
  fix st :: exec_state
  assume "yields R m" "ring st = S \<and> trace st = T"
  moreover from this obtain x r' where "m (rsrc st) = Some (x, r')" "R x" using yields_Some by blast
  ultimately show "\<exists>x st'. draw m st = Some (x, st') \<and> R x \<and> ring st' = S \<and> trace st' = T"
    by (intro exI [of _ x] exI [of _ "st\<lparr>rsrc := r'\<rparr>"]) (simp add: draw_def)
qed

lemma runs_new_uuid: "runs (here S T) new_uuid (\<lambda>u st. length u = 16 \<and> here S T st)"
  unfolding runs_def here_def by (simp add: new_uuid_def split_def Let_def)

lemma runs_dbcall: "runs (here S T) (dbcall db c) (\<lambda>rep st. rep = db T c \<and> here S (T @ [c]) st)"
  by (simp add: runs_def here_def dbcall_def)

lemma runs_sample:
  assumes "ring_inv S"
  shows "runs (here S T) sample_ring
     (\<lambda>x st. (snd x \<longleftrightarrow> contents S \<noteq> []) \<and> (snd x \<longrightarrow> fst x \<in> set (contents S)) \<and> here S T st)"
  unfolding runs_def here_def
proof (intro allI impI)
  fix st :: exec_state
  assume st: "ring st = S \<and> trace st = T"
  obtain u ok g where "Sample S (rsrc st) = Some ((u, ok), g)" "ok \<longleftrightarrow> contents S \<noteq> []" "ok \<longrightarrow> u \<in> set (contents S)"
    using ring.sample_total [OF assms, of "rsrc st"] by blast
  with st show "\<exists>x st'. sample_ring st = Some (x, st') \<and> (snd x \<longleftrightarrow> contents S \<noteq> []) \<and>
      (snd x \<longrightarrow> fst x \<in> set (contents S)) \<and> ring st' = S \<and> trace st' = T"
    by (intro exI [of _ "(u, ok)"] exI [of _ "st\<lparr>rsrc := g\<rparr>"]) (simp add: sample_ring_def)
qed

lemma yields_randomIP: "yields is_ip randomIP"
  unfolding randomIP_def [abs_def]
  by (intro yields_bind [OF yields_intn] yields_return) (auto simp: is_ip_def)

subsection \<open>Plans\<close>

lemma run_plan_append:
  "run_plan db T (ps @ qs) =
     (case run_plan db T ps of (T', None) \<Rightarrow> run_plan db T' qs | (T', Some err) \<Rightarrow> (T', Some err))"
  by (induction db T ps rule: run_plan.induct) (auto split: option.splits)

lemma run_plan_trace:
  "run_plan db T ps = (T', res) \<Longrightarrow>
     (\<exists>n \<le> length ps. T' = T @ map fst (take n ps) \<and> (res = None \<longrightarrow> n = length ps))"
proof (induction db T ps arbitrary: T' res rule: run_plan.induct)
  case (2 db T c w ps)
  show ?case
  proof (cases "rerr (db T c)")
    case None
    then obtain n where "n \<le> length ps" "T' = (T @ [c]) @ map fst (take n ps)" "res = None \<longrightarrow> n = length ps"
      using 2 by auto
    then show ?thesis by (intro exI [of _ "Suc n"]) simp
  next
    case (Some err)
    then show ?thesis using 2(2) by (intro exI [of _ 1]) auto
  qed
qed simp

subsection \<open>The writing operations follow their plans\<close>

abbreviation event_plan :: "stmt list \<Rightarrow> plan" where
  "event_plan evs \<equiv> map (\<lambda>ev. (TxExec ev, Wrap ''insert event'')) evs"

definition events_done :: "db \<Rightarrow> SessionRing \<Rightarrow> db_call list \<Rightarrow> uuid \<Rightarrow> nat \<Rightarrow> goerr option \<Rightarrow> exec_state \<Rightarrow> bool" where
  "events_done db S T sid n res st \<longleftrightarrow>
     (\<exists>evs T'. (length evs = n \<and> (\<forall>ev \<in> set evs. event_of sid ev) \<and>
        run_plan db T (event_plan evs) = (T', res)) \<and> here S T' st)"

lemma event_ofI:
  assumes "length eid = 16" "length tr = 16 \<and> all_hex tr" "sev \<in> set severities" "et \<in> set eventTypes" "is_ip ip"
  shows "event_of sid (InsertEvent eid sid et pl sev tr ip)"
  using assms by (auto simp: event_of_def)

lemma nonempty_lists: "severities \<noteq> []" "eventTypes \<noteq> []" "regions \<noteq> []"
  by (simp_all add: severities_def eventTypes_def regions_def)

lemma events_done_fail:
  assumes "event_of sid s" "rerr (db T (TxExec s)) = Some err" "here S (T @ [TxExec s]) st"
  shows "events_done db S T sid (Suc n) (Some (Wrap ''insert event'' err)) st"
  using assms unfolding events_done_def
  by (intro exI [of _ "replicate (Suc n) s"] exI [of _ "T @ [TxExec s]"]) simp

lemma events_done_Suc:
  assumes "event_of sid s" "rerr (db T (TxExec s)) = None" "events_done db S (T @ [TxExec s]) sid n res st"
  shows "events_done db S T sid (Suc n) res st"
proof -
  obtain evs T' where "length evs = n" "\<forall>ev \<in> set evs. event_of sid ev"
      "run_plan db (T @ [TxExec s]) (event_plan evs) = (T', res)" "here S T' st"
    using assms(3) unfolding events_done_def by blast
  then show ?thesis using assms(1,2) unfolding events_done_def
    by (intro exI [of _ "s # evs"] exI [of _ T']) simp
qed

lemma runs_insert_events:
  assumes "env_ok e"
  shows "runs (here S T) (insert_events e db sid n) (events_done db S T sid n)"
proof (induction n arbitrary: T)
  case 0
  show ?case unfolding runs_def by (auto simp: here_def events_done_def)
next
  case (Suc n)
  have y: "yields (drawn ''trace_id'' (eventTemplatePool (tmpl e)) large_size (smallPayloadPool (tmpl e))) (GetEventPayload (tmpl e))"
    using assms by (intro yields_GetEventPayload) (simp add: env_ok_def)
  show ?case
    unfolding insert_events.simps [abs_def]
    apply (rule runs_bind [OF runs_new_uuid], rule runs_assume)
    apply (rule runs_bind [OF runs_draw [OF y]], rule runs_assume)
    apply (rule runs_bind [OF runs_draw [OF yields_rhex16]], rule runs_assume)
    apply (rule runs_bind [OF runs_draw [OF yields_rpick [OF nonempty_lists(1)]]], rule runs_assume)
    apply (rule runs_bind [OF runs_draw [OF yields_rpick [OF nonempty_lists(2)]]], rule runs_assume)
    apply (rule runs_bind [OF runs_draw [OF yields_randomIP]], rule runs_assume)
    apply (rule runs_bind [OF runs_dbcall], rule runs_assume, rule runs_case)
     apply (rule runs_return, rule events_done_fail, rule event_ofI; simp)
    apply (rule runs_post [OF Suc.IH], rule events_done_Suc [OF event_ofI]; simp)
    done
qed

lemma runs_insert_audit:
  assumes "env_ok e"
  shows "runs (here S T) (insert_audit e db action sid)
    (\<lambda>rep st. \<exists>aud. (audit_of e action sid aud \<and> rep = db T (TxExec aud)) \<and> here S (T @ [TxExec aud]) st)"
proof -
  have y: "yields (drawn ''_nonce'' (auditTemplatePool (tmpl e)) audit_size (smallAuditPool (tmpl e))) (GetAuditDiff (tmpl e))"
    using assms by (intro yields_GetAuditDiff) (simp add: env_ok_def)
  have p: "yields (\<lambda>x. x \<in> set (actorPool (actors e))) (pickActor (actors e))"
    unfolding pickActor_def using assms by (intro yields_rpick) (simp add: env_ok_def)
  show ?thesis
    unfolding insert_audit_def [abs_def]
    apply (rule runs_bind [OF runs_new_uuid], rule runs_assume)
    apply (rule runs_bind [OF runs_draw [OF p]], rule runs_assume)
    apply (rule runs_bind [OF runs_draw [OF y]], rule runs_assume)
    apply (rule runs_bind [OF runs_draw [OF yields_rhex16]], rule runs_assume)
    apply (rule runs_post [OF runs_dbcall], rule exI)
    by (auto simp: audit_of_def)
qed

lemma some_event: "\<exists>ev. event_of sid ev"
proof -
  have ip: "is_ip (''192.168.'' @ itoa 0 @ ''.'' @ itoa 0)"
    unfolding is_ip_def by (rule exI [of _ 0], rule exI [of _ 0]) simp
  have "event_of sid (InsertEvent (replicate 16 0) sid ''request'' [] ''info'' (replicate 16 (CHR ''0'')) (''192.168.'' @ itoa 0 @ ''.'' @ itoa 0))"
    by (rule event_ofI [OF _ _ _ _ ip]) (auto simp: severities_def eventTypes_def is_hex_def)
  then show ?thesis by blast
qed

lemma some_audit: "env_ok e \<Longrightarrow> \<exists>aud. audit_of e action sid aud"
proof -
  assume "env_ok e"
  then obtain a where "a \<in> set (actorPool (actors e))" unfolding env_ok_def by (meson last_in_set)
  then have "audit_of e action sid (InsertAudit action (replicate 16 0) sid a [] (replicate 16 (CHR ''0'')))"
    by (auto simp: audit_of_def is_hex_def)
  then show ?thesis by blast
qed

definition insert_done ::
  "exec_env \<Rightarrow> db \<Rightarrow> SessionRing \<Rightarrow> db_call list \<Rightarrow> uuid \<Rightarrow> stmt \<Rightarrow> nat \<Rightarrow> goerr option \<Rightarrow> exec_state \<Rightarrow> bool" where
  "insert_done e db S T sid s n res st \<longleftrightarrow>
     (\<exists>evs aud. length evs = n \<and> (\<forall>ev \<in> set evs. event_of sid ev) \<and> audit_of e ''INSERT'' sid aud \<and>
        run_plan db T (insert_plan s evs aud) = (trace st, res) \<and>
        (if res = None then Push S sid = Some (ring st) else ring st = S))"

text \<open>The four exits of the body, from the first to the last.\<close>

lemma insert_done_session:
  assumes "env_ok e" "rerr (db T (TxExec s)) = Some err" "here S (T @ [TxExec s]) st"
  shows "insert_done e db S T sid s n (Some (Wrap ''insert session'' err)) st"
proof -
  obtain ev aud where "event_of sid ev" "audit_of e ''INSERT'' sid aud"
    using some_event some_audit [OF assms(1)] by metis
  then show ?thesis using assms(2,3) unfolding insert_done_def here_def
    by (intro exI [of _ "replicate n ev"] exI [of _ aud]) (simp add: insert_plan_def)
qed

lemma run_insert_plan:
  "rerr (db T (TxExec s)) = None \<Longrightarrow> run_plan db (T @ [TxExec s]) (event_plan evs) = (T', r) \<Longrightarrow>
   run_plan db T (insert_plan s evs aud) =
     (case r of Some err \<Rightarrow> (T', Some err)
      | None \<Rightarrow> run_plan db T' [(TxExec aud, Wrap ''insert audit''), (Commit, Wrap ''commit insert'')])"
  by (auto simp: insert_plan_def run_plan_append split: option.splits)

lemma insert_done_events:
  assumes "env_ok e" "rerr (db T (TxExec s)) = None" "events_done db S (T @ [TxExec s]) sid n (Some err) st"
  shows "insert_done e db S T sid s n (Some err) st"
proof -
  obtain aud where "audit_of e ''INSERT'' sid aud" using some_audit [OF assms(1)] by blast
  then show ?thesis
    using assms(3) run_insert_plan [where db = db and T = T and s = s, OF assms(2)]
    unfolding insert_done_def events_done_def here_def by fastforce
qed

lemma insert_done_rest:
  assumes "rerr (db T (TxExec s)) = None" "length evs = n" "\<forall>ev \<in> set evs. event_of sid ev"
    "run_plan db (T @ [TxExec s]) (event_plan evs) = (T', None)" "audit_of e ''INSERT'' sid aud"
    "run_plan db T' [(TxExec aud, Wrap ''insert audit''), (Commit, Wrap ''commit insert'')] = (trace st, res)"
    "if res = None then Push S sid = Some (ring st) else ring st = S"
  shows "insert_done e db S T sid s n res st"
  using assms run_insert_plan [where db = db and T = T and s = s, OF assms(1,4)]
  unfolding insert_done_def by (intro exI [of _ evs] exI [of _ aud]) simp

lemma runs_insert_body:
  assumes "env_ok e" "ring_inv S"
  shows "runs (here S T) (insert_body e db sid uid reg md n)
           (insert_done e db S T sid (InsertSession sid uid reg md) n)"
proof -
  let ?s = "InsertSession sid uid reg md"
  have audit: "runs (here S T') (\<lambda>st. Option.bind (insert_audit e db ''INSERT'' sid st) (\<lambda>(rep, st).
      case rerr rep of
        Some err \<Rightarrow> Some (Some (Wrap ''insert audit'' err), st)
      | None \<Rightarrow> Option.bind (dbcall db Commit st) (\<lambda>(rep, st).
          case rerr rep of
            Some err \<Rightarrow> Some (Some (Wrap ''commit insert'' err), st)
          | None \<Rightarrow> Option.bind (Push (ring st) sid) (\<lambda>r. Some (None, st\<lparr>ring := r\<rparr>)))))
      (insert_done e db S T sid ?s n)"
    if "rerr (db T (TxExec ?s)) = None" "length evs = n" "\<forall>ev \<in> set evs. event_of sid ev"
      "run_plan db (T @ [TxExec ?s]) (event_plan evs) = (T', None)" for T' evs
    apply (rule runs_bind [OF runs_insert_audit [OF assms(1)]], rule runs_ex, rule runs_assume, rule runs_case)
     apply (rule runs_return, rule insert_done_rest [OF that], blast, auto simp: here_def)[1]
    apply (rule runs_bind [OF runs_dbcall], rule runs_assume, rule runs_case)
     apply (rule runs_return, rule insert_done_rest [OF that], blast, auto simp: here_def)[1]
    subgoal for rep aud rep'
      unfolding runs_def
    proof (intro allI impI)
      fix st
      assume "here S ((T' @ [TxExec aud]) @ [Commit]) st"
        and *: "audit_of e ''INSERT'' sid aud \<and> rep = db T' (TxExec aud)" "rerr rep = None"
          "rep' = db (T' @ [TxExec aud]) Commit" "rerr rep' = None"
      moreover obtain r where r: "Push S sid = Some r" using Push_recent [OF assms(2)] by blast
      ultimately show "\<exists>x st'. Option.bind (Push (ring st) sid) (\<lambda>r. Some (None, st\<lparr>ring := r\<rparr>)) = Some (x, st') \<and>
          insert_done e db S T sid ?s n x st'"
        by (intro exI [of _ None] exI [of _ "st\<lparr>ring := r\<rparr>"]) (auto simp: here_def intro!: insert_done_rest [OF that])
    qed
    done
  show ?thesis
    unfolding insert_body_def [abs_def]
    apply (rule runs_bind [OF runs_dbcall], rule runs_assume, rule runs_case)
     apply (rule runs_return, rule insert_done_session [OF assms(1)], simp, simp)
    apply (rule runs_bind [OF runs_insert_events [OF assms(1)]], rule runs_case)
     apply (rule runs_return, rule insert_done_events [OF assms(1)], simp, simp)
    apply (unfold events_done_def, rule runs_ex, rule runs_ex, rule runs_assume)
    subgoal for rep res evs T' by (rule audit [of evs]) simp_all
    done
qed

definition inserted :: "exec_env \<Rightarrow> db \<Rightarrow> SessionRing \<Rightarrow> db_call list \<Rightarrow> goerr option \<Rightarrow> exec_state \<Rightarrow> bool" where
  "inserted e db S T res st \<longleftrightarrow>
     (\<exists>sid uid reg md evs aud.
        length sid = 16 \<and> uid \<in> set (userPool (actors e)) \<and> reg \<in> set regions \<and>
        drawn ''trace_id'' (sessionTemplatePool (tmpl e)) large_size (smallPayloadPool (tmpl e)) md \<and>
        1 \<le> length evs \<and> length evs \<le> 3 \<and> (\<forall>ev \<in> set evs. event_of sid ev) \<and> audit_of e ''INSERT'' sid aud \<and>
        transaction db T (insert_plan (InsertSession sid uid reg md) evs aud) = (trace st, res) \<and>
        (if res = None then Push S sid = Some (ring st) else ring st = S))"

lemma insertedI_begin:
  fixes sid :: uuid
  assumes "env_ok e" "length sid = 16" "uid \<in> set (userPool (actors e))" "reg \<in> set regions"
    "drawn ''trace_id'' (sessionTemplatePool (tmpl e)) large_size (smallPayloadPool (tmpl e)) md"
    "rerr (db T Begin) = Some err" "here S (T @ [Begin]) st"
  shows "inserted e db S T (Some err) st"
proof -
  obtain ev aud where "event_of sid ev" "audit_of e ''INSERT'' sid aud"
    using some_event some_audit [OF assms(1)] by metis
  then show ?thesis using assms(2-7) unfolding inserted_def here_def
    by (intro exI [of _ sid] exI [of _ uid] exI [of _ reg] exI [of _ md] exI [of _ "[ev]"] exI [of _ aud])
       (simp add: transaction_def)
qed

lemma insertedI_body:
  assumes "length sid = 16" "uid \<in> set (userPool (actors e))" "reg \<in> set regions"
    "drawn ''trace_id'' (sessionTemplatePool (tmpl e)) large_size (smallPayloadPool (tmpl e)) md"
    "rerr (db T Begin) = None" "0 \<le> k \<and> k < 3"
    "insert_done e db S (T @ [Begin]) sid (InsertSession sid uid reg md) (nat (1 + k)) res st"
  shows "inserted e db S T res (st\<lparr>trace := trace st @ [Rollback]\<rparr>)"
proof -
  obtain evs aud where b: "length evs = nat (1 + k)" "\<forall>ev \<in> set evs. event_of sid ev" "audit_of e ''INSERT'' sid aud"
      "run_plan db (T @ [Begin]) (insert_plan (InsertSession sid uid reg md) evs aud) = (trace st, res)"
      "if res = None then Push S sid = Some (ring st) else ring st = S"
    using assms(7) unfolding insert_done_def by blast
  moreover have "1 \<le> length evs \<and> length evs \<le> 3" using b(1) assms(6) by auto
  ultimately show ?thesis using assms(1-5) unfolding inserted_def
    by (intro exI [of _ sid] exI [of _ uid] exI [of _ reg] exI [of _ md] exI [of _ evs] exI [of _ aud])
       (simp add: transaction_def)
qed

lemma runs_rollback:
  assumes "\<And>st. Q st \<Longrightarrow> Q' res (st\<lparr>trace := trace st @ [Rollback]\<rparr>)"
  shows "runs Q (\<lambda>st. Option.bind (dbcall db Rollback st) (\<lambda>(x, st). Some (res, st))) Q'"
  using assms by (simp add: runs_def dbcall_def)

lemma runs_doInsert:
  assumes "env_ok e" "ring_inv S"
  shows "runs (here S T) (doInsert e db) (inserted e db S T)"
proof -
  have y: "yields (drawn ''trace_id'' (sessionTemplatePool (tmpl e)) large_size (smallPayloadPool (tmpl e))) (GetSessionPayload (tmpl e))"
    using assms(1) by (intro yields_GetSessionPayload) (simp add: env_ok_def)
  have u: "yields (\<lambda>x. x \<in> set (userPool (actors e))) (pickUser (actors e))"
    unfolding pickUser_def using assms(1) by (intro yields_rpick) (simp add: env_ok_def)
  have k: "yields (\<lambda>i. 0 \<le> i \<and> i < 3) (intn 3)" by (rule yields_intn) simp
  show ?thesis
    unfolding doInsert_def [abs_def]
    apply (rule runs_bind [OF runs_new_uuid], rule runs_assume)
    apply (rule runs_bind [OF runs_draw [OF u]], rule runs_assume)
    apply (rule runs_bind [OF runs_draw [OF yields_rpick [OF nonempty_lists(3)]]], rule runs_assume)
    apply (rule runs_bind [OF runs_draw [OF y]], rule runs_assume)
    apply (rule runs_bind [OF runs_draw [OF k]], rule runs_assume)
    apply (rule runs_bind [OF runs_dbcall], rule runs_assume, rule runs_case)
     apply (rule runs_return, rule insertedI_begin [OF assms(1)]; simp)
    apply (rule runs_bind [OF runs_insert_body [OF assms]], rule runs_rollback, rule insertedI_body)
          apply simp_all
    done
qed

definition updated :: "exec_env \<Rightarrow> db \<Rightarrow> SessionRing \<Rightarrow> db_call list \<Rightarrow> goerr option \<Rightarrow> exec_state \<Rightarrow> bool" where
  "updated e db S T res st \<longleftrightarrow> ring st = S \<and>
     (if contents S = [] then res = Some ErrSkipped \<and> trace st = T
      else (\<exists>sid md aud. sid \<in> set (contents S) \<and>
        drawn ''trace_id'' (sessionTemplatePool (tmpl e)) large_size (smallPayloadPool (tmpl e)) md \<and>
        audit_of e ''UPDATE'' sid aud \<and> transaction db T (update_plan sid md aud) = (trace st, res)))"

definition update_done :: "exec_env \<Rightarrow> db \<Rightarrow> SessionRing \<Rightarrow> db_call list \<Rightarrow> uuid \<Rightarrow> string \<Rightarrow> goerr option \<Rightarrow> exec_state \<Rightarrow> bool" where
  "update_done e db S T sid md res st \<longleftrightarrow>
     ring st = S \<and> (\<exists>aud. audit_of e ''UPDATE'' sid aud \<and> run_plan db T (update_plan sid md aud) = (trace st, res))"

lemma update_doneI:
  "audit_of e ''UPDATE'' sid aud \<Longrightarrow> run_plan db T (update_plan sid md aud) = (T', res) \<Longrightarrow> here S T' st \<Longrightarrow>
   update_done e db S T sid md res st"
  by (auto simp: update_done_def here_def)

lemma runs_update_body:
  assumes "env_ok e"
  shows "runs (here S T) (update_body e db sid md) (update_done e db S T sid md)"
proof -
  obtain a0 where a0: "audit_of e ''UPDATE'' sid a0" using some_audit [OF assms] by blast
  show ?thesis
    unfolding update_body_def [abs_def]
    apply (rule runs_bind [OF runs_dbcall], rule runs_assume, rule runs_if)
     apply (rule runs_return, rule update_doneI [OF a0], simp add: update_plan_def lock_error_def, simp)
    apply (rule runs_case)
     apply (rule runs_return, rule update_doneI [OF a0], simp add: update_plan_def lock_error_def, simp)
    apply (rule runs_bind [OF runs_dbcall], rule runs_assume, rule runs_case)
     apply (rule runs_return, rule update_doneI [OF a0], simp add: update_plan_def, simp)
    apply (rule runs_bind [OF runs_insert_audit [OF assms]], rule runs_ex, rule runs_assume, rule runs_case)
    subgoal by (rule runs_return, rule update_doneI, blast, simp add: update_plan_def, simp)
    apply (rule runs_bind [OF runs_dbcall], rule runs_assume)
    subgoal by (rule runs_return, rule update_doneI, blast) (auto simp: update_plan_def split: option.splits)
    done
qed

lemma updatedI:
  assumes "sid \<in> set (contents S)"
    "drawn ''trace_id'' (sessionTemplatePool (tmpl e)) large_size (smallPayloadPool (tmpl e)) md"
    "audit_of e ''UPDATE'' sid aud" "transaction db T (update_plan sid md aud) = (trace st, res)" "ring st = S"
  shows "updated e db S T res st"
proof -
  have "contents S \<noteq> []" using assms(1) by auto
  then show ?thesis using assms unfolding updated_def by auto
qed

lemma runs_doUpdate:
  assumes "env_ok e" "ring_inv S"
  shows "runs (here S T) (doUpdate e db) (updated e db S T)"
proof -
  have y: "yields (drawn ''trace_id'' (sessionTemplatePool (tmpl e)) large_size (smallPayloadPool (tmpl e))) (GetSessionPayload (tmpl e))"
    using assms(1) by (intro yields_GetSessionPayload) (simp add: env_ok_def)
  obtain a0 where a0: "audit_of e ''UPDATE'' sid (a0 sid)" for sid using some_audit [OF assms(1)] by metis
  show ?thesis
    unfolding doUpdate_def [abs_def] split_beta
    apply (rule runs_bind [unfolded split_beta, OF runs_sample [OF assms(2)]])
    apply (rule runs_assume, rule runs_assume, rule runs_if)
     apply (rule runs_return, auto simp: updated_def here_def)[1]
    apply (rule runs_bind [unfolded split_beta, OF runs_draw [OF y]], rule runs_assume)
    apply (rule runs_bind [unfolded split_beta, OF runs_dbcall], rule runs_assume, rule runs_case)
    subgoal for x md rep err
      using a0 [of "fst x"] by (intro runs_return updatedI) (auto simp: here_def transaction_def)
    apply (rule runs_bind [unfolded split_beta, OF runs_update_body [OF assms(1)]])
    apply (rule runs_rollback [unfolded split_beta])
    apply (clarsimp simp: update_done_def)
    by (rule updatedI, assumption, assumption, assumption) (simp_all add: transaction_def)
qed

subsection \<open>Reading and deleting\<close>

definition queried :: "db \<Rightarrow> SessionRing \<Rightarrow> db_call list \<Rightarrow> string \<Rightarrow> stmt \<Rightarrow> goerr option \<Rightarrow> exec_state \<Rightarrow> bool" where
  "queried db S T what s res st \<longleftrightarrow> ring st = S \<and>
     (case rerr (db T (PoolQuery s)) of
        Some err \<Rightarrow> res = Some (Wrap what err) \<and> trace st = T @ [PoolQuery s]
      | None \<Rightarrow> res = rows_err (db T (PoolQuery s)) \<and> trace st = T @ [PoolQuery s, RowsClose])"

definition on_session :: "SessionRing \<Rightarrow> db_call list \<Rightarrow> (uuid \<Rightarrow> goerr option \<Rightarrow> exec_state \<Rightarrow> bool) \<Rightarrow> goerr option \<Rightarrow> exec_state \<Rightarrow> bool" where
  "on_session S T Q res st \<longleftrightarrow>
     (if contents S = [] then res = Some ErrSkipped \<and> here S T st else (\<exists>sid \<in> set (contents S). Q sid res st))"

lemma runs_run_query: "runs (here S T) (run_query db what s) (queried db S T what s)"
  by (simp add: runs_def run_query_def dbcall_def queried_def here_def split: option.splits)

lemma runs_on_session:
  assumes "ring_inv S" "\<And>sid. sid \<in> set (contents S) \<Longrightarrow> runs (here S T) (m sid) (Q sid)"
  shows "runs (here S T)
    (\<lambda>st. Option.bind (sample_ring st) (\<lambda>((sid, ok), st). if \<not> ok then Some (Some ErrSkipped, st) else m sid st))
    (on_session S T Q)"
  unfolding split_beta
proof (rule runs_bind [unfolded split_beta, OF runs_sample [OF assms(1)]], rule runs_assume, rule runs_assume, rule runs_if)
  fix x :: "uuid \<times> bool"
  assume x: "snd x \<longleftrightarrow> contents S \<noteq> []" "snd x \<longrightarrow> fst x \<in> set (contents S)"
  show "\<not> snd x \<Longrightarrow> runs (here S T) (\<lambda>st. Some (Some ErrSkipped, st)) (on_session S T Q)"
    using x by (intro runs_return) (simp add: on_session_def)
  show "\<not> \<not> snd x \<Longrightarrow> runs (here S T) (m (fst x)) (on_session S T Q)"
    using x by (intro runs_post [OF assms(2)]) (auto simp: on_session_def)
qed

lemma runs_doReadSimple:
  "ring_inv S \<Longrightarrow> runs (here S T) (doReadSimple e db)
     (on_session S T (\<lambda>sid. queried db S T ''read simple'' (ReadSimple (ReadPayload (ecfg e)) sid)))"
  unfolding doReadSimple_def [abs_def] by (rule runs_on_session, assumption) (rule runs_run_query)

lemma runs_doReadJoin:
  "ring_inv S \<Longrightarrow> runs (here S T) (doReadJoin e db)
     (on_session S T (\<lambda>sid res st. \<exists>sev \<in> set severities. queried db S T ''read join'' (ReadJoin sid sev) res st))"
  unfolding doReadJoin_def [abs_def]
  apply (rule runs_on_session, assumption)
  apply (rule runs_bind [OF runs_draw [OF yields_rpick [OF nonempty_lists(1)]]], rule runs_assume)
  by (rule runs_post [OF runs_run_query]) blast

lemma runs_doReadByIP:
  "ring_inv S \<Longrightarrow> runs (here S T) (doReadByIP e db)
     (on_session S T (\<lambda>sid. queried db S T ''read by ip''
        (ReadByIP (ReadPayload (ecfg e)) (fst (subnet sid)) (snd (subnet sid)))))"
  unfolding doReadByIP_def [abs_def] split_beta Let_def
  by (rule runs_on_session [unfolded split_beta], assumption) (rule runs_run_query)

definition deleted :: "exec_env \<Rightarrow> db \<Rightarrow> SessionRing \<Rightarrow> db_call list \<Rightarrow> uuid \<Rightarrow> goerr option \<Rightarrow> exec_state \<Rightarrow> bool" where
  "deleted e db S T sid res st \<longleftrightarrow>
     (let c = PoolExec (DeleteEvents sid (DeleteBatchSize (ecfg e)))
      in here S (T @ [c]) st \<and> res = map_option (Wrap ''delete events'') (rerr (db T c)))"

lemma runs_doDelete:
  "ring_inv S \<Longrightarrow> runs (here S T) (doDelete e db) (on_session S T (deleted e db S T))"
  unfolding doDelete_def [abs_def]
  by (rule runs_on_session, assumption)
     (simp add: runs_def dbcall_def here_def deleted_def split: option.splits)

subsection \<open>Discipline common to all operations\<close>

fun writes :: "db_call \<Rightarrow> bool" where
  "writes (TxExec s) = True"
| "writes (PoolExec s) = True"
| "writes Commit = True"
| "writes c = False"

text \<open>What was acquired is released: a transaction that was begun ends with its one \<open>Rollback\<close>,
  and rows that were opened are closed.\<close>

definition tidy :: "db \<Rightarrow> db_call list \<Rightarrow> db_call list \<Rightarrow> bool" where
  "tidy db T new \<longleftrightarrow>
     (Begin \<in> set new \<longrightarrow>
        (if rerr (db T Begin) = None
         then \<exists>body. new = Begin # body @ [Rollback] \<and> Begin \<notin> set body \<and> Rollback \<notin> set body
         else new = [Begin])) \<and>
     (\<forall>s. PoolQuery s \<in> set new \<longrightarrow>
        new = (if rerr (db T (PoolQuery s)) = None then [PoolQuery s, RowsClose] else [PoolQuery s]))"

text \<open>The driver cannot return the package's own \<open>errSkipped\<close>.\<close>

definition foreign_errors :: "db \<Rightarrow> bool" where
  "foreign_errors db \<longleftrightarrow>
     (\<forall>T c err. rerr (db T c) = Some err \<or> rows_err (db T c) = Some err \<longrightarrow> \<not> errors_Is err ErrSkipped)"

definition skipped :: "goerr option \<Rightarrow> bool" where
  "skipped res \<longleftrightarrow> (\<exists>err. res = Some err \<and> errors_Is err ErrSkipped)"

definition disciplined :: "db \<Rightarrow> SessionRing \<Rightarrow> db_call list \<Rightarrow> goerr option \<Rightarrow> exec_state \<Rightarrow> bool" where
  "disciplined db S T res st \<longleftrightarrow>
     ring_inv (ring st) \<and>
     (\<exists>new. trace st = T @ new \<and> tidy db T new \<and>
        (foreign_errors db \<and> skipped res \<longrightarrow> ring st = S \<and> (\<forall>c \<in> set new. \<not> writes c)))"

definition tx_calls :: "plan \<Rightarrow> bool" where
  "tx_calls ps \<longleftrightarrow> (\<forall>(c, w) \<in> set ps. c \<noteq> Begin \<and> c \<noteq> Rollback \<and> (\<forall>s. c \<noteq> PoolQuery s))"

lemma transaction_tidy:
  assumes "transaction db T ps = (T', res)" "tx_calls ps"
  shows "\<exists>new. T' = T @ new \<and> tidy db T new"
proof (cases "rerr (db T Begin)")
  case (Some err)
  then show ?thesis using assms(1) by (auto simp: transaction_def tidy_def)
next
  case None
  obtain T1 where r: "run_plan db (T @ [Begin]) ps = (T1, res)" "T' = T1 @ [Rollback]"
    using None assms(1) by (auto simp: transaction_def split: prod.splits)
  obtain n where n: "T1 = (T @ [Begin]) @ map fst (take n ps)" using run_plan_trace [OF r(1)] by blast
  let ?body = "map fst (take n ps)"
  have b: "Begin \<notin> set ?body" "Rollback \<notin> set ?body" "PoolQuery s \<notin> set ?body" for s
    using assms(2) by (fastforce simp: tx_calls_def dest!: in_set_takeD)+
  have "tidy db T (Begin # ?body @ [Rollback])" using None b by (simp add: tidy_def)
  then show ?thesis using r(2) n by (intro exI [of _ "Begin # ?body @ [Rollback]"]) simp
qed

lemma run_plan_not_skipped:
  assumes "run_plan db T ps = (T', res)" "foreign_errors db"
    and "\<forall>(c, w) \<in> set ps. \<forall>err. errors_Is (w err) ErrSkipped \<longrightarrow> errors_Is err ErrSkipped"
  shows "\<not> skipped res"
  using assms
proof (induction db T ps rule: run_plan.induct)
  case (2 db T c w ps)
  then show ?case by (auto simp: skipped_def foreign_errors_def split: option.splits)
qed (simp add: skipped_def)

lemma transaction_not_skipped:
  assumes "transaction db T ps = (T', res)" "foreign_errors db"
    and "\<forall>(c, w) \<in> set ps. \<forall>err. errors_Is (w err) ErrSkipped \<longrightarrow> errors_Is err ErrSkipped"
  shows "\<not> skipped res"
proof (cases "rerr (db T Begin)")
  case (Some err)
  then show ?thesis using assms(1,2) by (auto simp: transaction_def skipped_def foreign_errors_def)
next
  case None
  then obtain T1 where "run_plan db (T @ [Begin]) ps = (T1, res)"
    using assms(1) by (auto simp: transaction_def split: prod.splits)
  from run_plan_not_skipped [OF this assms(2,3)] show ?thesis .
qed

lemma ring_inv_Push: "ring_inv S \<Longrightarrow> Push S u = Some r \<Longrightarrow> ring_inv r"
  using Push_recent [of S u] by auto

lemma inserted_disciplined:
  assumes "inserted e db S T res st" "ring_inv S"
  shows "disciplined db S T res st"
proof -
  obtain sid uid reg md evs aud where i:
      "transaction db T (insert_plan (InsertSession sid uid reg md) evs aud) = (trace st, res)"
      "if res = None then Push S sid = Some (ring st) else ring st = S"
    using assms(1) unfolding inserted_def by blast
  let ?p = "insert_plan (InsertSession sid uid reg md) evs aud"
  have "tx_calls ?p" by (auto simp: tx_calls_def insert_plan_def)
  moreover have "\<forall>(c, w) \<in> set ?p. \<forall>err. errors_Is (w err) ErrSkipped \<longrightarrow> errors_Is err ErrSkipped"
    by (auto simp: insert_plan_def)
  ultimately show ?thesis
    using transaction_tidy [OF i(1)] transaction_not_skipped [OF i(1)] i(2) assms(2) ring_inv_Push
    unfolding disciplined_def by (cases res) auto
qed

lemma update_transaction_skip:
  assumes "transaction db T (update_plan sid md aud) = (T', res)" "foreign_errors db" "skipped res"
  shows "T' = T @ [Begin, TxQueryRow (LockSession sid), Rollback]"
  using assms
  by (auto simp: transaction_def update_plan_def lock_error_def skipped_def foreign_errors_def
      split: option.splits if_splits prod.splits)

lemma updated_disciplined:
  assumes "updated e db S T res st" "ring_inv S"
  shows "disciplined db S T res st"
proof (cases "contents S = []")
  case True
  then show ?thesis using assms by (auto simp: updated_def disciplined_def tidy_def)
next
  case False
  obtain sid md aud where u: "transaction db T (update_plan sid md aud) = (trace st, res)" "ring st = S"
    using False assms(1) unfolding updated_def by auto
  have "tx_calls (update_plan sid md aud)" by (simp add: tx_calls_def update_plan_def)
  then obtain new where new: "trace st = T @ new" "tidy db T new" using transaction_tidy [OF u(1)] by blast
  have "\<forall>c \<in> set new. \<not> writes c" if "foreign_errors db" "skipped res"
    using update_transaction_skip [OF u(1) that] new(1) by simp
  then show ?thesis using u(2) new assms(2) unfolding disciplined_def by blast
qed

lemma on_session_disciplined:
  assumes "on_session S T Q res st" "ring_inv S" "\<And>sid. Q sid res st \<Longrightarrow> disciplined db S T res st"
  shows "disciplined db S T res st"
proof (cases "contents S = []")
  case True
  then show ?thesis using assms(1,2) by (auto simp: on_session_def disciplined_def here_def tidy_def)
next
  case False
  then show ?thesis using assms(1,3) by (auto simp: on_session_def)
qed

lemma queried_disciplined:
  assumes "queried db S T what s res st" "ring_inv S"
  shows "disciplined db S T res st"
proof -
  have "ring st = S" using assms(1) by (simp add: queried_def)
  moreover have "\<exists>new. trace st = T @ new \<and> tidy db T new \<and> (foreign_errors db \<longrightarrow> \<not> skipped res)"
    using assms(1) by (auto simp: queried_def tidy_def skipped_def foreign_errors_def split: option.splits)
  ultimately show ?thesis using assms(2) unfolding disciplined_def by blast
qed

lemma deleted_disciplined:
  "deleted e db S T sid res st \<Longrightarrow> ring_inv S \<Longrightarrow> disciplined db S T res st"
  by (auto simp: deleted_def Let_def here_def disciplined_def tidy_def skipped_def foreign_errors_def)

lemma runs_Execute:
  assumes "env_ok e" "ring_inv S"
  shows "runs (here S T) (Execute e db op) (disciplined db S T)"
proof -
  have "runs (here S T) (doInsert e db) (disciplined db S T)"
    by (rule runs_post [OF runs_doInsert [OF assms]]) (rule inserted_disciplined [OF _ assms(2)])
  moreover have "runs (here S T) (doUpdate e db) (disciplined db S T)"
    by (rule runs_post [OF runs_doUpdate [OF assms]]) (rule updated_disciplined [OF _ assms(2)])
  moreover have "runs (here S T) (doReadSimple e db) (disciplined db S T)"
    by (rule runs_post [OF runs_doReadSimple [OF assms(2)]])
       (rule on_session_disciplined [OF _ assms(2)], assumption, rule queried_disciplined [OF _ assms(2)])
  moreover have "runs (here S T) (doReadByIP e db) (disciplined db S T)"
    by (rule runs_post [OF runs_doReadByIP [OF assms(2)]])
       (rule on_session_disciplined [OF _ assms(2)], assumption, rule queried_disciplined [OF _ assms(2)])
  moreover have "runs (here S T) (doReadJoin e db) (disciplined db S T)"
    by (rule runs_post [OF runs_doReadJoin [OF assms(2)]])
       (rule on_session_disciplined [OF _ assms(2)], assumption, use queried_disciplined [OF _ assms(2)] in blast)
  moreover have "runs (here S T) (doDelete e db) (disciplined db S T)"
    by (rule runs_post [OF runs_doDelete [OF assms(2)]])
       (rule on_session_disciplined [OF _ assms(2)], assumption, rule deleted_disciplined [OF _ assms(2)])
  moreover have "runs (here S T) (\<lambda>st. Some (Some (ErrText (''unknown op: '' @ op)), st)) (disciplined db S T)"
    using assms(2) by (intro runs_return) (auto simp: disciplined_def here_def tidy_def skipped_def)
  ultimately show ?thesis unfolding Execute_def [abs_def] by (intro runs_if)
qed

subsection \<open>The profile's set-up\<close>

lemma length_new_uuids: "length (fst (new_uuids n e)) = n" "\<forall>u \<in> set (fst (new_uuids n e)). length u = 16"
proof -
  have "length (fst (new_uuids n e)) = n \<and> (\<forall>u \<in> set (fst (new_uuids n e)). length u = 16)"
    by (induction n arbitrary: e) (auto simp: split_def Let_def)
  then show "length (fst (new_uuids n e)) = n" "\<forall>u \<in> set (fst (new_uuids n e)). length u = 16" by auto
qed

text \<open>The sizes that \<open>make\<close> can allocate, in identifiers of sixteen bytes.\<close>

definition pools_fit :: "Config \<Rightarrow> bool" where
  "pools_fit cfg \<longleftrightarrow> RingSize cfg \<le> 2 ^ 44 \<and> UserPoolSize cfg \<le> 2 ^ 44 \<and> ActorPoolSize cfg \<le> 2 ^ 44"

lemma InitActorPools_ok:
  assumes "1 \<le> n" "1 \<le> m"
  shows "if n \<le> 2 ^ 44 \<and> m \<le> 2 ^ 44
         then \<exists>p ent'. InitActorPools n m ent = Some (p, ent') \<and> int (length (userPool p)) = n \<and>
           int (length (actorPool p)) = m
         else InitActorPools n m ent = None"
  using assms by (auto simp: InitActorPools_def split_def Let_def length_new_uuids make_ok_def maxAlloc_def)

lemma Init_ok:
  assumes "config_ok cfg" "MaxPayloadKB cfg \<le> 2 ^ 30"
  shows "\<exists>t. payload_init src = Some t \<and>
           (if pools_fit cfg
            then \<exists>r e ent'. Init src cfg t ent = Some ((r, e), ent') \<and> env_ok e \<and>
              ring_inv r \<and> contents r = [] \<and> rsize r = RingSize cfg \<and> ecfg e = cfg \<and> toastPct (tmpl e) = ToastPct cfg \<and>
              int (length (userPool (actors e))) = UserPoolSize cfg \<and> int (length (actorPool (actors e))) = ActorPoolSize cfg
            else Init src cfg t ent = None)"
proof -
  obtain t0 t where t: "payload_init src = Some t0"
      "InitEventPool src (MinPayloadKB cfg) (MaxPayloadKB cfg) t0 = Some t"
      "templates_ok (SetToastPct (ToastPct cfg) t)" "toastPct (SetToastPct (ToastPct cfg) t) = ToastPct cfg"
    using payload_setup_ok [OF assms, of src] by (auto simp: payload_setup_def bind_eq_Some_conv)
  have c: "1 \<le> RingSize cfg" "1 \<le> UserPoolSize cfg" "1 \<le> ActorPoolSize cfg" using assms(1) by (auto simp: config_ok_def)
  note p = InitActorPools_ok [OF c(2,3), of ent]
  show ?thesis
  proof (cases "pools_fit cfg")
    case True
    then obtain q ent' where q: "InitActorPools (UserPoolSize cfg) (ActorPoolSize cfg) ent = Some (q, ent')"
        "int (length (userPool q)) = UserPoolSize cfg" "int (length (actorPool q)) = ActorPoolSize cfg"
      using p by (auto simp: pools_fit_def)
    obtain r where r: "NewSessionRing (RingSize cfg) = Some r"
      using True c(1) NewSessionRing_iff [of "RingSize cfg"] by (auto simp: pools_fit_def)
    have "ring_inv r" "contents r = []" "rsize r = RingSize cfg" using ring_inv_new [OF _ r] c(1) by auto
    then show ?thesis using True t q r c by (auto simp: Init_def env_ok_def)
  next
    case False
    then have "NewSessionRing (RingSize cfg) = None \<or> InitActorPools (UserPoolSize cfg) (ActorPoolSize cfg) ent = None"
      using p NewSessionRing_iff [of "RingSize cfg"] by (auto simp: pools_fit_def)
    then show ?thesis using False t(1,2) by (auto simp: Init_def bind_eq_None_conv)
  qed
qed

subsection \<open>Addresses\<close>

text \<open>The numeric value of a dotted quad, by which PostgreSQL orders IPv4 \<open>inet\<close> values.\<close>

fun split_on :: "char \<Rightarrow> string \<Rightarrow> string list" where
  "split_on d [] = [[]]"
| "split_on d (c # cs) =
     (if c = d then [] # split_on d cs
      else case split_on d cs of [] \<Rightarrow> [[c]] | w # ws \<Rightarrow> (c # w) # ws)"

definition inet_value :: "string \<Rightarrow> int option" where
  "inet_value s = (case map atoi (split_on (CHR ''.'') s) of
     [Some a, Some b, Some c, Some d] \<Rightarrow>
       if {a, b, c, d} \<subseteq> {0..255} then Some (((a * 256 + b) * 256 + c) * 256 + d) else None
   | _ \<Rightarrow> None)"

lemma split_on_word: "d \<notin> set w \<Longrightarrow> split_on d (w @ d # s) = w # split_on d s"
  by (induction w) auto

lemma split_on_last: "d \<notin> set w \<Longrightarrow> split_on d w = [w]"
  by (induction w) auto

lemma itoa_no_dot: "0 \<le> n \<Longrightarrow> CHR ''.'' \<notin> set (itoa n)"
  using nat_digits_digits [of "nat n"] by (auto simp: itoa_def is_digit_def)

lemma itoa_literals: "itoa 192 = ''192''" "itoa 168 = ''168''" "itoa 0 = ''0''" "itoa 255 = ''255''"
  by (simp_all add: itoa_def nat_digits.simps digit_char_def char_of_def bit_Suc_0_iff)

lemma inet_value_quad:
  assumes "0 \<le> a" "a < 256" "0 \<le> b" "b < 256"
  shows "inet_value (''192.168.'' @ itoa a @ ''.'' @ itoa b) = Some (3232235520 + a * 256 + b)"
proof -
  have s: "''192.168.'' @ itoa a @ ''.'' @ itoa b =
      itoa 192 @ CHR ''.'' # (itoa 168 @ CHR ''.'' # (itoa a @ CHR ''.'' # itoa b))"
    by (simp add: itoa_literals)
  have "in_i64 a" "in_i64 b" "in_i64 192" "in_i64 168" using assms by (auto simp: in_i64_def)
  then have "map atoi (split_on (CHR ''.'') (''192.168.'' @ itoa a @ ''.'' @ itoa b)) =
      [Some 192, Some 168, Some a, Some b]"
    unfolding s using assms by (simp add: split_on_word split_on_last itoa_no_dot atoi_itoa)
  then show ?thesis using assms by (simp add: inet_value_def)
qed

section \<open>Properties\<close>

text \<open>The environment and ring after start-up with the default settings, used by the witnesses.\<close>

lemma demo_env: "\<exists>e r. env_ok e \<and> ring_inv r \<and> contents r = []"
proof -
  have "config_ok (read_config Map.empty)" "MaxPayloadKB (read_config Map.empty) \<le> 2 ^ 30"
    by (simp_all add: config_ok_def read_config_def getEnvInt_def getenv_def)
  moreover have "pools_fit (read_config Map.empty)"
    by (simp add: pools_fit_def read_config_def getEnvInt_def getenv_def)
  ultimately show ?thesis using Init_ok [of "read_config Map.empty"] by fastforce
qed

definition demo_db :: db where
  "demo_db T c = \<lparr>rerr = None, nrows = 0, rows_err = None\<rparr>"

lemma demo_db_ok: "foreign_errors demo_db"
  by (simp add: foreign_errors_def demo_db_def)

text \<open>
  C10: \<open>doInsert\<close> refines the insert transaction. Whatever the database answers, it does not
  panic and its calls and result are those of the transaction that inserts one session
  owned by a user of the pool, then one to three events and one audit record that all refer
  to that session, and commits; it stops at the first call that fails, returns that error
  under its label, and rolls back. The session's identifier enters the ring, as its newest
  entry, exactly when the commit succeeded.
\<close>

theorem insert_transaction:
  assumes "env_ok e" and "ring_inv (ring st)"
  shows "\<exists>res st' sid uid reg md evs aud. doInsert e db st = Some (res, st') \<and>
     uid \<in> set (userPool (actors e)) \<and> 1 \<le> length evs \<and> length evs \<le> 3 \<and>
     (\<forall>ev \<in> set evs. event_of sid ev) \<and> audit_of e ''INSERT'' sid aud \<and>
     transaction db (trace st) (insert_plan (InsertSession sid uid reg md) evs aud) = (trace st', res) \<and>
     (res = None \<longrightarrow>
        trace st' = trace st @ [Begin, TxExec (InsertSession sid uid reg md)] @ map TxExec evs @
                    [TxExec aud, Commit, Rollback] \<and>
        contents (ring st') = recent (nat (rsize (ring st))) (contents (ring st) @ [sid])) \<and>
     (res \<noteq> None \<longrightarrow> ring st' = ring st)"
proof -
  obtain res st' where r: "doInsert e db st = Some (res, st')" "inserted e db (ring st) (trace st) res st'"
    using runs_doInsert [OF assms, of "trace st" db] unfolding runs_def here_def by blast
  obtain sid uid reg md evs aud where i: "uid \<in> set (userPool (actors e))" "1 \<le> length evs" "length evs \<le> 3"
      "\<forall>ev \<in> set evs. event_of sid ev" "audit_of e ''INSERT'' sid aud"
      "transaction db (trace st) (insert_plan (InsertSession sid uid reg md) evs aud) = (trace st', res)"
      "if res = None then Push (ring st) sid = Some (ring st') else ring st' = ring st"
    using r(2) unfolding inserted_def by blast
  let ?p = "insert_plan (InsertSession sid uid reg md) evs aud"
  have "trace st' = trace st @ [Begin] @ map fst ?p @ [Rollback]" if "res = None"
    using i(6) that run_plan_trace [of db "trace st @ [Begin]" ?p]
    by (auto simp: transaction_def split: option.splits prod.splits)
  moreover have "map fst ?p = TxExec (InsertSession sid uid reg md) # map TxExec evs @ [TxExec aud, Commit]"
    by (simp add: insert_plan_def comp_def)
  moreover have "contents (ring st') = recent (nat (rsize (ring st))) (contents (ring st) @ [sid])" if "res = None"
    using Push_recent [OF assms(2), of sid] i(7) that by auto
  ultimately show ?thesis using r(1) i
    by (intro exI [of _ res] exI [of _ st'] exI [of _ sid] exI [of _ uid] exI [of _ reg] exI [of _ md] exI [of _ evs]
        exI [of _ aud]) simp
qed

theorem insert_transaction_witness:
  "\<exists>e r res st' sid uid reg md evs aud.
     doInsert e demo_db \<lparr>ring = r, rsrc = sconst 0, entr = sconst 0, trace = []\<rparr> = Some (res, st') \<and>
     transaction demo_db [] (insert_plan (InsertSession sid uid reg md) evs aud) = (trace st', res) \<and>
     1 \<le> length evs"
proof -
  obtain e r where er: "env_ok e" "ring_inv r" using demo_env by blast
  let ?st = "\<lparr>ring = r, rsrc = sconst 0, entr = sconst 0, trace = []\<rparr>"
  have "ring_inv (ring ?st)" using er(2) by simp
  then obtain res st' sid uid reg md evs aud where
      "doInsert e demo_db ?st = Some (res, st')" "1 \<le> length evs"
      "transaction demo_db (trace ?st) (insert_plan (InsertSession sid uid reg md) evs aud) = (trace st', res)"
    using insert_transaction [OF er(1), of ?st demo_db] by blast
  then show ?thesis
    by (intro exI [of _ e] exI [of _ r] exI [of _ res] exI [of _ st'] exI [of _ sid] exI [of _ uid] exI [of _ reg]
        exI [of _ md] exI [of _ evs] exI [of _ aud]) simp
qed

text \<open>
  C23: \<open>doUpdate\<close> refines the update transaction: with an empty ring it is skipped without any
  call; otherwise it locks a session of the ring, updates that session, adds an audit record
  for it and commits, stopping at the first failure and rolling back. The ring is unchanged.
\<close>

theorem update_transaction:
  assumes "env_ok e" and "ring_inv (ring st)"
  shows "\<exists>res st'. doUpdate e db st = Some (res, st') \<and> ring st' = ring st \<and>
     (if contents (ring st) = [] then res = Some ErrSkipped \<and> trace st' = trace st
      else \<exists>sid md aud. sid \<in> set (contents (ring st)) \<and> audit_of e ''UPDATE'' sid aud \<and>
             transaction db (trace st) (update_plan sid md aud) = (trace st', res))"
proof -
  obtain res st' where "doUpdate e db st = Some (res, st')" "updated e db (ring st) (trace st) res st'"
    using runs_doUpdate [OF assms, of "trace st" db] unfolding runs_def here_def by blast
  then show ?thesis unfolding updated_def by (intro exI [of _ res] exI [of _ st']) (auto split: if_splits)
qed

theorem update_transaction_witness:
  "\<exists>e st res st'. contents (ring st) = [] \<and> doUpdate e demo_db st = Some (res, st') \<and> res = Some ErrSkipped \<and>
     trace st' = trace st"
proof -
  obtain e r where er: "env_ok e" "ring_inv r" "contents r = []" using demo_env by blast
  let ?st = "\<lparr>ring = r, rsrc = sconst 0, entr = sconst 0, trace = []\<rparr>"
  have "ring_inv (ring ?st)" using er(2) by simp
  from update_transaction [OF er(1) this, of demo_db] er(3) show ?thesis
    by (intro exI [of _ e] exI [of _ ?st]) auto
qed

text \<open>
  C11: Every operation is disciplined. For any operation name and any behaviour of the
  database, \<open>Execute\<close> does not panic and keeps the ring's invariant; a transaction that was
  begun is ended by exactly one \<open>Rollback\<close>, the last call made, and rows that were opened are
  closed. If the result is a skip, and the driver does not produce that error itself, then
  no writing statement was sent and the ring is unchanged.
\<close>

theorem Execute_disciplined:
  assumes "env_ok e" and "ring_inv (ring st)"
  shows "\<exists>res st' new. Execute e db op st = Some (res, st') \<and> ring_inv (ring st') \<and>
           trace st' = trace st @ new \<and> tidy db (trace st) new \<and>
           (foreign_errors db \<and> skipped res \<longrightarrow> ring st' = ring st \<and> (\<forall>c \<in> set new. \<not> writes c))"
  using runs_Execute [OF assms, of "trace st" db op] unfolding runs_def here_def disciplined_def by blast

theorem Execute_disciplined_witness:
  "\<exists>e st res st' new. Execute e demo_db OpDelete st = Some (res, st') \<and> trace st' = trace st @ new \<and>
     tidy demo_db (trace st) new \<and> (skipped res \<longrightarrow> (\<forall>c \<in> set new. \<not> writes c))"
proof -
  obtain e r where er: "env_ok e" "ring_inv r" using demo_env by blast
  let ?st = "\<lparr>ring = r, rsrc = sconst 0, entr = sconst 0, trace = []\<rparr>"
  have "ring_inv (ring ?st)" using er(2) by simp
  from Execute_disciplined [OF er(1) this, of demo_db OpDelete] demo_db_ok show ?thesis by blast
qed

text \<open>
  C25: The subnet read covers exactly the matching events. For every session identifier
  and every address \<open>randomIP\<close> can produce, the address lies between the two bounds of the
  query, in the numeric order of IPv4 addresses, exactly when its third octet is the
  identifier's first byte; and the bounds span 256 addresses.
\<close>

theorem subnet_exact:
  "\<exists>ip v lo hi. randomIP r = Some (ip, stl (stl r)) \<and> inet_value ip = Some v \<and>
     inet_value (fst (subnet sid)) = Some lo \<and> inet_value (snd (subnet sid)) = Some hi \<and> hi = lo + 255 \<and>
     (lo \<le> v \<and> v \<le> hi \<longleftrightarrow> int (shd r) mod 256 = uint (sid ! 0))"
proof -
  let ?a = "int (shd r) mod 256" and ?b = "int (shd (stl r)) mod 256" and ?o = "uint (sid ! 0)"
  have o: "0 \<le> ?o" "?o < 256" using uint_bounded [of "sid ! 0"] by simp_all
  have ip: "randomIP r = Some (''192.168.'' @ itoa ?a @ ''.'' @ itoa ?b, stl (stl r))"
    by (simp add: randomIP_def intn_def)
  have v: "inet_value (''192.168.'' @ itoa ?a @ ''.'' @ itoa ?b) = Some (3232235520 + ?a * 256 + ?b)"
    by (rule inet_value_quad) simp_all
  have lo: "inet_value (fst (subnet sid)) = Some (3232235520 + ?o * 256 + 0)"
    using inet_value_quad [OF o, of 0] by (simp add: subnet_def Let_def itoa_literals)
  have hi: "inet_value (snd (subnet sid)) = Some (3232235520 + ?o * 256 + 255)"
    using inet_value_quad [OF o, of 255] by (simp add: subnet_def Let_def itoa_literals)
  have b: "0 \<le> ?b" "?b < 256" by simp_all
  have "(3232235520 + ?o * 256 + 0 \<le> 3232235520 + ?a * 256 + ?b \<and>
         3232235520 + ?a * 256 + ?b \<le> 3232235520 + ?o * 256 + 255) \<longleftrightarrow> ?a = ?o"
    using b by linarith
  with ip v lo hi show ?thesis by (intro exI conjI) (assumption | simp)+
qed

text \<open>
  C24: Start-up establishes what the operations rely on, or panics in \<open>make\<close>. For every accepted
  configuration with payloads up to \<open>2 ^ 30\<close> KB, every seed table and every entropy source, the
  package initialisation succeeds. If \<open>RING_SIZE\<close>, \<open>USER_POOL_SIZE\<close> and \<open>ACTOR_POOL_SIZE\<close> are
  each at most \<open>2 ^ 44\<close>, \<open>Init\<close> does not panic and yields an empty ring of the configured size,
  non-empty actor pools of the configured sizes and well-formed template pools; if one of them
  is larger, which \<open>Load\<close> accepts, \<open>Init\<close> panics.
\<close>

theorem Init_establishes:
  assumes "config_ok cfg" and "MaxPayloadKB cfg \<le> 2 ^ 30"
  shows "\<exists>t. payload_init src = Some t \<and>
           (if RingSize cfg \<le> 2 ^ 44 \<and> UserPoolSize cfg \<le> 2 ^ 44 \<and> ActorPoolSize cfg \<le> 2 ^ 44
            then \<exists>r e ent'. Init src cfg t ent = Some ((r, e), ent') \<and> env_ok e \<and>
              ring_inv r \<and> contents r = [] \<and> rsize r = RingSize cfg \<and> ecfg e = cfg \<and> toastPct (tmpl e) = ToastPct cfg \<and>
              int (length (userPool (actors e))) = UserPoolSize cfg \<and> int (length (actorPool (actors e))) = ActorPoolSize cfg
            else Init src cfg t ent = None)"
  using Init_ok [OF assms] unfolding pools_fit_def .

theorem Init_establishes_witness:
  "\<exists>t. payload_init (\<lambda>_. sconst 1) = Some t \<and>
     (\<exists>r e ent'. Init (\<lambda>_. sconst 1) (read_config Map.empty) t (sconst 0) = Some ((r, e), ent') \<and> rsize r = 10000) \<and>
     config_ok (read_config Map.empty\<lparr>RingSize := 2 ^ 60\<rparr>) \<and>
     Init (\<lambda>_. sconst 1) (read_config Map.empty\<lparr>RingSize := 2 ^ 60\<rparr>) t (sconst 0) = None"
proof -
  let ?c = "read_config Map.empty" and ?b = "read_config Map.empty\<lparr>RingSize := 2 ^ 60\<rparr>"
  have c: "config_ok ?c" "MaxPayloadKB ?c \<le> 2 ^ 30" "RingSize ?c = 10000" "UserPoolSize ?c \<le> 2 ^ 44" "ActorPoolSize ?c \<le> 2 ^ 44"
    by (simp_all add: config_ok_def read_config_def getEnvInt_def getenv_def)
  then have b: "config_ok ?b" "MaxPayloadKB ?b \<le> 2 ^ 30" by (simp_all add: config_ok_def)
  obtain t where t: "payload_init (\<lambda>_. sconst 1) = Some t"
      "\<exists>r e ent'. Init (\<lambda>_. sconst 1) ?c t (sconst 0) = Some ((r, e), ent') \<and> rsize r = 10000"
    using Init_establishes [OF c(1,2), of "\<lambda>_. sconst 1" "sconst 0"] c(3-5) by auto
  have "Init (\<lambda>_. sconst 1) ?b t (sconst 0) = None"
    using Init_establishes [OF b, of "\<lambda>_. sconst 1" "sconst 0"] t(1) by simp
  with t b(1) show ?thesis by blast
qed

end
