(* ===== verification/Worker.thy ===== *)
theory Worker
  imports Ops Collector
begin

text \<open>
  The worker loop: \<open>workload/worker.go\<close>, with the operation metrics of \<open>metrics/metrics.go\<close>.

  The loop is generic in the executor it drives, as in the source, where \<open>Executor\<close> is an
  interface; the locale \<open>executor\<close> states what the loop relies on and \<open>oltpExecutor\<close> is
  interpreted in it. What the environment decides in one pass of the loop (whether the
  context is done at each of the points where it is asked, how the database behaves and how
  long the operation takes) is a \<open>tick\<close>; a run is a list of them. The Prometheus vectors are
  maps from label values, an observed histogram is the list of its observations.
\<close>

section \<open>Definitions\<close>

subsection \<open>Metrics\<close>

record OpMetrics =
  OpsTotal :: "(string \<times> string, int) gomap"
  OpDuration :: "(string, float64 list) gomap"
  WorkersActive :: int
  OpsSkipped :: "(string, int) gomap"

definition observe :: "(string, float64 list) gomap \<Rightarrow> string \<Rightarrow> float64 \<Rightarrow> (string, float64 list) gomap" where
  "observe m op d = AList.update op ((case map_of m op of None \<Rightarrow> [] | Some ds \<Rightarrow> ds) @ [d]) m"

definition RecordOp :: "OpMetrics \<Rightarrow> string \<Rightarrow> float64 \<Rightarrow> goerr option \<Rightarrow> OpMetrics" where
  "RecordOp m op durationSec err =
     (if err \<noteq> None then m\<lparr>OpsTotal := madd (OpsTotal m) (op, ''error'') 1\<rparr>
      else m\<lparr>OpsTotal := madd (OpsTotal m) (op, ''ok'') 1, OpDuration := observe (OpDuration m) op durationSec\<rparr>)"

definition RecordSkip :: "OpMetrics \<Rightarrow> string \<Rightarrow> OpMetrics" where
  "RecordSkip m op = m\<lparr>OpsSkipped := madd (OpsSkipped m) op 1\<rparr>"

subsection \<open>The loop\<close>

record 's worker =
  wexec :: 's
  wstats :: WorkerStats
  wmets :: OpMetrics

text \<open>\<open>ctx.Done\<close> at the top of the loop, the database during the operation, its duration in
  nanoseconds, \<open>ctx.Err() != nil\<close> after it, and \<open>ctx.Done\<close> during the think time.\<close>

record 'x tick =
  done_top :: bool
  world :: 'x
  elapsed :: int
  ctx_err :: bool
  done_think :: bool

definition errors_Is_opt :: "goerr option \<Rightarrow> goerr \<Rightarrow> bool" where
  "errors_Is_opt err t = (case err of None \<Rightarrow> False | Some e \<Rightarrow> errors_Is e t)"

definition isShutdownCancellation :: "bool \<Rightarrow> goerr option \<Rightarrow> bool" where
  "isShutdownCancellation ctxErr err =
     (ctxErr \<and> (errors_Is_opt err ErrCanceled \<or> errors_Is_opt err ErrDeadlineExceeded))"

text \<open>\<open>Execute\<close> of the executor: \<open>None\<close> is a panic, which is not recovered.\<close>

definition runOp ::
  "('x \<Rightarrow> string \<Rightarrow> 's \<Rightarrow> (goerr option \<times> 's) option) \<Rightarrow> 'x \<Rightarrow> string \<Rightarrow> 's worker \<Rightarrow> (goerr option \<times> 's worker) option" where
  "runOp execute x op w = do {
     let w = w\<lparr>wmets := (wmets w)\<lparr>WorkersActive := WorkersActive (wmets w) + 1\<rparr>\<rparr>;
     (err, s) \<leftarrow> execute x op (wexec w);
     let w = w\<lparr>wexec := s\<rparr>;
     Some (err, w\<lparr>wmets := (wmets w)\<lparr>WorkersActive := WorkersActive (wmets w) - 1\<rparr>\<rparr>)
   }"

text \<open>The three-way switch on the outcome.\<close>

definition account :: "string \<Rightarrow> float64 \<Rightarrow> bool \<Rightarrow> goerr option \<Rightarrow> 's worker \<Rightarrow> 's worker option" where
  "account op durationSec ctxErr err w =
     (if errors_Is_opt err ErrSkipped then Some (w\<lparr>wmets := RecordSkip (wmets w) op\<rparr>)
      else if isShutdownCancellation ctxErr err then Some w
      else do {
        let w = w\<lparr>wmets := RecordOp (wmets w) op durationSec err\<rparr>;
        ws \<leftarrow> Record (wstats w) op durationSec err;
        Some (w\<lparr>wstats := ws\<rparr>)
      })"

text \<open>One pass of the loop; the flag tells whether the worker goes on.\<close>

definition iteration ::
  "('x \<Rightarrow> string \<Rightarrow> 's \<Rightarrow> (goerr option \<times> 's) option) \<Rightarrow> ('s \<Rightarrow> (int \<times> 's) option) \<Rightarrow>
   WeightedOp list \<Rightarrow> int \<Rightarrow> 'x tick \<Rightarrow> 's worker \<Rightarrow> (bool \<times> 's worker) option" where
  "iteration execute roll wops thinkTime t w =
     (if done_top t then Some (False, w)
      else do {
        (k, s) \<leftarrow> roll (wexec w);
        let w = w\<lparr>wexec := s\<rparr>;
        let op = SelectOp k wops;
        (err, w) \<leftarrow> runOp execute (world t) op w;
        w \<leftarrow> account op (seconds (elapsed t)) (ctx_err t) err w;
        Some (\<not> (thinkTime > 0 \<and> done_think t), w)
      })"

fun worker_loop ::
  "('x \<Rightarrow> string \<Rightarrow> 's \<Rightarrow> (goerr option \<times> 's) option) \<Rightarrow> ('s \<Rightarrow> (int \<times> 's) option) \<Rightarrow>
   WeightedOp list \<Rightarrow> int \<Rightarrow> 'x tick list \<Rightarrow> 's worker \<Rightarrow> (bool \<times> 's worker) option" where
  "worker_loop execute roll wops thinkTime [] w = Some (True, w)"
| "worker_loop execute roll wops thinkTime (t # ts) w = do {
     (go, w) \<leftarrow> iteration execute roll wops thinkTime t w;
     if go then worker_loop execute roll wops thinkTime ts w else Some (False, w)
   }"

text \<open>\<open>RunWorker\<close> with the OLTP executor: the worker and its executor share one random source.\<close>

definition RunWorker ::
  "exec_env \<Rightarrow> WeightedOp list \<Rightarrow> db tick list \<Rightarrow> exec_state worker \<Rightarrow> (bool \<times> exec_state worker) option" where
  "RunWorker e wops ts w =
     worker_loop (Execute e) (draw (intn 100)) wops (duration (ThinkTimeMs (ecfg e)) Millisecond) ts w"

section \<open>Specification\<close>

definition observed :: "OpMetrics \<Rightarrow> string \<Rightarrow> float64 list" where
  "observed m op = (case map_of (OpDuration m) op of None \<Rightarrow> [] | Some ds \<Rightarrow> ds)"

text \<open>The exported metrics and the worker's statistics count the same operations.\<close>

definition agree :: "string list \<Rightarrow> WorkerStats \<Rightarrow> OpMetrics \<Rightarrow> bool" where
  "agree names ws m \<longleftrightarrow>
     (\<forall>op \<in> set names.
        mget (OpsTotal m) (op, ''ok'') = count (stat_at (data ws) op) - errors (stat_at (data ws) op) \<and>
        mget (OpsTotal m) (op, ''error'') = errors (stat_at (data ws) op) \<and>
        (\<forall>us. int (length (filter (\<lambda>d. to_micros d = us) (observed m op))) = mget (lat (stat_at (data ws) op)) us))"

text \<open>What one operation may change: nothing, the skips, or one attempt with its outcome, in the worker's
  statistics (attempts, errors, latencies) and in the metrics (totals by status, histogram) alike.\<close>

definition tallied :: "bool \<Rightarrow> bool \<Rightarrow> string \<Rightarrow> float64 \<Rightarrow> goerr option \<Rightarrow> 's worker \<Rightarrow> 's worker \<Rightarrow> bool" where
  "tallied rec skip op d err w w' \<longleftrightarrow>
     (\<forall>op'. let s = stat_at (data (wstats w)) op'; s' = stat_at (data (wstats w')) op'; hit = (rec \<and> op' = op) in
        count s' = count s + of_bool hit \<and>
        errors s' = errors s + of_bool (hit \<and> err \<noteq> None) \<and>
        (\<forall>us. mget (lat s') us = mget (lat s) us + of_bool (hit \<and> err = None \<and> to_micros d = us)) \<and>
        mget (OpsTotal (wmets w')) (op', ''ok'') = mget (OpsTotal (wmets w)) (op', ''ok'') + of_bool (hit \<and> err = None) \<and>
        mget (OpsTotal (wmets w')) (op', ''error'') = mget (OpsTotal (wmets w)) (op', ''error'') + of_bool (hit \<and> err \<noteq> None) \<and>
        observed (wmets w') op' = observed (wmets w) op' @ (if hit \<and> err = None then [d] else []) \<and>
        mget (OpsSkipped (wmets w')) op' = mget (OpsSkipped (wmets w)) op' + of_bool (skip \<and> op' = op)) \<and>
     WorkersActive (wmets w') = WorkersActive (wmets w)"

text \<open>The errors that are no outcome of the database: a skip, and the end of a context.\<close>

definition is_skip :: "goerr option \<Rightarrow> bool" where
  "is_skip err \<longleftrightarrow> (\<exists>x. err = Some x \<and> errors_Is x ErrSkipped)"

definition is_cancel :: "goerr option \<Rightarrow> bool" where
  "is_cancel err \<longleftrightarrow> (\<exists>x. err = Some x \<and> (errors_Is x ErrCanceled \<or> errors_Is x ErrDeadlineExceeded))"

definition zero_metrics :: OpMetrics where
  "zero_metrics = \<lparr>OpsTotal = [], OpDuration = [], WorkersActive = 0, OpsSkipped = []\<rparr>"

section \<open>Lemmas\<close>

lemma observed_observe:
  "observed (m\<lparr>OpDuration := observe (OpDuration m) op d\<rparr>) op' = observed m op' @ (if op' = op then [d] else [])"
  by (simp add: observed_def observe_def update_conv split: option.splits)

lemma RecordOp_simps:
  "mget (OpsTotal (RecordOp m op d err)) (op', ''ok'') =
     mget (OpsTotal m) (op', ''ok'') + (if op' = op \<and> err = None then 1 else 0)"
  "mget (OpsTotal (RecordOp m op d err)) (op', ''error'') =
     mget (OpsTotal m) (op', ''error'') + (if op' = op \<and> err \<noteq> None then 1 else 0)"
  "observed (RecordOp m op d err) op' = observed m op' @ (if op' = op \<and> err = None then [d] else [])"
  "WorkersActive (RecordOp m op d err) = WorkersActive m"
  using observed_observe [of "m\<lparr>OpsTotal := madd (OpsTotal m) (op, ''ok'') 1\<rparr>" op d op']
  by (auto simp: RecordOp_def mget_madd) (auto simp: observed_def)

lemma error_kinds:
  "errors_Is_opt err ErrSkipped \<longleftrightarrow> is_skip err"
  "isShutdownCancellation ctxErr err \<longleftrightarrow> ctxErr \<and> is_cancel err"
  by (auto simp: errors_Is_opt_def isShutdownCancellation_def is_skip_def is_cancel_def split: option.split)

lemma record_tallied:
  assumes "table_ok names (data (wstats w))" "op \<in> set names"
  shows "\<exists>ws. Record (wstats w) op d err = Some ws \<and> table_ok names (data ws) \<and>
    tallied True False op d err w (w\<lparr>wmets := RecordOp (wmets w) op d err, wstats := ws\<rparr>)"
proof -
  have "OpsSkipped (RecordOp (wmets w) op d err) = OpsSkipped (wmets w)" by (simp add: RecordOp_def)
  then have "tallied True False op d err w (w\<lparr>wmets := RecordOp (wmets w) op d err, wstats := (wstats w)\<lparr>data :=
      AList.update op (record_op (stat_at (data (wstats w)) op) d err) (data (wstats w))\<rparr>\<rparr>)"
    unfolding tallied_def Let_def by (auto simp: RecordOp_simps mget_record_op)
  then show ?thesis using Record_ok [OF assms, of d err] by simp
qed

lemma account_tallied:
  assumes "table_ok names (data (wstats w))" "op \<in> set names"
  shows "\<exists>w'. account op d ctxErr err w = Some w' \<and> wexec w' = wexec w \<and> table_ok names (data (wstats w')) \<and>
    tallied (\<not> is_skip err \<and> \<not> (ctxErr \<and> is_cancel err)) (is_skip err) op d err w w'"
proof -
  obtain ws where ws: "Record (wstats w) op d err = Some ws" "table_ok names (data ws)"
      "tallied True False op d err w (w\<lparr>wmets := RecordOp (wmets w) op d err, wstats := ws\<rparr>)"
    using record_tallied [OF assms] by blast
  have "tallied False True op d err w (w\<lparr>wmets := RecordSkip (wmets w) op\<rparr>)" "tallied False False op d err w w"
    by (simp_all add: tallied_def RecordSkip_def mget_madd observed_def Let_def)
  then show ?thesis
    using ws assms(1) by (cases "is_skip err"; cases ctxErr; cases "is_cancel err") (simp_all add: account_def error_kinds)
qed

lemma tallied_agree:
  "tallied rec skip op d err w w' \<Longrightarrow> agree names (wstats w) (wmets w) \<Longrightarrow> agree names (wstats w') (wmets w')"
  unfolding tallied_def agree_def Let_def by auto

lemma tallied_cong:
  "wstats v = wstats w \<Longrightarrow> wmets v = wmets w \<Longrightarrow> tallied rec skip op d err v w' = tallied rec skip op d err w w'"
  by (simp add: tallied_def)

section \<open>What the loop relies on\<close>

locale executor =
  fixes execute :: "'x \<Rightarrow> string \<Rightarrow> 's \<Rightarrow> (goerr option \<times> 's) option"
    and roll :: "'s \<Rightarrow> (int \<times> 's) option"
    and ok :: "'s \<Rightarrow> bool"
  assumes execute_total: "ok s \<Longrightarrow> \<exists>err s'. execute x op s = Some (err, s') \<and> ok s'"
    and roll_total: "ok s \<Longrightarrow> \<exists>k s'. roll s = Some (k, s') \<and> ok s'"
begin

text \<open>How the outcome of one operation is accounted for.\<close>

lemma iteration_outcome:
  assumes "ok (wexec w)" "wops \<noteq> []" "table_ok (OpNames wops) (data (wstats w))" "\<not> done_top t"
  shows "\<exists>k s err s' w'. roll (wexec w) = Some (k, s) \<and> execute (world t) (SelectOp k wops) s = Some (err, s') \<and> ok s' \<and>
    SelectOp k wops \<in> set (OpNames wops) \<and>
    iteration execute roll wops thinkTime t w = Some (\<not> (thinkTime > 0 \<and> done_think t), w') \<and> wexec w' = s' \<and>
    table_ok (OpNames wops) (data (wstats w')) \<and>
    tallied (\<not> is_skip err \<and> \<not> (ctx_err t \<and> is_cancel err)) (is_skip err) (SelectOp k wops) (seconds (elapsed t)) err w w'"
proof -
  obtain k s where r: "roll (wexec w) = Some (k, s)" "ok s" using roll_total [OF assms(1)] by blast
  let ?op = "SelectOp k wops" and ?d = "seconds (elapsed t)"
  obtain err s' where x: "execute (world t) ?op s = Some (err, s')" "ok s'" using execute_total [OF r(2)] by blast
  have op: "?op \<in> set (OpNames wops)" using assms(2) by (rule SelectOp_in_names)
  let ?w = "w\<lparr>wexec := s'\<rparr>"
  have run: "runOp execute (world t) ?op (w\<lparr>wexec := s\<rparr>) = Some (err, ?w)"
    using x(1) by (simp add: runOp_def)
  obtain w' where w': "account ?op ?d (ctx_err t) err ?w = Some w'" "wexec w' = s'" "table_ok (OpNames wops) (data (wstats w'))"
      "tallied (\<not> is_skip err \<and> \<not> (ctx_err t \<and> is_cancel err)) (is_skip err) ?op ?d err ?w w'"
    using account_tallied [of "OpNames wops" ?w ?op ?d "ctx_err t" err] assms(3) op by auto
  have "iteration execute roll wops thinkTime t w = Some (\<not> (thinkTime > 0 \<and> done_think t), w')"
    using assms(4) r(1) run w'(1) by (simp add: iteration_def)
  moreover have "tallied (\<not> is_skip err \<and> \<not> (ctx_err t \<and> is_cancel err)) (is_skip err) ?op ?d err w w'"
    using w'(4) by (simp add: tallied_cong [of ?w w])
  ultimately show ?thesis using r(1) x op w'(2,3) by blast
qed

text \<open>Both records of a run describe the same population.\<close>

lemma loop_agree:
  assumes "ok (wexec w)" "wops \<noteq> []" "table_ok (OpNames wops) (data (wstats w))"
    "agree (OpNames wops) (wstats w) (wmets w)"
  shows "\<exists>go w'. worker_loop execute roll wops thinkTime ts w = Some (go, w') \<and> ok (wexec w') \<and>
           table_ok (OpNames wops) (data (wstats w')) \<and> agree (OpNames wops) (wstats w') (wmets w') \<and>
           WorkersActive (wmets w') = WorkersActive (wmets w) \<and>
           ((\<exists>t \<in> set ts. done_top t) \<longrightarrow> \<not> go)"
  using assms
proof (induction ts arbitrary: w)
  case (Cons t ts)
  show ?case
  proof (cases "done_top t")
    case True
    then show ?thesis using Cons.prems by (intro exI [of _ False] exI [of _ w]) (simp add: iteration_def)
  next
    case False
    obtain go w' rec skip op d err where it: "iteration execute roll wops thinkTime t w = Some (go, w')" "ok (wexec w')"
        "table_ok (OpNames wops) (data (wstats w'))" and out: "tallied rec skip op d err w w'"
      using iteration_outcome [OF Cons.prems(1-3) False, of thinkTime] by metis
    have a: "agree (OpNames wops) (wstats w') (wmets w')" "WorkersActive (wmets w') = WorkersActive (wmets w)"
      using tallied_agree [OF out Cons.prems(4)] out by (simp_all add: tallied_def)
    show ?thesis
    proof (cases go)
      case True
      then show ?thesis using it Cons.IH [OF it(2) Cons.prems(2) it(3) a(1)] a(2) False by auto
    next
      case False
      then show ?thesis using it a by (intro exI [of _ False] exI [of _ w']) simp
    qed
  qed
qed (auto intro: exI [of _ True])

end

lemma draw_total: "\<exists>k st'. draw (intn 100) st = Some (k, st') \<and> ring st' = ring st"
  by (simp add: draw_def intn_def)

interpretation oltp: executor "Execute e" "draw (intn 100)" "\<lambda>st. env_ok e \<and> ring_inv (ring st)" for e
proof (unfold_locales, goal_cases)
  case (1 s x op)
  then show ?case
    using runs_Execute [of e "ring s" "trace s" x op] unfolding runs_def here_def disciplined_def by blast
next
  case (2 s)
  then show ?case using draw_total [of s] by auto
qed

lemma fresh_agree: "agree names (newWorkerStats names) zero_metrics"
  by (simp add: agree_def newWorkerStats_fresh fresh_stats_ok zero_metrics_def observed_def mget_def)
     (simp add: opStats_zero_def)

section \<open>Properties\<close>

lemma worker_runs:
  assumes "env_ok e" and "ring_inv (ring x)" and "wops \<noteq> []"
  shows "\<exists>go w. RunWorker e wops ts \<lparr>wexec = x, wstats = newWorkerStats (OpNames wops), wmets = zero_metrics\<rparr> = Some (go, w) \<and>
           agree (OpNames wops) (wstats w) (wmets w) \<and> table_ok (OpNames wops) (data (wstats w)) \<and>
           WorkersActive (wmets w) = 0 \<and> ring_inv (ring (wexec w)) \<and> ((\<exists>t \<in> set ts. done_top t) \<longrightarrow> \<not> go)"
proof -
  let ?w = "\<lparr>wexec = x, wstats = newWorkerStats (OpNames wops), wmets = zero_metrics\<rparr>"
  have t: "table_ok (OpNames wops) (data (wstats ?w))" by (simp add: newWorkerStats_fresh fresh_stats_ok)
  have "WorkersActive (wmets ?w) = 0" by (simp add: zero_metrics_def)
  moreover have "env_ok e \<and> ring_inv (ring (wexec ?w))" "agree (OpNames wops) (wstats ?w) (wmets ?w)"
    using assms(1,2) fresh_agree by simp_all
  ultimately show ?thesis
    using oltp.loop_agree [of e ?w wops "duration (ThinkTimeMs (ecfg e)) Millisecond" ts, OF _ assms(3) t]
    unfolding RunWorker_def by metis
qed

text \<open>
  C13: The exported metrics and the exact statistics describe the same population. A worker
  started with fresh statistics never panics, whatever the database does and for any number
  of passes; at every point of its run, for every operation of the mix, \<open>ops_total\<close> with
  status ok and error equal the worker's successes and errors, and the latencies observed by
  the histogram are, microsecond by microsecond, those of the worker's exact latency map.
  The gauge of active workers is back at its value, the ring is intact, and the worker has
  returned if the context was done at the top of some pass.
\<close>

theorem worker_population:
  assumes "env_ok e" and "ring_inv (ring x)" and "wops \<noteq> []"
  shows "\<exists>go w. RunWorker e wops ts \<lparr>wexec = x, wstats = newWorkerStats (OpNames wops), wmets = zero_metrics\<rparr> = Some (go, w) \<and>
           agree (OpNames wops) (wstats w) (wmets w) \<and> table_ok (OpNames wops) (data (wstats w)) \<and>
           WorkersActive (wmets w) = 0 \<and> ring_inv (ring (wexec w)) \<and> ((\<exists>t \<in> set ts. done_top t) \<longrightarrow> \<not> go)"
  using worker_runs [OF assms, of ts] .

theorem worker_population_witness:
  "\<exists>e x go w. RunWorker e [\<lparr>Name = ''insert'', Weight = 100\<rparr>]
       [\<lparr>done_top = False, world = demo_db, elapsed = 5000, ctx_err = False, done_think = False\<rparr>,
        \<lparr>done_top = True, world = demo_db, elapsed = 0, ctx_err = True, done_think = True\<rparr>]
       \<lparr>wexec = x, wstats = newWorkerStats [''insert''], wmets = zero_metrics\<rparr> = Some (go, w) \<and>
     agree [''insert''] (wstats w) (wmets w) \<and> \<not> go"
proof -
  obtain e r where er: "env_ok e" "ring_inv r" using demo_env by blast
  let ?x = "\<lparr>ring = r, rsrc = sconst 0, entr = sconst 0, trace = []\<rparr>"
  have "ring_inv (ring ?x)" using er(2) by simp
  then show ?thesis
    using worker_population [OF er(1), of ?x "[\<lparr>Name = ''insert'', Weight = 100\<rparr>]"
      "[\<lparr>done_top = False, world = demo_db, elapsed = 5000, ctx_err = False, done_think = False\<rparr>,
        \<lparr>done_top = True, world = demo_db, elapsed = 0, ctx_err = True, done_think = True\<rparr>]"]
    by (intro exI [of _ e] exI [of _ ?x]) (auto simp: OpNames_def)
qed

text \<open>
  C14: Every executed operation is accounted for in exactly one way, by what \<open>Execute\<close> returned. In
  one pass of the loop with the context not yet done, the random source selects an operation of
  the mix and \<open>Execute\<close> runs it. If its error is \<open>errSkipped\<close>, only the skips of this operation
  increase. If the context has ended meanwhile and the error is a cancellation or a deadline,
  nothing changes. In every other case, whether or not the context has ended, the operation is
  recorded both in the worker's statistics and in the metrics: a success as one more attempt, with its latency in the
  exact map and in the histogram, an error as one more attempt and error, with no latency. So a
  genuine failure during shutdown, and a deadline that passes while the run goes on, are
  counted. Nothing about any other operation changes, and the worker stops after the
  pass exactly if the context ends its think time.
\<close>

theorem iteration_accounting:
  assumes "env_ok e" and "ring_inv (ring (wexec w))" and "wops \<noteq> []"
    and "table_ok (OpNames wops) (data (wstats w))" and "\<not> done_top t"
  shows "\<exists>k s op err s' w'. draw (intn 100) (wexec w) = Some (k, s) \<and> op = SelectOp k wops \<and>
     op \<in> set (OpNames wops) \<and> Execute e (world t) op s = Some (err, s') \<and>
     iteration (Execute e) (draw (intn 100)) wops think t w = Some (\<not> (think > 0 \<and> done_think t), w') \<and> wexec w' = s' \<and>
     (is_skip err \<longrightarrow> tallied False True op (seconds (elapsed t)) err w w') \<and>
     (\<not> is_skip err \<and> ctx_err t \<and> is_cancel err \<longrightarrow> tallied False False op (seconds (elapsed t)) err w w') \<and>
     (\<not> is_skip err \<and> \<not> (ctx_err t \<and> is_cancel err) \<longrightarrow> tallied True False op (seconds (elapsed t)) err w w')"
proof -
  obtain k s err s' w' where it: "draw (intn 100) (wexec w) = Some (k, s)" "Execute e (world t) (SelectOp k wops) s = Some (err, s')"
      "SelectOp k wops \<in> set (OpNames wops)" "wexec w' = s'"
      "iteration (Execute e) (draw (intn 100)) wops think t w = Some (\<not> (think > 0 \<and> done_think t), w')"
      "tallied (\<not> is_skip err \<and> \<not> (ctx_err t \<and> is_cancel err)) (is_skip err) (SelectOp k wops) (seconds (elapsed t)) err w w'"
    using oltp.iteration_outcome [of e w wops t think] assms by blast
  then show ?thesis
    by (intro exI [of _ k] exI [of _ s] exI [of _ "SelectOp k wops"] exI [of _ err] exI [of _ s'] exI [of _ w']) auto
qed

text \<open>A database that is gone, while the run is ending.\<close>

definition broken_db :: db where
  "broken_db T c = \<lparr>rerr = Some (ErrText ''use of closed network connection''), nrows = 0, rows_err = None\<rparr>"

theorem iteration_accounting_witness:
  "\<exists>e r go w'. iteration (Execute e) (draw (intn 100)) [\<lparr>Name = ''insert'', Weight = 100\<rparr>] 0
     \<lparr>done_top = False, world = broken_db, elapsed = 5000, ctx_err = True, done_think = False\<rparr>
     \<lparr>wexec = \<lparr>ring = r, rsrc = sconst 0, entr = sconst 0, trace = []\<rparr>,
      wstats = newWorkerStats [''insert''], wmets = zero_metrics\<rparr> = Some (go, w') \<and>
     errors (stat_at (data (wstats w')) ''insert'') = 1 \<and> mget (OpsTotal (wmets w')) (''insert'', ''error'') = 1"
proof -
  obtain e r where er: "env_ok e" "ring_inv r" using demo_env by blast
  let ?t = "\<lparr>done_top = False, world = broken_db, elapsed = 5000, ctx_err = True, done_think = False\<rparr>"
  let ?w = "\<lparr>wexec = \<lparr>ring = r, rsrc = sconst 0, entr = sconst 0, trace = []\<rparr>,
      wstats = newWorkerStats [''insert''], wmets = zero_metrics\<rparr>"
  let ?ops = "[\<lparr>Name = ''insert'', Weight = 100\<rparr>]"
  have tab: "table_ok (OpNames ?ops) (data (wstats ?w))" by (simp add: OpNames_def newWorkerStats_fresh fresh_stats_ok)
  have z: "errors (stat_at (data (wstats ?w)) op) = 0" "mget (OpsTotal (wmets ?w)) (op, st) = 0" for op st
    by (simp_all add: newWorkerStats_fresh fresh_stats_ok zero_metrics_def) (simp add: opStats_zero_def)
  have pre: "ring_inv (ring (wexec ?w))" "?ops \<noteq> []" "\<not> done_top ?t" using er(2) by simp_all
  obtain s op err s' w' where it: "op \<in> set (OpNames ?ops)" "Execute e (world ?t) op s = Some (err, s')"
      "iteration (Execute e) (draw (intn 100)) ?ops 0 ?t ?w = Some (\<not> ((0 :: int) > 0 \<and> done_think ?t), w')"
      "\<not> is_skip err \<and> \<not> (ctx_err ?t \<and> is_cancel err) \<longrightarrow> tallied True False op (seconds (elapsed ?t)) err ?w w'"
    using iteration_accounting [OF er(1) pre(1,2) tab pre(3), of 0] by blast
  have op: "op = OpInsert" "op = ''insert''" using it(1) by (simp_all add: OpNames_def OpInsert_def)
  have "err = Some (ErrText ''use of closed network connection'')"
    using it(2) by (auto simp: op(1) Execute_def doInsert_def broken_db_def dbcall_def split: Option.bind_splits)
  then have "tallied True False op (seconds (elapsed ?t)) err ?w w'" "err \<noteq> None"
    using it(4) by (auto simp: is_skip_def is_cancel_def)
  then have "errors (stat_at (data (wstats w')) ''insert'') = 1" "mget (OpsTotal (wmets w')) (''insert'', ''error'') = 1"
    unfolding tallied_def Let_def op(2) z by simp_all
  then show ?thesis using it(3) by blast
qed

end
