(* ===== verification/Trackers.thy ===== *)
theory Trackers
  imports Float64
begin

text \<open>
  What the statistics pollers of \<open>metrics/\<close> share: the result of a query as the driver hands
  it out row by row, the Prometheus counter of the vendored client library, and the two
  delta trackers (\<open>indexScanTracker\<close> on \<open>int64\<close>, \<open>pgStatsTracker\<close> on \<open>float64\<close>).

  A poller turns a cumulative statistic of the server, which may be reset, into a counter of
  its own. The contract of a tracker is the locale \<open>delta_tracker\<close>; what the counter then
  shows, the \<open>gain\<close> of the observed series, is derived there once and used for both trackers.
\<close>

section \<open>Definitions\<close>

subsection \<open>Query results\<close>

text \<open>
  \<open>pool.Query\<close>: its error, or the outcome of \<open>Scan\<close> on each row that \<open>Next\<close> delivers together
  with what \<open>rows.Err\<close> reports after the last one. \<open>QueryRow(...).Scan\<close>: an error or the row.
\<close>

type_synonym 'r rows = "goerr + ((goerr + 'r) list \<times> goerr option)"
type_synonym 'r row = "goerr + 'r"

text \<open>The loop \<open>for rows.Next()\<close> that returns at the first failing \<open>Scan\<close>.\<close>

fun scan_rows ::
  "('r \<Rightarrow> 's \<Rightarrow> 's option) \<Rightarrow> (goerr + 'r) list \<Rightarrow> goerr option \<Rightarrow> 's \<Rightarrow> (goerr option \<times> 's) option" where
  "scan_rows f [] fin s = Some (fin, s)"
| "scan_rows f (Inl err # rs) fin s = Some (Some err, s)"
| "scan_rows f (Inr r # rs) fin s = do { s \<leftarrow> f r s; scan_rows f rs fin s }"

subsection \<open>Counters\<close>

record counter =
  valInt :: nat
  valBits :: float64

definition counter_zero :: counter where
  "counter_zero = \<lparr>valInt = 0, valBits = 0\<rparr>"

text \<open>\<open>uint64(v)\<close> of a non-negative \<open>float64\<close>; out of range it is what amd64 yields.\<close>

definition f64_to_uint64 :: "float64 \<Rightarrow> nat" where
  "f64_to_uint64 v = (if v < 2 ^ 64 then nat \<lfloor>v\<rfloor> else 2 ^ 63)"

definition counter_Add :: "counter \<Rightarrow> float64 \<Rightarrow> counter option" where
  "counter_Add c v =
     (if v < 0 then None
      else let ival = f64_to_uint64 v in
        if f64_of_int (int ival) = v then Some (c\<lparr>valInt := (valInt c + ival) mod 2 ^ 64\<rparr>)
        else Some (c\<lparr>valBits := fadd (valBits c) v\<rparr>))"

definition counter_get :: "counter \<Rightarrow> float64" where
  "counter_get c = fadd (valBits c) (f64_of_int (int (valInt c)))"

text \<open>\<open>vec.WithLabelValues(l)\<close>: a counter that was never used is zero.\<close>

definition vec_at :: "('l, counter) gomap \<Rightarrow> 'l \<Rightarrow> counter" where
  "vec_at vec l = (case map_of vec l of None \<Rightarrow> counter_zero | Some c \<Rightarrow> c)"

definition vec_Add :: "('l, counter) gomap \<Rightarrow> 'l \<Rightarrow> float64 \<Rightarrow> ('l, counter) gomap option" where
  "vec_Add vec l v = do { c \<leftarrow> counter_Add (vec_at vec l) v; Some (AList.update l c vec) }"

subsection \<open>Trackers\<close>

record indexScanTracker =
  i_lastSeen :: "(string, int) gomap"

definition newIndexScanTracker :: indexScanTracker where
  "newIndexScanTracker = \<lparr>i_lastSeen = []\<rparr>"

definition index_delta :: "indexScanTracker \<Rightarrow> string \<Rightarrow> int \<Rightarrow> int \<times> indexScanTracker" where
  "index_delta t key current =
     (let prev = map_of (i_lastSeen t) key;
          t = t\<lparr>i_lastSeen := AList.update key current (i_lastSeen t)\<rparr>
      in case prev of
           None \<Rightarrow> (0, t)
         | Some p \<Rightarrow> if current < p then (0, t) else (i64 (current - p), t))"

record pgStatsTracker =
  f_lastSeen :: "(string, float64) gomap"

definition newPGStatsTracker :: pgStatsTracker where
  "newPGStatsTracker = \<lparr>f_lastSeen = []\<rparr>"

definition pg_delta :: "pgStatsTracker \<Rightarrow> string \<Rightarrow> float64 \<Rightarrow> float64 \<times> pgStatsTracker" where
  "pg_delta t key current =
     (let prev = map_of (f_lastSeen t) key;
          t = t\<lparr>f_lastSeen := AList.update key current (f_lastSeen t)\<rparr>
      in case prev of
           None \<Rightarrow> (0, t)
         | Some p \<Rightarrow> if current < p then (0, t) else (fsub current p, t))"

section \<open>Specification\<close>

text \<open>The rows a loop processes: those before the first one whose \<open>Scan\<close> fails.\<close>

fun scanned :: "(goerr + 'r) list \<Rightarrow> 'r list" where
  "scanned [] = []"
| "scanned (Inl err # rs) = []"
| "scanned (Inr r # rs) = r # scanned rs"

fun scan_error :: "(goerr + 'r) list \<Rightarrow> goerr option \<Rightarrow> goerr option" where
  "scan_error [] fin = fin"
| "scan_error (Inl err # rs) fin = Some err"
| "scan_error (Inr r # rs) fin = scan_error rs fin"

definition delivered :: "'r rows \<Rightarrow> 'r list" where
  "delivered q = (case q of Inl err \<Rightarrow> [] | Inr (scans, fin) \<Rightarrow> scanned scans)"

text \<open>How much a cumulative statistic has grown over a series of observations, a drop being a
  reset after which nothing is known of the growth since the observation before.\<close>

fun gain :: "'v :: linordered_ab_group_add list \<Rightarrow> 'v" where
  "gain [] = 0"
| "gain [x] = 0"
| "gain (x # y # zs) = (if y < x then 0 else y - x) + gain (y # zs)"

definition last_opt :: "'v list \<Rightarrow> 'v option" where
  "last_opt xs = (if xs = [] then None else Some (last xs))"

definition holds_count :: "counter \<Rightarrow> int \<Rightarrow> bool" where
  "holds_count c n \<longleftrightarrow> valBits c = 0 \<and> int (valInt c) = n"

section \<open>Lemmas\<close>

lemma gain_snoc:
  "gain (xs @ [v]) = gain xs + (case last_opt xs of None \<Rightarrow> 0 | Some p \<Rightarrow> if v < p then 0 else v - p)"
  by (induction xs rule: gain.induct) (auto simp: last_opt_def add_ac)

lemma gain_nonneg: "0 \<le> gain xs"
  by (induction xs rule: gain.induct) auto

lemma gain_prefix: "gain xs \<le> gain (xs @ ys)"
proof (induction ys rule: rev_induct)
  case (snoc y ys)
  have "gain (xs @ ys) \<le> gain ((xs @ ys) @ [y])" by (subst gain_snoc) (auto simp: last_opt_def)
  then show ?case using snoc by simp
qed simp

text \<open>Without resets the counter shows the difference between the first and the last reading.\<close>

lemma gain_monotone: "sorted xs \<Longrightarrow> xs \<noteq> [] \<Longrightarrow> gain xs = last xs - hd xs"
  by (induction xs rule: gain.induct) auto

lemma last_opt_snoc [simp]: "last_opt (xs @ [v]) = Some v" and last_opt_Nil [simp]: "last_opt [] = None"
  by (simp_all add: last_opt_def)

lemma holds_count_zero [simp]: "holds_count counter_zero 0"
  by (simp add: holds_count_def counter_zero_def)

lemma holds_count_get: "holds_count c n \<Longrightarrow> 0 \<le> n \<Longrightarrow> n \<le> 2 ^ 53 \<Longrightarrow> counter_get c = of_int n"
  by (simp add: holds_count_def counter_get_def fadd_def rne_exact is_f64_of_int)

lemma counter_Add_whole:
  assumes "holds_count c n" "0 \<le> d" "d \<le> 2 ^ 53" "n + d < 2 ^ 64"
  shows "\<exists>c'. counter_Add c (of_int d) = Some c' \<and> holds_count c' (n + d)"
proof -
  have "f64_to_uint64 (of_int d) = nat d" using assms(2,3) by (simp add: f64_to_uint64_def)
  moreover have "(valInt c + nat d) mod 2 ^ 64 = valInt c + nat d"
    using assms unfolding holds_count_def by (intro mod_less) auto
  ultimately show ?thesis using assms by (simp add: counter_Add_def holds_count_def)
qed

lemma counter_Add_total: "0 \<le> v \<Longrightarrow> \<exists>c'. counter_Add c v = Some c'"
  by (simp add: counter_Add_def Let_def)

lemma vec_at_Nil [simp]: "vec_at [] l = counter_zero"
  by (simp add: vec_at_def)

lemma vec_at_update [simp]: "vec_at (AList.update l c vec) l' = (if l' = l then c else vec_at vec l')"
  by (simp add: vec_at_def update_conv)

section \<open>The contract of a tracker\<close>

locale delta_tracker =
  fixes fresh :: 't
    and delta :: "'t \<Rightarrow> string \<Rightarrow> 'v :: linordered_ab_group_add \<Rightarrow> 'v \<times> 't"
    and seen :: "'t \<Rightarrow> string \<Rightarrow> 'v option"
    and exact :: "'v \<Rightarrow> bool"
  assumes fresh_seen: "seen fresh k = None"
    and delta_seen: "seen (snd (delta t k v)) = (seen t)(k \<mapsto> v)"
    and delta_first: "seen t k = None \<Longrightarrow> fst (delta t k v) = 0"
    and delta_reset: "seen t k = Some p \<Longrightarrow> v < p \<Longrightarrow> fst (delta t k v) = 0"
    and delta_growth: "seen t k = Some p \<Longrightarrow> p \<le> v \<Longrightarrow> exact p \<Longrightarrow> exact v \<Longrightarrow> fst (delta t k v) = v - p"
begin

text \<open>The tracker has seen the observations \<open>h k\<close> of each key \<open>k\<close>.\<close>

definition follows :: "'t \<Rightarrow> (string \<Rightarrow> 'v list) \<Rightarrow> bool" where
  "follows t h \<longleftrightarrow> (\<forall>k. seen t k = last_opt (h k))"

lemma follows_fresh: "follows fresh (\<lambda>k. [])"
  by (simp add: follows_def fresh_seen)

lemma follows_delta: "follows t h \<Longrightarrow> follows (snd (delta t k v)) (h(k := h k @ [v]))"
  by (simp add: follows_def delta_seen)

lemma delta_gain:
  assumes "follows t h" "\<forall>x \<in> set (h k). exact x" "exact v"
  shows "gain (h k @ [v]) = gain (h k) + fst (delta t k v)"
proof (cases "h k = []")
  case True
  then show ?thesis using assms(1) delta_first [of t k v] by (simp add: follows_def)
next
  case False
  then have s: "seen t k = Some (last (h k))" and e: "exact (last (h k))"
    using assms by (auto simp: follows_def last_opt_def)
  show ?thesis
    using False delta_reset [OF s, of v] delta_growth [OF s _ e assms(3)]
    by (simp add: gain_snoc last_opt_def not_less)
qed

lemma delta_nonneg:
  assumes "follows t h" "\<forall>x \<in> set (h k). exact x" "exact v"
  shows "0 \<le> fst (delta t k v)"
  using delta_gain [OF assms] gain_prefix [of "h k" "[v]"] by simp

end

text \<open>Cumulative statistics that fit a \<open>float64\<close> exactly: whole numbers up to \<open>2 ^ 53\<close>.\<close>

definition whole_int :: "int \<Rightarrow> bool" where
  "whole_int v \<longleftrightarrow> 0 \<le> v \<and> v \<le> 2 ^ 53"

definition whole_f64 :: "float64 \<Rightarrow> bool" where
  "whole_f64 v \<longleftrightarrow> (\<exists>n. v = of_int n \<and> whole_int n)"

lemma whole_i64: "whole_int p \<Longrightarrow> whole_int v \<Longrightarrow> i64 (v - p) = v - p"
  by (rule i64_id) (simp add: in_i64_def whole_int_def)

lemma whole_fsub:
  assumes "whole_f64 p" "whole_f64 v" "p \<le> v"
  shows "fsub v p = v - p"
proof -
  obtain m n where mn: "p = of_int m" "v = of_int n" "whole_int m" "whole_int n"
    using assms by (auto simp: whole_f64_def)
  then have "is_f64 (of_int (n - m))" using assms(3) by (intro is_f64_of_int) (auto simp: whole_int_def)
  then show ?thesis by (simp add: fsub_def mn(1,2) rne_exact)
qed

interpretation scans: delta_tracker newIndexScanTracker index_delta "\<lambda>t. map_of (i_lastSeen t)" whole_int
  by unfold_locales
     (auto simp: newIndexScanTracker_def index_delta_def update_conv' whole_i64 Let_def split: option.splits)

interpretation pgstats: delta_tracker newPGStatsTracker pg_delta "\<lambda>t. map_of (f_lastSeen t)" whole_f64
  by unfold_locales
     (auto simp: newPGStatsTracker_def pg_delta_def update_conv' whole_fsub Let_def split: option.splits)

lemma pg_delta_nonneg: "0 \<le> fst (pg_delta t k v)"
  by (auto simp: pg_delta_def fsub_def Let_def intro: rne_nonneg split: option.splits)

end
