(* ===== verification/TableStats.thy ===== *)
theory TableStats
  imports Trackers
begin

text \<open>
  Polling \<open>pg_stat_user_tables\<close> and \<open>pg_stat_user_indexes\<close>: \<open>metrics/index_stats.go\<close>.

  A run of a polling loop is a list of events: a tick of the ticker with the result of the
  query made then, or the context being done. A gauge vector is a map from label values to
  the value last set, a counter vector a map to counters. The locale \<open>poller\<close> relates a loop
  to the rows it has been handed; both collectors are interpreted in it.
\<close>

section \<open>Definitions\<close>

record IndexMetrics =
  indexSizeBytes :: "(string \<times> string, float64) gomap"
  indexScansTotal :: "(string \<times> string, counter) gomap"

record TableMetrics =
  tableSizeBytes :: "(string, float64) gomap"
  tableLiveTuples :: "(string, float64) gomap"
  tableDeadTuples :: "(string, float64) gomap"
  tableModSinceAnalyze :: "(string, float64) gomap"
  tableAutovacuumTotal :: "(string, counter) gomap"
  tableAutoanalyzeTotal :: "(string, counter) gomap"

text \<open>A row as scanned: index, table, size, scans; and table, size, live and dead tuples,
  modifications, autovacuum and autoanalyze runs.\<close>

type_synonym index_row = "string \<times> string \<times> int \<times> int"
type_synonym table_row = "string \<times> int \<times> int \<times> int \<times> int \<times> int \<times> int"

text \<open>\<open>if d := tracker.delta(key, current); d > 0 { vec.WithLabelValues(l).Add(float64(d)) }\<close>\<close>

definition add_delta ::
  "string \<Rightarrow> int \<Rightarrow> 'l \<Rightarrow> indexScanTracker \<times> ('l, counter) gomap \<Rightarrow> (indexScanTracker \<times> ('l, counter) gomap) option" where
  "add_delta key current l s = do {
     let (d, t) = index_delta (fst s) key current;
     if d > 0 then do { vec \<leftarrow> vec_Add (snd s) l (f64_of_int d); Some (t, vec) }
     else Some (t, snd s)
   }"

definition index_stat :: "index_row \<Rightarrow> indexScanTracker \<times> IndexMetrics \<Rightarrow> (indexScanTracker \<times> IndexMetrics) option" where
  "index_stat r s = (case r of (indexName, tableName, sizeBytes, n_scans) \<Rightarrow> do {
     let m = snd s;
     let m = m\<lparr>indexSizeBytes := AList.update (indexName, tableName) (f64_of_int sizeBytes) (indexSizeBytes m)\<rparr>;
     (t, vec) \<leftarrow> add_delta indexName n_scans (indexName, tableName) (fst s, indexScansTotal m);
     Some (t, m\<lparr>indexScansTotal := vec\<rparr>)
   })"

definition table_stat :: "table_row \<Rightarrow> indexScanTracker \<times> TableMetrics \<Rightarrow> (indexScanTracker \<times> TableMetrics) option" where
  "table_stat r s = (case r of (name, sizeBytes, liveTup, deadTup, modSinceAnalyze, autovacuumCount, autoanalyzeCount) \<Rightarrow> do {
     let m = snd s;
     let m = m\<lparr>tableSizeBytes := AList.update name (f64_of_int sizeBytes) (tableSizeBytes m)\<rparr>;
     let m = m\<lparr>tableLiveTuples := AList.update name (f64_of_int liveTup) (tableLiveTuples m)\<rparr>;
     let m = m\<lparr>tableDeadTuples := AList.update name (f64_of_int deadTup) (tableDeadTuples m)\<rparr>;
     let m = m\<lparr>tableModSinceAnalyze := AList.update name (f64_of_int modSinceAnalyze) (tableModSinceAnalyze m)\<rparr>;
     (t, vec) \<leftarrow> add_delta (name @ '':autovacuum'') autovacuumCount name (fst s, tableAutovacuumTotal m);
     let m = m\<lparr>tableAutovacuumTotal := vec\<rparr>;
     (t, vec) \<leftarrow> add_delta (name @ '':autoanalyze'') autoanalyzeCount name (t, tableAutoanalyzeTotal m);
     Some (t, m\<lparr>tableAutoanalyzeTotal := vec\<rparr>)
   })"

text \<open>A query whose rows are processed one by one.\<close>

definition for_rows :: "('r \<Rightarrow> 's \<Rightarrow> 's option) \<Rightarrow> 'r rows \<Rightarrow> 's \<Rightarrow> (goerr option \<times> 's) option" where
  "for_rows f q s = (case q of Inl err \<Rightarrow> Some (Some err, s) | Inr (rs, fin) \<Rightarrow> scan_rows f rs fin s)"

definition collectIndexStats ::
  "index_row rows \<Rightarrow> indexScanTracker \<times> IndexMetrics \<Rightarrow> (goerr option \<times> indexScanTracker \<times> IndexMetrics) option" where
  "collectIndexStats = for_rows index_stat"

definition collectTableStats ::
  "table_row rows \<Rightarrow> indexScanTracker \<times> TableMetrics \<Rightarrow> (goerr option \<times> indexScanTracker \<times> TableMetrics) option" where
  "collectTableStats = for_rows table_stat"

text \<open>
  The polling loop; \<open>None\<close> is \<open>ctx.Done\<close>. The error of a collection is logged and nothing
  else. \<open>time.NewTicker\<close> panics on an interval that is not positive.
\<close>

fun stats_loop :: "('q \<Rightarrow> 's \<Rightarrow> (goerr option \<times> 's) option) \<Rightarrow> 'q option list \<Rightarrow> 's \<Rightarrow> 's option" where
  "stats_loop collect [] s = Some s"
| "stats_loop collect (None # es) s = Some s"
| "stats_loop collect (Some q # es) s = do { (err, s) \<leftarrow> collect q s; stats_loop collect es s }"

definition RunTableStatsLoop :: "int \<Rightarrow> table_row rows option list \<Rightarrow> TableMetrics \<Rightarrow> (indexScanTracker \<times> TableMetrics) option" where
  "RunTableStatsLoop interval es m =
     (if interval \<le> 0 then None else stats_loop collectTableStats es (newIndexScanTracker, m))"

definition RunIndexStatsLoop :: "int \<Rightarrow> index_row rows option list \<Rightarrow> IndexMetrics \<Rightarrow> (indexScanTracker \<times> IndexMetrics) option" where
  "RunIndexStatsLoop interval es m =
     (if interval \<le> 0 then None else stats_loop collectIndexStats es (newIndexScanTracker, m))"

section \<open>Specification\<close>

text \<open>The queries of a run, and the rows they hand out.\<close>

fun polled :: "'q option list \<Rightarrow> 'q list" where
  "polled [] = []"
| "polled (None # es) = []"
| "polled (Some q # es) = q # polled es"

definition rows_of :: "'r rows option list \<Rightarrow> 'r list" where
  "rows_of es = concat (map delivered (polled es))"

text \<open>The series of a statistic in the rows for one name.\<close>

definition series :: "('r \<Rightarrow> 'k) \<Rightarrow> ('r \<Rightarrow> 'v) \<Rightarrow> 'k \<Rightarrow> 'r list \<Rightarrow> 'v list" where
  "series nm val k R = map val (filter (\<lambda>r. nm r = k) R)"

definition idx_name :: "index_row \<Rightarrow> string" where "idx_name r = fst r"
definition idx_table :: "index_row \<Rightarrow> string" where "idx_table r = fst (snd r)"
definition idx_size :: "index_row \<Rightarrow> int" where "idx_size r = fst (snd (snd r))"
definition idx_scan :: "index_row \<Rightarrow> int" where "idx_scan r = snd (snd (snd r))"

definition tbl_name :: "table_row \<Rightarrow> string" where "tbl_name r = fst r"
definition n_dead_tup :: "table_row \<Rightarrow> int" where "n_dead_tup r = fst (snd (snd (snd r)))"
definition autovacuum_count :: "table_row \<Rightarrow> int" where "autovacuum_count r = fst (snd (snd (snd (snd (snd r)))))"
definition autoanalyze_count :: "table_row \<Rightarrow> int" where "autoanalyze_count r = snd (snd (snd (snd (snd (snd r)))))"

lemmas row_defs = idx_name_def idx_table_def idx_size_def idx_scan_def tbl_name_def n_dead_tup_def
  autovacuum_count_def autoanalyze_count_def

definition no_index_metrics :: IndexMetrics where
  "no_index_metrics = \<lparr>indexSizeBytes = [], indexScansTotal = []\<rparr>"

definition no_table_metrics :: TableMetrics where
  "no_table_metrics = \<lparr>tableSizeBytes = [], tableLiveTuples = [], tableDeadTuples = [],
     tableModSinceAnalyze = [], tableAutovacuumTotal = [], tableAutoanalyzeTotal = []\<rparr>"

section \<open>Polling loops\<close>

locale poller =
  fixes handle :: "'r \<Rightarrow> 's \<Rightarrow> 's option"
    and inv :: "'r list \<Rightarrow> 's \<Rightarrow> bool"
    and admissible :: "'r list \<Rightarrow> bool"
  assumes handle_row: "inv H s \<Longrightarrow> admissible (H @ [r]) \<Longrightarrow> \<exists>s'. handle r s = Some s' \<and> inv (H @ [r]) s'"
    and admissible_prefix: "admissible (H @ T) \<Longrightarrow> admissible H"
begin

lemma rows_inv:
  "inv H s \<Longrightarrow> admissible (H @ scanned rs) \<Longrightarrow>
   \<exists>s'. scan_rows handle rs fin s = Some (scan_error rs fin, s') \<and> inv (H @ scanned rs) s'"
proof (induction rs arbitrary: H s rule: scanned.induct)
  case (3 r rs)
  have "admissible (H @ [r])" using 3(3) admissible_prefix [of "H @ [r]" "scanned rs"] by simp
  then obtain s' where s': "handle r s = Some s'" "inv (H @ [r]) s'" using handle_row [OF 3(2)] by blast
  then show ?case using 3(1) [OF s'(2)] 3(3) by simp
qed simp_all

lemma query_inv:
  assumes "inv H s" "admissible (H @ delivered q)"
  shows "\<exists>err s'. for_rows handle q s = Some (err, s') \<and> inv (H @ delivered q) s'"
proof (cases q)
  case (Inr a)
  obtain rs fin where a: "a = (rs, fin)" by (cases a)
  show ?thesis using rows_inv [OF assms(1), of rs fin] assms(2) by (auto simp: for_rows_def delivered_def Inr a)
qed (use assms in \<open>simp add: for_rows_def delivered_def\<close>)

lemma loop_inv:
  "inv H s \<Longrightarrow> admissible (H @ rows_of es) \<Longrightarrow>
   \<exists>s'. stats_loop (for_rows handle) es s = Some s' \<and> inv (H @ rows_of es) s'"
proof (induction es arbitrary: H s rule: polled.induct)
  case (3 q es)
  have a: "admissible ((H @ delivered q) @ rows_of es)" using 3(3) by (simp add: rows_of_def)
  obtain err s' where s': "for_rows handle q s = Some (err, s')" "inv (H @ delivered q) s'"
    using query_inv [OF 3(2) admissible_prefix [OF a]] by blast
  then show ?case using 3(1) [OF s'(2) a] by (simp add: rows_of_def)
qed (simp_all add: rows_of_def)

end

section \<open>One statistic\<close>

lemma series_add: "series nm val k (R @ [r]) = series nm val k R @ (if nm r = k then [val r] else [])"
  by (simp add: series_def)

lemma series_Nil [simp]: "series nm val k [] = []"
  by (simp add: series_def)

lemma gain_series_prefix: "gain (series nm val k R) \<le> gain (series nm val k (R @ T))"
  by (simp add: series_def gain_prefix)

lemma add_delta_tracks:
  assumes f: "scans.follows t h" and ok: "\<forall>x \<in> set (h key). whole_int x" "whole_int v"
    and c: "holds_count (vec_at vec l) (gain (h key))" and b: "gain (h key @ [v]) < 2 ^ 64"
  shows "\<exists>vec'. add_delta key v l (t, vec) = Some (snd (index_delta t key v), vec') \<and>
           scans.follows (snd (index_delta t key v)) (h(key := h key @ [v])) \<and>
           holds_count (vec_at vec' l) (gain (h key @ [v])) \<and> (\<forall>l'. l' \<noteq> l \<longrightarrow> vec_at vec' l' = vec_at vec l')"
proof -
  obtain d t' where d: "index_delta t key v = (d, t')" by (cases "index_delta t key v")
  have g: "gain (h key @ [v]) = gain (h key) + d" "0 \<le> d"
    using scans.delta_gain [OF f ok] scans.delta_nonneg [OF f ok] by (simp_all add: d)
  have f': "scans.follows t' (h(key := h key @ [v]))" using scans.follows_delta [OF f, of key v] by (simp add: d)
  have "0 \<le> last (h key)" if "h key \<noteq> []" using ok(1) last_in_set [OF that] by (auto simp: whole_int_def)
  then have "d \<le> 2 ^ 53"
    using ok(2) g gain_snoc [of "h key" v] by (auto simp: last_opt_def whole_int_def split: if_splits)
  then obtain c' where "counter_Add (vec_at vec l) (f64_of_int d) = Some c'" "holds_count c' (gain (h key) + d)"
    using counter_Add_whole [OF c g(2)] g b by auto
  then show ?thesis
    using c f' g by (cases "d = 0") (auto simp: add_delta_def d vec_Add_def)
qed

section \<open>Index statistics\<close>

definition index_inv :: "(string \<Rightarrow> string) \<Rightarrow> index_row list \<Rightarrow> indexScanTracker \<times> IndexMetrics \<Rightarrow> bool" where
  "index_inv owner H s \<longleftrightarrow>
     scans.follows (fst s) (\<lambda>i. series idx_name idx_scan i H) \<and>
     (\<forall>i. holds_count (vec_at (indexScansTotal (snd s)) (i, owner i)) (gain (series idx_name idx_scan i H)) \<and>
          map_of (indexSizeBytes (snd s)) (i, owner i) = map_option f64_of_int (last_opt (series idx_name idx_size i H)))"

text \<open>An index belongs to one table; its scan count fits a \<open>float64\<close> exactly and its growth
  during the run fits the counter.\<close>

definition index_rows_ok :: "(string \<Rightarrow> string) \<Rightarrow> index_row list \<Rightarrow> bool" where
  "index_rows_ok owner H \<longleftrightarrow>
     (\<forall>r \<in> set H. idx_table r = owner (idx_name r) \<and> whole_int (idx_scan r)) \<and>
     (\<forall>i. gain (series idx_name idx_scan i H) < 2 ^ 64)"

lemma series_all: "\<forall>r \<in> set H. P (val r) \<Longrightarrow> \<forall>x \<in> set (series nm val k H). P x"
  by (auto simp: series_def)

lemma series_upd:
  "nm r = k \<Longrightarrow> (\<lambda>i. series nm val i (H @ [r])) = (\<lambda>i. series nm val i H)(k := series nm val k H @ [val r])"
  by (auto simp: series_add)

lemma index_stat_inv:
  assumes "index_inv owner H s" "index_rows_ok owner (H @ [r])"
  shows "\<exists>s'. index_stat r s = Some s' \<and> index_inv owner (H @ [r]) s'"
proof -
  obtain i tb sz n where r: "r = (i, tb, sz, n)" by (metis prod_cases4)
  obtain t m where s: "s = (t, m)" by (cases s)
  let ?h = "\<lambda>k. series idx_name idx_scan k H"
  have n: "tb = owner i" "whole_int n" and h: "\<forall>x \<in> set (?h i). whole_int x"
    using assms(2) by (auto simp: index_rows_ok_def r row_defs intro!: series_all)
  have b: "gain (?h i @ [n]) < 2 ^ 64"
    using assms(2) unfolding index_rows_ok_def by (auto simp: series_add r row_defs dest!: spec [of _ i])
  have f: "scans.follows t ?h" and c: "holds_count (vec_at (indexScansTotal m) (i, owner i)) (gain (?h i))"
    using assms(1) by (auto simp: index_inv_def s)
  obtain vec t' where a: "add_delta i n (i, owner i) (t, indexScansTotal m) = Some (t', vec)"
      "scans.follows t' (?h(i := ?h i @ [n]))" "holds_count (vec_at vec (i, owner i)) (gain (?h i @ [n]))"
      "\<forall>l. l \<noteq> (i, owner i) \<longrightarrow> vec_at vec l = vec_at (indexScansTotal m) l"
    using add_delta_tracks [OF f h n(2) c b] by blast
  have "index_inv owner (H @ [r])
      (t', m\<lparr>indexSizeBytes := AList.update (i, tb) (f64_of_int sz) (indexSizeBytes m), indexScansTotal := vec\<rparr>)"
    using assms(1) a(2-4) series_upd [of idx_name r i idx_scan H]
    by (auto simp: index_inv_def s r row_defs n(1) series_add update_conv)
  then show ?thesis using a(1) by (simp add: index_stat_def r s n(1))
qed

interpretation index_poll: poller index_stat "index_inv owner" "index_rows_ok owner" for owner
proof (unfold_locales, goal_cases)
  case (1 H s r)
  then show ?case by (rule index_stat_inv)
next
  case (2 H T)
  then show ?case
    unfolding index_rows_ok_def using gain_series_prefix [of idx_name idx_scan _ H T] le_less_trans by auto blast
qed

lemma index_inv_init: "index_inv owner [] (newIndexScanTracker, no_index_metrics)"
  using scans.follows_fresh by (simp add: index_inv_def no_index_metrics_def)

section \<open>Table statistics\<close>

definition table_hist :: "table_row list \<Rightarrow> string \<Rightarrow> int list" where
  "table_hist H k = concat (map (\<lambda>r.
     (if tbl_name r @ '':autovacuum'' = k then [autovacuum_count r] else []) @
     (if tbl_name r @ '':autoanalyze'' = k then [autoanalyze_count r] else [])) H)"

definition table_inv :: "table_row list \<Rightarrow> indexScanTracker \<times> TableMetrics \<Rightarrow> bool" where
  "table_inv H s \<longleftrightarrow>
     scans.follows (fst s) (table_hist H) \<and>
     (\<forall>tb. holds_count (vec_at (tableAutovacuumTotal (snd s)) tb) (gain (series tbl_name autovacuum_count tb H)) \<and>
           holds_count (vec_at (tableAutoanalyzeTotal (snd s)) tb) (gain (series tbl_name autoanalyze_count tb H)) \<and>
           map_of (tableDeadTuples (snd s)) tb = map_option f64_of_int (last_opt (series tbl_name n_dead_tup tb H)))"

definition table_rows_ok :: "table_row list \<Rightarrow> bool" where
  "table_rows_ok H \<longleftrightarrow>
     (\<forall>r \<in> set H. whole_int (autovacuum_count r) \<and> whole_int (autoanalyze_count r)) \<and>
     (\<forall>tb. gain (series tbl_name autovacuum_count tb H) < 2 ^ 64 \<and>
           gain (series tbl_name autoanalyze_count tb H) < 2 ^ 64)"

text \<open>The two keys of a table never meet those of another.\<close>

lemma table_keys_differ: "a @ '':autovacuum'' \<noteq> b @ '':autoanalyze''" "b @ '':autoanalyze'' \<noteq> a @ '':autovacuum''"
  by (auto dest: arg_cong [of _ _ last])

lemma table_hist_key:
  "table_hist H (tb @ '':autovacuum'') = series tbl_name autovacuum_count tb H"
  "table_hist H (tb @ '':autoanalyze'') = series tbl_name autoanalyze_count tb H"
  by (induction H) (auto simp: table_hist_def series_def table_keys_differ)

lemma table_hist_snoc:
  "table_hist (H @ [r]) = ((table_hist H)
      (tbl_name r @ '':autovacuum'' := table_hist H (tbl_name r @ '':autovacuum'') @ [autovacuum_count r]))
      (tbl_name r @ '':autoanalyze'' := table_hist H (tbl_name r @ '':autoanalyze'') @ [autoanalyze_count r])"
  by (auto simp: table_hist_def table_keys_differ)

lemma table_stat_inv:
  assumes "table_inv H s" "table_rows_ok (H @ [r])"
  shows "\<exists>s'. table_stat r s = Some s' \<and> table_inv (H @ [r]) s'"
proof -
  obtain nm sz live dead md vac ana where r: "r = (nm, sz, live, dead, md, vac, ana)" by (metis prod_cases7)
  obtain t m where s: "s = (t, m)" by (cases s)
  let ?h = "table_hist H" and ?v = "nm @ '':autovacuum''" and ?a = "nm @ '':autoanalyze''"
  have w: "whole_int vac" "whole_int ana" and h: "\<forall>x \<in> set (?h ?v). whole_int x" "\<forall>x \<in> set (?h ?a). whole_int x"
    using assms(2) by (auto simp: table_rows_ok_def table_hist_key r row_defs intro!: series_all)
  have b: "gain (?h ?v @ [vac]) < 2 ^ 64" "gain (?h ?a @ [ana]) < 2 ^ 64"
    using assms(2) unfolding table_rows_ok_def
    by (auto simp: table_hist_key series_add r row_defs dest!: spec [of _ nm])
  have f: "scans.follows t ?h"
    and c: "holds_count (vec_at (tableAutovacuumTotal m) nm) (gain (?h ?v))"
      "holds_count (vec_at (tableAutoanalyzeTotal m) nm) (gain (?h ?a))"
    using assms(1) by (auto simp: table_inv_def s table_hist_key)
  obtain vec t' where v: "add_delta ?v vac nm (t, tableAutovacuumTotal m) = Some (t', vec)"
      "scans.follows t' (?h(?v := ?h ?v @ [vac]))" "holds_count (vec_at vec nm) (gain (?h ?v @ [vac]))"
      "\<forall>l. l \<noteq> nm \<longrightarrow> vec_at vec l = vec_at (tableAutovacuumTotal m) l"
    using add_delta_tracks [OF f h(1) w(1) c(1) b(1)] by blast
  obtain vec' t'' where a: "add_delta ?a ana nm (t', tableAutoanalyzeTotal m) = Some (t'', vec')"
      "scans.follows t'' ((?h(?v := ?h ?v @ [vac]))(?a := ?h ?a @ [ana]))"
      "holds_count (vec_at vec' nm) (gain (?h ?a @ [ana]))"
      "\<forall>l. l \<noteq> nm \<longrightarrow> vec_at vec' l = vec_at (tableAutoanalyzeTotal m) l"
    using add_delta_tracks [OF v(2), of ?a ana "tableAutoanalyzeTotal m" nm] h(2) w(2) c(2) b(2)
    by (auto simp: table_keys_differ)
  have "table_hist (H @ [r]) = (?h(?v := ?h ?v @ [vac]))(?a := ?h ?a @ [ana])"
    by (simp add: table_hist_snoc r row_defs)
  then show ?thesis
    using assms(1) v a
    by (auto simp: table_inv_def table_stat_def s r row_defs table_hist_key series_add update_conv)
qed

interpretation table_poll: poller table_stat table_inv table_rows_ok
proof (unfold_locales, goal_cases)
  case (1 H s r)
  then show ?case by (rule table_stat_inv)
next
  case (2 H T)
  then show ?case
    unfolding table_rows_ok_def
    using gain_series_prefix [of tbl_name autovacuum_count _ H T] gain_series_prefix [of tbl_name autoanalyze_count _ H T]
      le_less_trans by auto blast+
qed

lemma table_inv_init: "table_inv [] (newIndexScanTracker, no_table_metrics)"
proof -
  have "table_hist [] = (\<lambda>k. [])" by (simp add: fun_eq_iff table_hist_def)
  then show ?thesis using scans.follows_fresh by (simp add: table_inv_def no_table_metrics_def)
qed

section \<open>Properties\<close>

text \<open>
  C26: The exported index statistics are those of the server. Whatever queries and scans fail
  during a run, the poller never panics, and for every index \<open>index_scans_total\<close> is exactly
  the growth of \<open>idx_scan\<close> over the rows that were read: the sum of its increases, a reset of
  the server's statistics counting as nothing; without a reset it is the last reading minus
  the first. The size gauge is the last size read.
\<close>

theorem index_scans_exact:
  assumes "0 < interval" and "index_rows_ok owner (rows_of es)"
  shows "\<exists>t m. RunIndexStatsLoop interval es no_index_metrics = Some (t, m) \<and>
    (\<forall>i. let obs = series idx_name idx_scan i (rows_of es) in
       holds_count (vec_at (indexScansTotal m) (i, owner i)) (gain obs) \<and>
       (sorted obs \<and> obs \<noteq> [] \<longrightarrow> holds_count (vec_at (indexScansTotal m) (i, owner i)) (last obs - hd obs)) \<and>
       map_of (indexSizeBytes m) (i, owner i) =
         map_option f64_of_int (last_opt (series idx_name idx_size i (rows_of es))))"
proof -
  obtain s where "stats_loop (for_rows index_stat) es (newIndexScanTracker, no_index_metrics) = Some s"
      "index_inv owner (rows_of es) s"
    using index_poll.loop_inv [OF index_inv_init, of owner es] assms(2) by auto
  then show ?thesis
    using assms(1)
    by (cases s) (auto simp: RunIndexStatsLoop_def collectIndexStats_def index_inv_def Let_def gain_monotone [symmetric])
qed

theorem index_scans_exact_witness:
  "\<exists>t m. RunIndexStatsLoop 1000000000
      [Some (Inr ([Inr (''i'', ''t'', 8192, 40)], None)), Some (Inl ErrCanceled),
       Some (Inr ([Inr (''i'', ''t'', 16384, 47), Inl ErrCanceled], None)),
       Some (Inr ([Inr (''i'', ''t'', 16384, 3)], None)), Some (Inr ([Inr (''i'', ''t'', 16384, 5)], None)), None]
      no_index_metrics = Some (t, m) \<and> holds_count (vec_at (indexScansTotal m) (''i'', ''t'')) 9"
proof -
  let ?es = "[Some (Inr ([Inr (''i'', ''t'', 8192, 40)], None)), Some (Inl ErrCanceled),
       Some (Inr ([Inr (''i'', ''t'', 16384, 47), Inl ErrCanceled], None)),
       Some (Inr ([Inr (''i'', ''t'', 16384, 3)], None)), Some (Inr ([Inr (''i'', ''t'', 16384, 5)], None)), None]"
  have R: "rows_of ?es = [(''i'', ''t'', 8192, 40), (''i'', ''t'', 16384, 47), (''i'', ''t'', 16384, 3), (''i'', ''t'', 16384, 5)]"
    by (simp add: rows_of_def delivered_def)
  have "index_rows_ok (\<lambda>i. ''t'') (rows_of ?es)"
    unfolding R by (simp add: index_rows_ok_def row_defs whole_int_def series_def)
  from index_scans_exact [OF _ this, of 1000000000] show ?thesis
    unfolding R by (auto simp: Let_def series_def row_defs dest!: spec [of _ "''i''"])
qed

text \<open>
  C27: The exported autovacuum and autoanalyze counters are those of the server, for every
  table, although one tracker serves both statistics: its keys never collide. The poller
  never panics whatever fails, each counter is the growth of its statistic over the rows
  read, and the dead-tuple gauge is the last reading.
\<close>

theorem table_counters_exact:
  assumes "0 < interval" and "table_rows_ok (rows_of es)"
  shows "\<exists>t m. RunTableStatsLoop interval es no_table_metrics = Some (t, m) \<and>
    (\<forall>tb. holds_count (vec_at (tableAutovacuumTotal m) tb) (gain (series tbl_name autovacuum_count tb (rows_of es))) \<and>
          holds_count (vec_at (tableAutoanalyzeTotal m) tb) (gain (series tbl_name autoanalyze_count tb (rows_of es))) \<and>
          map_of (tableDeadTuples m) tb = map_option f64_of_int (last_opt (series tbl_name n_dead_tup tb (rows_of es))))"
proof -
  obtain s where "stats_loop (for_rows table_stat) es (newIndexScanTracker, no_table_metrics) = Some s"
      "table_inv (rows_of es) s"
    using table_poll.loop_inv [OF table_inv_init, of es] assms(2) by auto
  then show ?thesis
    using assms(1) by (cases s) (auto simp: RunTableStatsLoop_def collectTableStats_def table_inv_def)
qed

theorem table_counters_exact_witness:
  "\<exists>t m. RunTableStatsLoop 1
      [Some (Inr ([Inr (''events'', 8192, 10, 5, 7, 2, 1), Inr (''events:autovacuum'', 1, 1, 1, 1, 9, 9)], None)),
       Some (Inr ([Inr (''events'', 8192, 20, 0, 0, 5, 2)], Some ErrCanceled))]
      no_table_metrics = Some (t, m) \<and> holds_count (vec_at (tableAutovacuumTotal m) ''events'') 3 \<and>
      holds_count (vec_at (tableAutoanalyzeTotal m) ''events'') 1"
proof -
  let ?es = "[Some (Inr ([Inr (''events'', 8192, 10, 5, 7, 2, 1), Inr (''events:autovacuum'', 1, 1, 1, 1, 9, 9)], None)),
       Some (Inr ([Inr (''events'', 8192, 20, 0, 0, 5, 2)], Some ErrCanceled))]"
  have R: "rows_of ?es = [(''events'', 8192, 10, 5, 7, 2, 1), (''events:autovacuum'', 1, 1, 1, 1, 9, 9),
      (''events'', 8192, 20, 0, 0, 5, 2)]"
    by (simp add: rows_of_def delivered_def)
  have "table_rows_ok (rows_of ?es)"
    unfolding R by (simp add: table_rows_ok_def row_defs whole_int_def series_def)
  from table_counters_exact [OF _ this, of 1] show ?thesis
    unfolding R by (auto simp: series_def row_defs dest!: spec [of _ "''events''"])
qed

end
