(* ===== verification/PgStats.thy ===== *)
theory PgStats
  imports TableStats
begin

text \<open>
  Polling the server-wide statistics: \<open>metrics/pg_stats.go\<close>.

  The counters of the file are one datatype, so that the metrics of the process are a map
  from it; the values read by one tick, for either version of the server, are the fields of
  a \<open>pg_tick\<close>. Both branches of the version dispatch reduce to the same sequence of counter
  updates, on which the contract of the polling loops is interpreted a third time.
\<close>

section \<open>Definitions\<close>

datatype pg_counter =
    BgwriterCheckpointsTimed
  | BgwriterCheckpointsReq
  | BgwriterBuffersCheckpoint
  | BgwriterBuffersClean
  | BgwriterBuffersBackend
  | BgwriterCheckpointWriteSeconds
  | BgwriterCheckpointSyncSeconds
  | WalBytesTotal
  | WalRecordsTotal
  | WalFPITotal
  | WalBuffersFullTotal

record PGMetrics =
  pg_counters :: "pg_counter \<Rightarrow> counter"
  waitEventsActive :: "(string \<times> string, float64) gomap"

type_synonym pg_state = "pgStatsTracker \<times> PGMetrics"

type_synonym wait_row = "string \<times> string \<times> float64"

text \<open>The results of the queries of one tick: \<open>pg_stat_bgwriter\<close> on PG14--16,
  \<open>pg_stat_checkpointer\<close> and \<open>pg_stat_bgwriter\<close> on PG17, \<open>pg_stat_wal\<close> and
  \<open>pg_stat_activity\<close>.\<close>

record pg_tick =
  q_bgwriter16 :: "(float64 \<times> float64 \<times> float64 \<times> float64 \<times> float64 \<times> float64 \<times> float64) row"
  q_checkpointer :: "(float64 \<times> float64 \<times> float64 \<times> float64 \<times> float64) row"
  q_bgwriter17 :: "float64 row"
  q_wal :: "(float64 \<times> float64 \<times> float64 \<times> float64) row"
  q_waits :: "wait_row rows"

definition pg_Add :: "pg_counter \<Rightarrow> float64 \<Rightarrow> pg_state \<Rightarrow> pg_state option" where
  "pg_Add c v s = do {
     c' \<leftarrow> counter_Add (pg_counters (snd s) c) v;
     Some (fst s, (snd s)\<lparr>pg_counters := (pg_counters (snd s))(c := c')\<rparr>)
   }"

text \<open>\<open>c.Add(tracker.delta(key, v))\<close> and \<open>c.Add(tracker.delta(key, v) / 1000)\<close>.\<close>

definition add_pg_delta :: "pg_counter \<Rightarrow> string \<Rightarrow> float64 \<Rightarrow> pg_state \<Rightarrow> pg_state option" where
  "add_pg_delta c key v s = (let (d, t) = pg_delta (fst s) key v in pg_Add c d (t, snd s))"

definition add_pg_delta_ms :: "pg_counter \<Rightarrow> string \<Rightarrow> float64 \<Rightarrow> pg_state \<Rightarrow> pg_state option" where
  "add_pg_delta_ms c key v s = (let (d, t) = pg_delta (fst s) key v in pg_Add c (fdiv d 1000) (t, snd s))"

definition collectBgwriterStatsPG16 :: "pg_tick \<Rightarrow> pg_state \<Rightarrow> (goerr option \<times> pg_state) option" where
  "collectBgwriterStatsPG16 q s = (case q_bgwriter16 q of
     Inl err \<Rightarrow> Some (Some err, s)
   | Inr (cpTimed, cpReq, bufCheckpoint, bufClean, bufBackend, writeTime, syncTime) \<Rightarrow> do {
       s \<leftarrow> add_pg_delta BgwriterCheckpointsTimed ''cp_timed'' cpTimed s;
       s \<leftarrow> add_pg_delta BgwriterCheckpointsReq ''cp_req'' cpReq s;
       s \<leftarrow> add_pg_delta BgwriterBuffersCheckpoint ''buf_checkpoint'' bufCheckpoint s;
       s \<leftarrow> add_pg_delta BgwriterBuffersClean ''buf_clean'' bufClean s;
       s \<leftarrow> add_pg_delta BgwriterBuffersBackend ''buf_backend'' bufBackend s;
       s \<leftarrow> add_pg_delta_ms BgwriterCheckpointWriteSeconds ''cp_write_ms'' writeTime s;
       s \<leftarrow> add_pg_delta_ms BgwriterCheckpointSyncSeconds ''cp_sync_ms'' syncTime s;
       Some (None, s)
     })"

definition collectBgwriterStatsPG17 :: "pg_tick \<Rightarrow> pg_state \<Rightarrow> (goerr option \<times> pg_state) option" where
  "collectBgwriterStatsPG17 q s = (case q_checkpointer q of
     Inl err \<Rightarrow> Some (Some err, s)
   | Inr (cpTimed, cpReq, bufCheckpoint, writeTime, syncTime) \<Rightarrow> do {
       s \<leftarrow> add_pg_delta BgwriterCheckpointsTimed ''cp_timed'' cpTimed s;
       s \<leftarrow> add_pg_delta BgwriterCheckpointsReq ''cp_req'' cpReq s;
       s \<leftarrow> add_pg_delta BgwriterBuffersCheckpoint ''buf_checkpoint'' bufCheckpoint s;
       s \<leftarrow> add_pg_delta_ms BgwriterCheckpointWriteSeconds ''cp_write_ms'' writeTime s;
       s \<leftarrow> add_pg_delta_ms BgwriterCheckpointSyncSeconds ''cp_sync_ms'' syncTime s;
       (case q_bgwriter17 q of
          Inl err \<Rightarrow> Some (Some err, s)
        | Inr bufClean \<Rightarrow> do {
            s \<leftarrow> add_pg_delta BgwriterBuffersClean ''buf_clean'' bufClean s;
            Some (None, s)
          })
     })"

definition collectBgwriterStats :: "int \<Rightarrow> pg_tick \<Rightarrow> pg_state \<Rightarrow> (goerr option \<times> pg_state) option" where
  "collectBgwriterStats pgMajor q s =
     (if pgMajor \<ge> 17 then collectBgwriterStatsPG17 q s else collectBgwriterStatsPG16 q s)"

definition collectWALStats :: "pg_tick \<Rightarrow> pg_state \<Rightarrow> (goerr option \<times> pg_state) option" where
  "collectWALStats q s = (case q_wal q of
     Inl err \<Rightarrow> Some (Some err, s)
   | Inr (walBytes, walRecords, walFPI, walBuffersFull) \<Rightarrow> do {
       s \<leftarrow> add_pg_delta WalBytesTotal ''wal_bytes'' walBytes s;
       s \<leftarrow> add_pg_delta WalRecordsTotal ''wal_records'' walRecords s;
       s \<leftarrow> add_pg_delta WalFPITotal ''wal_fpi'' walFPI s;
       s \<leftarrow> add_pg_delta WalBuffersFullTotal ''wal_buffers_full'' walBuffersFull s;
       Some (None, s)
     })"

definition wait_event :: "wait_row \<Rightarrow> pg_state \<Rightarrow> pg_state option" where
  "wait_event r s = (case r of (evType, ev, n) \<Rightarrow>
     Some (fst s, (snd s)\<lparr>waitEventsActive := AList.update (evType, ev) n (waitEventsActive (snd s))\<rparr>))"

text \<open>The gauge is reset once the query has succeeded.\<close>

definition collectWaitEventStats :: "pg_tick \<Rightarrow> pg_state \<Rightarrow> (goerr option \<times> pg_state) option" where
  "collectWaitEventStats q s = (case q_waits q of
     Inl err \<Rightarrow> Some (Some err, s)
   | Inr (rs, fin) \<Rightarrow> scan_rows wait_event rs fin (fst s, (snd s)\<lparr>waitEventsActive := []\<rparr>))"

definition detectPGMajorVersion :: "int row \<Rightarrow> int \<times> goerr option" where
  "detectPGMajorVersion q = (case q of Inl err \<Rightarrow> (0, Some err) | Inr major \<Rightarrow> (major, None))"

text \<open>One tick: three collections, whose errors are logged.\<close>

definition pg_collect :: "int \<Rightarrow> pg_tick \<Rightarrow> pg_state \<Rightarrow> (goerr option \<times> pg_state) option" where
  "pg_collect pgMajor q s = do {
     (err1, s) \<leftarrow> collectBgwriterStats pgMajor q s;
     (err2, s) \<leftarrow> collectWALStats q s;
     collectWaitEventStats q s
   }"

definition RunPGStatsLoop :: "int \<Rightarrow> int row \<Rightarrow> pg_tick option list \<Rightarrow> PGMetrics \<Rightarrow> pg_state option" where
  "RunPGStatsLoop interval version es m =
     (let (pgMajor, err) = detectPGMajorVersion version;
          pgMajor = (if err \<noteq> None then 16 else pgMajor)
      in if interval \<le> 0 then None else stats_loop (pg_collect pgMajor) es (newPGStatsTracker, m))"

section \<open>Specification\<close>

fun pg_key :: "pg_counter \<Rightarrow> string" where
  "pg_key BgwriterCheckpointsTimed = ''cp_timed''"
| "pg_key BgwriterCheckpointsReq = ''cp_req''"
| "pg_key BgwriterBuffersCheckpoint = ''buf_checkpoint''"
| "pg_key BgwriterBuffersClean = ''buf_clean''"
| "pg_key BgwriterBuffersBackend = ''buf_backend''"
| "pg_key BgwriterCheckpointWriteSeconds = ''cp_write_ms''"
| "pg_key BgwriterCheckpointSyncSeconds = ''cp_sync_ms''"
| "pg_key WalBytesTotal = ''wal_bytes''"
| "pg_key WalRecordsTotal = ''wal_records''"
| "pg_key WalFPITotal = ''wal_fpi''"
| "pg_key WalBuffersFullTotal = ''wal_buffers_full''"

text \<open>The counters that are not times.\<close>

definition pg_whole :: "pg_counter \<Rightarrow> bool" where
  "pg_whole c \<longleftrightarrow> c \<notin> {BgwriterCheckpointWriteSeconds, BgwriterCheckpointSyncSeconds}"

text \<open>What a tick reads of each statistic, in the order it is processed.\<close>

definition bgwriter_readings :: "int \<Rightarrow> pg_tick \<Rightarrow> (pg_counter \<times> float64) list" where
  "bgwriter_readings pgMajor q =
     (if pgMajor \<ge> 17 then
        (case q_checkpointer q of
           Inl err \<Rightarrow> []
         | Inr (a, b, c, w, y) \<Rightarrow>
             [(BgwriterCheckpointsTimed, a), (BgwriterCheckpointsReq, b), (BgwriterBuffersCheckpoint, c),
              (BgwriterCheckpointWriteSeconds, w), (BgwriterCheckpointSyncSeconds, y)] @
             (case q_bgwriter17 q of Inl err \<Rightarrow> [] | Inr d \<Rightarrow> [(BgwriterBuffersClean, d)]))
      else
        (case q_bgwriter16 q of
           Inl err \<Rightarrow> []
         | Inr (a, b, c, d, e, w, y) \<Rightarrow>
             [(BgwriterCheckpointsTimed, a), (BgwriterCheckpointsReq, b), (BgwriterBuffersCheckpoint, c),
              (BgwriterBuffersClean, d), (BgwriterBuffersBackend, e),
              (BgwriterCheckpointWriteSeconds, w), (BgwriterCheckpointSyncSeconds, y)]))"

definition wal_readings :: "pg_tick \<Rightarrow> (pg_counter \<times> float64) list" where
  "wal_readings q = (case q_wal q of Inl err \<Rightarrow> [] | Inr (a, b, c, d) \<Rightarrow>
     [(WalBytesTotal, a), (WalRecordsTotal, b), (WalFPITotal, c), (WalBuffersFullTotal, d)])"

definition pg_readings :: "int \<Rightarrow> pg_tick option list \<Rightarrow> (pg_counter \<times> float64) list" where
  "pg_readings pgMajor es = concat (map (\<lambda>q. bgwriter_readings pgMajor q @ wal_readings q) (polled es))"

definition pg_readings_ok :: "(pg_counter \<times> float64) list \<Rightarrow> bool" where
  "pg_readings_ok H \<longleftrightarrow>
     (\<forall>r \<in> set H. pg_whole (fst r) \<longrightarrow> whole_f64 (snd r)) \<and> (\<forall>c. gain (series fst snd c H) < 2 ^ 64)"

definition no_pg_metrics :: PGMetrics where
  "no_pg_metrics = \<lparr>pg_counters = (\<lambda>c. counter_zero), waitEventsActive = []\<rparr>"

definition major_of :: "int row \<Rightarrow> int" where
  "major_of version = (case version of Inl err \<Rightarrow> 16 | Inr major \<Rightarrow> major)"

section \<open>One reading\<close>

definition pg_reading :: "pg_counter \<times> float64 \<Rightarrow> pg_state \<Rightarrow> pg_state option" where
  "pg_reading r s = (if pg_whole (fst r) then add_pg_delta (fst r) (pg_key (fst r)) (snd r) s
                     else add_pg_delta_ms (fst r) (pg_key (fst r)) (snd r) s)"

text \<open>A counter of seconds after \<open>k\<close> additions that should add up to \<open>g\<close> milliseconds.\<close>

definition holds_seconds :: "counter \<Rightarrow> nat \<Rightarrow> rat \<Rightarrow> bool" where
  "holds_seconds c k g \<longleftrightarrow> (valBits c = 0 \<or> 1 / 2 ^ 100 \<le> valBits c) \<and>
     \<bar>of_nat (valInt c) + valBits c - g / 1000\<bar> \<le> 3 * of_nat k * (g / 1000) / 2 ^ 53"

lemma seconds_twice:
  assumes "holds_seconds c k g" "k \<le> 2 ^ 50" "0 \<le> g"
  shows "of_nat (valInt c) + valBits c \<le> 2 * (g / 1000)" "0 \<le> valBits c"
proof -
  have "(of_nat k :: rat) \<le> of_nat (2 ^ 50)" using assms(2) by (simp only: of_nat_le_iff)
  then have "3 * of_nat k * (g / 1000) \<le> 2 ^ 53 * (g / 1000)" using assms(3) by (intro mult_right_mono) simp_all
  then have "3 * of_nat k * (g / 1000) / 2 ^ 53 \<le> g / 1000" by (simp add: pos_divide_le_eq mult.commute)
  then show "of_nat (valInt c) + valBits c \<le> 2 * (g / 1000)" using assms(1) unfolding holds_seconds_def by linarith
  show "0 \<le> valBits c" using assms(1) unfolding holds_seconds_def by (auto intro: order_trans [of 0 "1 / 2 ^ 100"])
qed

lemma rounded_near:
  fixes x D :: rat
  assumes "\<bar>x - D\<bar> \<le> D / 2 ^ 53" "0 \<le> D"
  shows "D / 2 \<le> x" "x \<le> 2 * D" "0 \<le> x"
proof -
  have "D / 2 ^ 53 \<le> D / 2" using assms(2) by (intro divide_left_mono) simp_all
  then show "D / 2 \<le> x" "x \<le> 2 * D" "0 \<le> x" using assms by linarith+
qed

lemma counter_Add_seconds:
  assumes c: "holds_seconds c k g" "k \<le> 2 ^ 50" "0 \<le> g" and d: "0 \<le> d" "d \<le> 2 ^ 53" "g + of_int d < 2 ^ 64"
  shows "\<exists>c'. counter_Add c (fdiv (of_int d) 1000) = Some c' \<and> holds_seconds c' (Suc k) (g + of_int d)"
proof -
  define D :: rat where "D = of_int d / 1000"
  define x where "x = fdiv (of_int d) 1000"
  define V where "V = of_nat (valInt c) + valBits c"
  define B where "B = 3 * of_nat k * (g / 1000) / 2 ^ 53"
  note t = seconds_twice [OF c]
  have V: "\<bar>V - g / 1000\<bar> \<le> B" "V \<le> 2 * (g / 1000)" using c(1) t by (simp_all add: holds_seconds_def V_def B_def)
  have D: "0 \<le> D" "d = 0 \<or> 1 / 1000 \<le> D" using d(1) by (auto simp: D_def)
  have x: "\<bar>x - D\<bar> \<le> D / 2 ^ 53" unfolding x_def D_def fdiv_def
    by (rule rne_rel_error0) (use d(1) in auto)
  note xd = rounded_near [OF x D(1)]
  have g': "(g + of_int d) / 1000 = g / 1000 + D" by (simp add: D_def add_divide_distrib)
  have step: "B + D / 2 ^ 53 + 2 * (g / 1000 + D) / 2 ^ 53 \<le> 3 * of_nat (Suc k) * ((g + of_int d) / 1000) / 2 ^ 53"
    unfolding B_def g' using c(3) D(1) by (simp add: field_simps)
  show ?thesis
  proof (cases "f64_of_int (int (f64_to_uint64 x)) = x")
    case True
    have "(of_int d :: rat) \<le> of_int (2 ^ 53)" using d(2) by (simp only: of_int_le_iff)
    then have "x < 2 ^ 53" using xd(2) d(1) by (simp add: D_def)
    then have u: "f64_to_uint64 x = nat \<lfloor>x\<rfloor>" "0 \<le> \<lfloor>x\<rfloor>" "\<lfloor>x\<rfloor> \<le> 2 ^ 53" using xd(3) by (auto simp: f64_to_uint64_def floor_le_iff)
    have "f64_of_int (int (nat \<lfloor>x\<rfloor>)) = of_int (int (nat \<lfloor>x\<rfloor>))" using u(2,3) by (intro f64_of_int_exact) simp
    then have i: "x = of_nat (nat \<lfloor>x\<rfloor>)" using True unfolding u(1) of_int_of_nat_eq by metis
    have "of_nat (valInt c + nat \<lfloor>x\<rfloor>) \<le> 2 * (g / 1000 + D)"
      using t V(2) xd(2) i by (simp add: V_def)
    also have "\<dots> < of_nat (2 ^ 64)" using d(3) c(3) d(1) by (simp add: D_def field_simps)
    finally have "valInt c + nat \<lfloor>x\<rfloor> < 2 ^ 64" by (simp only: of_nat_less_iff)
    then have "counter_Add c x = Some (c\<lparr>valInt := valInt c + nat \<lfloor>x\<rfloor>\<rparr>)"
      using True xd(3) u(1) by (simp add: counter_Add_def Let_def)
    moreover have "\<bar>V + x - (g + of_int d) / 1000\<bar> \<le> B + D / 2 ^ 53" using V(1) x unfolding g' by linarith
    then have "\<bar>V + x - (g + of_int d) / 1000\<bar> \<le> 3 * of_nat (Suc k) * ((g + of_int d) / 1000) / 2 ^ 53"
      by (rule order_trans) (rule order_trans [OF _ step], use c(3) D(1) in simp)
    moreover have "of_nat (valInt c + nat \<lfloor>x\<rfloor>) + valBits c = V + x" using i [symmetric] by (simp add: V_def)
    ultimately show ?thesis using c(1) unfolding x_def [symmetric] by (simp add: holds_seconds_def)
  next
    case False
    then have "d \<noteq> 0" by (auto simp: x_def fdiv_def f64_to_uint64_def)
    then have b: "1 / 2000 \<le> x" using D(2) xd(1) by simp
    define y where "y = fadd (valBits c) x"
    have y: "\<bar>y - (valBits c + x)\<bar> \<le> (valBits c + x) / 2 ^ 53"
      unfolding y_def fadd_def using b t(2) by (intro rne_rel_error0) auto
    have "counter_Add c x = Some (c\<lparr>valBits := y\<rparr>)" using False xd(3) by (simp add: counter_Add_def Let_def y_def)
    moreover have "(valBits c + x) / 2 ^ 53 \<le> 2 * (g / 1000 + D) / 2 ^ 53"
      using V(2) xd(2) by (intro divide_right_mono) (simp_all add: V_def)
    then have "\<bar>of_nat (valInt c) + y - (g + of_int d) / 1000\<bar> \<le> 3 * of_nat (Suc k) * ((g + of_int d) / 1000) / 2 ^ 53"
      using V(1) x y step unfolding g' V_def by linarith
    moreover have "(valBits c + x) / 2 \<le> y" using rounded_near(1) [OF y] b t(2) by simp
    then have "1 / 4000 \<le> y" using b t(2) by simp
    then have "1 / 2 ^ 100 \<le> y" by (rule order_trans [rotated]) simp
    ultimately show ?thesis unfolding x_def [symmetric] by (auto simp: holds_seconds_def)
  qed
qed

lemma holds_seconds_get:
  assumes "holds_seconds c k g" "k \<le> 2 ^ 50" "0 \<le> g"
  shows "\<bar>counter_get c - g / 1000\<bar> \<le> 3 * (of_nat k + 2) * (g / 1000) / 2 ^ 53"
proof -
  define n where "n = f64_of_int (int (valInt c))"
  note t = seconds_twice [OF assms]
  have "int (valInt c) = 0 \<or> 1 \<le> int (valInt c)" by linarith
  then have n: "\<bar>n - of_nat (valInt c)\<bar> \<le> of_nat (valInt c) / 2 ^ 53"
    unfolding n_def f64_of_int_def of_int_of_nat_eq by (intro rne_rel_error0) auto
  have "valInt c = 0 \<or> (1 :: rat) \<le> of_nat (valInt c)" by (cases "valInt c") simp_all
  then have nb: "0 \<le> n" "n \<le> 2 * of_nat (valInt c)" "valInt c = 0 \<or> 1 / 2 \<le> n" using rounded_near [OF n] by auto
  have "valInt c = 0 \<Longrightarrow> n = 0" by (simp add: n_def)
  then have "valBits c + n = 0 \<or> 1 / 2 ^ 100 \<le> valBits c + n"
    using assms(1) nb t(2) unfolding holds_seconds_def by (cases "valInt c = 0") auto
  then have "\<bar>counter_get c - (valBits c + n)\<bar> \<le> (valBits c + n) / 2 ^ 53"
    unfolding counter_get_def fadd_def n_def [symmetric] by (rule rne_rel_error0)
  moreover have "(valBits c + n) / 2 ^ 53 \<le> 4 * (g / 1000) / 2 ^ 53"
    using t nb(2) by (intro divide_right_mono) simp_all
  moreover have "of_nat (valInt c) / 2 ^ 53 \<le> 2 * (g / 1000) / 2 ^ 53"
    using t by (intro divide_right_mono) simp_all
  moreover have "\<bar>of_nat (valInt c) + valBits c - g / 1000\<bar> \<le> 3 * of_nat k * (g / 1000) / 2 ^ 53"
    using assms(1) by (simp add: holds_seconds_def)
  ultimately have "\<bar>counter_get c - g / 1000\<bar> \<le> 3 * of_nat k * (g / 1000) / 2 ^ 53 + 4 * (g / 1000) / 2 ^ 53 + 2 * (g / 1000) / 2 ^ 53"
    using n by linarith
  then show ?thesis by (simp add: field_simps)
qed

definition pg_inv :: "(pg_counter \<times> float64) list \<Rightarrow> pg_state \<Rightarrow> bool" where
  "pg_inv H s \<longleftrightarrow>
     pgstats.follows (fst s) (\<lambda>k. series (\<lambda>r. pg_key (fst r)) snd k H) \<and>
     (\<forall>c. pg_whole c \<longrightarrow> (\<exists>n. holds_count (pg_counters (snd s) c) n \<and> of_int n = gain (series fst snd c H))) \<and>
     (\<forall>c. \<not> pg_whole c \<longrightarrow> (\<forall>x \<in> set (series fst snd c H). whole_f64 x) \<longrightarrow> length (series fst snd c H) \<le> 2 ^ 50 \<longrightarrow>
        holds_seconds (pg_counters (snd s) c) (length (series fst snd c H)) (gain (series fst snd c H)))"

lemma pg_key_inj: "pg_key c = pg_key d \<longleftrightarrow> c = d"
  by (cases c; cases d) simp_all

lemma pg_series_key: "series (\<lambda>r. pg_key (fst r)) snd (pg_key c) H = series fst snd c H"
  by (simp add: series_def pg_key_inj)

lemma whole_gain:
  assumes "\<forall>x \<in> set xs. whole_f64 x"
  shows "\<exists>n. gain xs = of_int n"
  using assms
proof (induction xs rule: gain.induct)
  case (3 x y zs)
  obtain n where n: "gain (y # zs) = of_int n" using 3 by auto
  obtain a b where ab: "x = of_int a" "y = of_int b" using 3(2) by (auto simp: whole_f64_def)
  have "gain (x # y # zs) = of_int ((if b < a then 0 else b - a) + n)" using n by (simp add: ab)
  then show ?case by blast
qed (auto intro: exI [of _ 0])

lemma whole_delta:
  assumes f: "pgstats.follows t h" and h: "\<forall>x \<in> set (h k). whole_f64 x" and v: "whole_f64 v"
  shows "\<exists>d. fst (pg_delta t k v) = of_int d \<and> 0 \<le> d \<and> d \<le> 2 ^ 53"
proof -
  have e: "fst (pg_delta t k v) = (case last_opt (h k) of None \<Rightarrow> 0 | Some p \<Rightarrow> if v < p then 0 else v - p)"
    using pgstats.delta_gain [of t h k v, OF f h v] gain_snoc [of "h k" v] by simp
  show ?thesis
  proof (cases "h k = [] \<or> v < last (h k)")
    case True
    then show ?thesis by (intro exI [of _ 0]) (auto simp: e last_opt_def)
  next
    case False
    then have "whole_f64 (last (h k))" using h last_in_set by blast
    then obtain a b where "last (h k) = of_int a" "v = of_int b" "whole_int a" "whole_int b"
      using v by (auto simp: whole_f64_def)
    then show ?thesis using False e by (intro exI [of _ "b - a"]) (auto simp: last_opt_def whole_int_def)
  qed
qed

lemma pg_Add_total: "0 \<le> v \<Longrightarrow> \<exists>c'. pg_Add c v s = Some (fst s, (snd s)\<lparr>pg_counters := (pg_counters (snd s))(c := c')\<rparr>)"
  using counter_Add_total [of v "pg_counters (snd s) c"] by (auto simp: pg_Add_def)

text \<open>A reading never panics, moves the tracker on and leaves the other counters alone.\<close>

lemma pg_reading_total:
  "\<exists>c'. pg_reading r s = Some (snd (pg_delta (fst s) (pg_key (fst r)) (snd r)),
          (snd s)\<lparr>pg_counters := (pg_counters (snd s))(fst r := c')\<rparr>)"
proof -
  obtain d t where d: "pg_delta (fst s) (pg_key (fst r)) (snd r) = (d, t)" by fastforce
  have nn: "0 \<le> d" "0 \<le> fdiv d 1000" using pg_delta_nonneg [of "fst s" "pg_key (fst r)" "snd r"]
    by (auto simp: d fdiv_def intro: rne_nonneg)
  show ?thesis
    using pg_Add_total [OF nn(1), of "fst r" "(t, snd s)"] pg_Add_total [OF nn(2), of "fst r" "(t, snd s)"]
    by (auto simp: pg_reading_def add_pg_delta_def add_pg_delta_ms_def d)
qed

lemma pg_reading_whole:
  assumes "pg_whole (fst r)" "fst (pg_delta (fst s) (pg_key (fst r)) (snd r)) = of_int d"
    "holds_count (pg_counters (snd s) (fst r)) n" "0 \<le> d" "d \<le> 2 ^ 53" "n + d < 2 ^ 64" "pg_reading r s = Some s'"
  shows "holds_count (pg_counters (snd s') (fst r)) (n + d)"
proof -
  obtain c' where "counter_Add (pg_counters (snd s) (fst r)) (of_int d) = Some c'" "holds_count c' (n + d)"
    using counter_Add_whole [OF assms(3-6)] by blast
  then show ?thesis
    using assms(1,2,7) by (auto simp: pg_reading_def add_pg_delta_def pg_Add_def split_beta)
qed

lemma pg_reading_seconds:
  assumes "\<not> pg_whole (fst r)" "fst (pg_delta (fst s) (pg_key (fst r)) (snd r)) = of_int d"
    "holds_seconds (pg_counters (snd s) (fst r)) k g" "k \<le> 2 ^ 50" "0 \<le> g" "0 \<le> d" "d \<le> 2 ^ 53" "g + of_int d < 2 ^ 64"
    "pg_reading r s = Some s'"
  shows "holds_seconds (pg_counters (snd s') (fst r)) (Suc k) (g + of_int d)"
proof -
  obtain c' where "counter_Add (pg_counters (snd s) (fst r)) (fdiv (of_int d) 1000) = Some c'" "holds_seconds c' (Suc k) (g + of_int d)"
    using counter_Add_seconds [OF assms(3-8)] by blast
  then show ?thesis
    using assms(1,2,9) by (auto simp: pg_reading_def add_pg_delta_ms_def pg_Add_def split_beta)
qed

lemma pg_reading_inv:
  assumes "pg_inv H s" "pg_readings_ok (H @ [r])"
  shows "\<exists>s'. pg_reading r s = Some s' \<and> pg_inv (H @ [r]) s'"
proof -
  let ?h = "\<lambda>k. series (\<lambda>r. pg_key (fst r)) snd k H" and ?k = "pg_key (fst r)"
  obtain c' where s': "pg_reading r s = Some (snd (pg_delta (fst s) ?k (snd r)),
      (snd s)\<lparr>pg_counters := (pg_counters (snd s))(fst r := c')\<rparr>)" (is "_ = Some ?s'")
    using pg_reading_total by blast
  have f: "pgstats.follows (fst s) ?h" using assms(1) by (simp add: pg_inv_def)
  have f': "pgstats.follows (fst ?s') (\<lambda>k. series (\<lambda>r. pg_key (fst r)) snd k (H @ [r]))"
    using pgstats.follows_delta [OF f, of ?k "snd r"] series_upd [of "\<lambda>r. pg_key (fst r)" r ?k snd H] by simp
  have "\<exists>n. holds_count (pg_counters (snd ?s') c) n \<and> of_int n = gain (series fst snd c (H @ [r]))"
    if w: "pg_whole c" for c
  proof (cases "c = fst r")
    case True
    obtain n where n: "holds_count (pg_counters (snd s) c) n" "of_int n = gain (series fst snd c H)"
      using assms(1) w by (auto simp: pg_inv_def)
    have ok: "\<forall>x \<in> set (?h ?k). whole_f64 x" "whole_f64 (snd r)"
      using assms(2) w True unfolding pg_series_key by (auto simp: pg_readings_ok_def series_def)
    obtain d where d: "fst (pg_delta (fst s) ?k (snd r)) = of_int d" "0 \<le> d" "d \<le> 2 ^ 53"
      using whole_delta [of "fst s" ?h ?k "snd r", OF f ok] by blast
    have g: "of_int (n + d) = gain (series fst snd c (H @ [r]))"
      using pgstats.delta_gain [of "fst s" ?h ?k "snd r", OF f ok] n(2) d(1) True
      by (simp add: pg_series_key series_add)
    then have "(of_int (n + d) :: rat) < of_int (2 ^ 64)" using assms(2) by (simp add: pg_readings_ok_def)
    then have "n + d < 2 ^ 64" unfolding of_int_less_iff .
    then have "holds_count (pg_counters (snd ?s') (fst r)) (n + d)"
      using pg_reading_whole [OF _ d(1) _ d(2,3) _ s'] w n(1) True by simp
    then show ?thesis using g True by blast
  next
    case False
    then show ?thesis using assms(1) w by (auto simp: pg_inv_def series_add)
  qed
  moreover have "holds_seconds (pg_counters (snd ?s') c) (length (series fst snd c (H @ [r]))) (gain (series fst snd c (H @ [r])))"
    if w: "\<not> pg_whole c" and e: "\<forall>x \<in> set (series fst snd c (H @ [r])). whole_f64 x"
      and l: "length (series fst snd c (H @ [r])) \<le> 2 ^ 50" for c
  proof (cases "c = fst r")
    case True
    let ?g = "gain (series fst snd c H)" and ?n = "length (series fst snd c H)"
    have ok: "\<forall>x \<in> set (?h ?k). whole_f64 x" "whole_f64 (snd r)"
      using e True unfolding pg_series_key by (auto simp: series_add)
    have n: "holds_seconds (pg_counters (snd s) (fst r)) ?n ?g" "?n \<le> 2 ^ 50" "0 \<le> ?g"
      using assms(1) w e l True gain_prefix [of "[]" "series fst snd c H"] by (auto simp: pg_inv_def series_add)
    obtain d where d: "fst (pg_delta (fst s) ?k (snd r)) = of_int d" "0 \<le> d" "d \<le> 2 ^ 53"
      using whole_delta [of "fst s" ?h ?k "snd r", OF f ok] by blast
    have g: "?g + of_int d = gain (series fst snd c (H @ [r]))"
      using pgstats.delta_gain [of "fst s" ?h ?k "snd r", OF f ok] d(1) True by (simp add: pg_series_key series_add)
    then have "?g + of_int d < 2 ^ 64" using assms(2) by (simp add: pg_readings_ok_def)
    then have "holds_seconds (pg_counters (snd ?s') (fst r)) (Suc ?n) (?g + of_int d)"
      using pg_reading_seconds [OF _ d(1) n d(2,3) _ s'] w True by simp
    moreover have "length (series fst snd c (H @ [r])) = Suc ?n" using True by (simp add: series_add)
    ultimately show ?thesis using g unfolding True by metis
  next
    case False
    then show ?thesis using assms(1) that by (auto simp: pg_inv_def series_add)
  qed
  ultimately show ?thesis using s' f' unfolding pg_inv_def by blast
qed

interpretation pg_poll: poller pg_reading pg_inv pg_readings_ok
proof (unfold_locales, goal_cases)
  case (1 H s r)
  then show ?case by (rule pg_reading_inv)
next
  case (2 H T)
  then show ?case
    unfolding pg_readings_ok_def using gain_series_prefix [of fst snd _ H T] le_less_trans by auto blast
qed

lemma pg_inv_init: "pg_inv [] (newPGStatsTracker, no_pg_metrics)"
  using pgstats.follows_fresh
  by (simp add: pg_inv_def no_pg_metrics_def exI [of _ 0]) (simp add: holds_seconds_def counter_zero_def)

section \<open>The collections as sequences of readings\<close>

lemma map_option_bind: "map_option f (Option.bind x g) = Option.bind x (\<lambda>y. map_option f (g y))"
  by (cases x) simp_all

lemma scanned_map_Inr [simp]: "scanned (map Inr xs) = xs"
  by (induction xs) simp_all

text \<open>The error of the bgwriter collection.\<close>

definition bgwriter_error :: "int \<Rightarrow> pg_tick \<Rightarrow> goerr option" where
  "bgwriter_error pgMajor q =
     (if pgMajor \<ge> 17 then
        (case q_checkpointer q of Inl err \<Rightarrow> Some err
         | Inr x \<Rightarrow> (case q_bgwriter17 q of Inl err \<Rightarrow> Some err | Inr y \<Rightarrow> None))
      else (case q_bgwriter16 q of Inl err \<Rightarrow> Some err | Inr x \<Rightarrow> None))"

lemma bgwriter_as_readings:
  "collectBgwriterStats pgMajor q s =
     map_option (\<lambda>(e, s). (bgwriter_error pgMajor q, s)) (scan_rows pg_reading (map Inr (bgwriter_readings pgMajor q)) None s)"
  by (auto simp: collectBgwriterStats_def collectBgwriterStatsPG16_def collectBgwriterStatsPG17_def
      bgwriter_readings_def bgwriter_error_def pg_reading_def pg_whole_def map_option_bind split: sum.split)

lemma wal_as_readings:
  "\<exists>err. \<forall>s. collectWALStats q s =
     map_option (\<lambda>(e, s). (err, s)) (scan_rows pg_reading (map Inr (wal_readings q)) None s)"
  by (cases "q_wal q")
     (auto simp: collectWALStats_def wal_readings_def pg_reading_def pg_whole_def map_option_bind split: sum.split)

text \<open>The wait events leave tracker and counters alone.\<close>

lemma wait_scan:
  "\<exists>g. scan_rows wait_event rs fin (t, m) = Some (scan_error rs fin, t, m\<lparr>waitEventsActive := g\<rparr>) \<and>
       (\<forall>l. map_of g l = (case last_opt (series (\<lambda>(a, b, n). (a, b)) (\<lambda>(a, b, n). n) l (scanned rs)) of
                            None \<Rightarrow> map_of (waitEventsActive m) l | Some n \<Rightarrow> Some n))"
proof (induction rs arbitrary: m rule: scanned.induct)
  case 1
  then show ?case by (intro exI [of _ "waitEventsActive m"]) simp
next
  case (2 err rs)
  then show ?case by (intro exI [of _ "waitEventsActive m"]) simp
next
  case (3 r rs)
  obtain a b n where r: "r = (a, b, n)" by (metis prod_cases3)
  have l: "last_opt (x # xs) = (case last_opt xs of None \<Rightarrow> Some x | Some y \<Rightarrow> Some y)" for x :: float64 and xs
    by (simp add: last_opt_def)
  show ?case
    using 3 [of "m\<lparr>waitEventsActive := AList.update (a, b) n (waitEventsActive m)\<rparr>"]
    by (auto simp: r wait_event_def series_def l update_conv split: option.split)
qed

lemma waits_inv:
  assumes "pg_inv H s"
  shows "\<exists>err s'. collectWaitEventStats q s = Some (err, s') \<and> pg_inv H s'"
proof (cases "q_waits q")
  case (Inr x)
  obtain rs fin where x: "x = (rs, fin)" by fastforce
  show ?thesis
    using assms wait_scan [of rs fin "fst s" "(snd s)\<lparr>waitEventsActive := []\<rparr>"]
    by (auto simp: collectWaitEventStats_def Inr x pg_inv_def)
qed (use assms in \<open>simp add: collectWaitEventStats_def\<close>)

lemma pg_collect_inv:
  assumes "pg_inv H s" "pg_readings_ok (H @ bgwriter_readings M q @ wal_readings q)"
  shows "\<exists>err s'. pg_collect M q s = Some (err, s') \<and> pg_inv (H @ bgwriter_readings M q @ wal_readings q) s'"
proof -
  let ?B = "bgwriter_readings M q" and ?W = "wal_readings q"
  have ok: "pg_readings_ok ((H @ ?B) @ ?W)" using assms(2) by simp
  obtain s1 where s1: "scan_rows pg_reading (map Inr ?B) None s = Some (scan_error (map Inr ?B) None, s1)" "pg_inv (H @ ?B) s1"
    using pg_poll.rows_inv [OF assms(1), of "map Inr ?B" None] pg_poll.admissible_prefix [OF ok] by auto
  obtain s2 where s2: "scan_rows pg_reading (map Inr ?W) None s1 = Some (scan_error (map Inr ?W) None, s2)"
      "pg_inv ((H @ ?B) @ ?W) s2"
    using pg_poll.rows_inv [OF s1(2), of "map Inr ?W" None] ok by auto
  obtain e2 where e2: "\<forall>s. collectWALStats q s =
      map_option (\<lambda>(e, s). (e2, s)) (scan_rows pg_reading (map Inr ?W) None s)"
    using wal_as_readings [of q] by blast
  then have "collectWALStats q s1 = Some (e2, s2)" using s2(1) e2 [THEN spec, of s1] by simp
  moreover have "collectBgwriterStats M q s = Some (bgwriter_error M q, s1)"
    using bgwriter_as_readings [of M q s] s1(1) by simp
  ultimately show ?thesis using waits_inv [OF s2(2), of q] by (simp add: pg_collect_def)
qed

lemma pg_loop_inv:
  "pg_inv H s \<Longrightarrow> pg_readings_ok (H @ pg_readings M es) \<Longrightarrow>
   \<exists>s'. stats_loop (pg_collect M) es s = Some s' \<and> pg_inv (H @ pg_readings M es) s'"
proof (induction es arbitrary: H s rule: polled.induct)
  case (3 q es)
  let ?R = "bgwriter_readings M q @ wal_readings q"
  have ok: "pg_readings_ok ((H @ ?R) @ pg_readings M es)" using 3(3) by (simp add: pg_readings_def)
  obtain err s' where s': "pg_collect M q s = Some (err, s')" "pg_inv (H @ ?R) s'"
    using pg_collect_inv [OF 3(2)] pg_poll.admissible_prefix [OF ok] by blast
  then show ?case using 3(1) [OF s'(2) ok] by (simp add: pg_readings_def)
qed (simp_all add: pg_readings_def)

section \<open>Properties\<close>

text \<open>
  C28: The server-wide counters are the server's. For every version of the server and
  whatever queries fail (the version query included, after which the PG16 queries are used),
  the poller never panics, although a Prometheus counter panics when it is made to decrease;
  every counter that is not a time holds exactly the growth of its statistic over the values
  read, resets apart, on either side of the version dispatch; and from PG17 on
  \<open>buffers_backend\<close> stays at zero. The two checkpoint times, which the server counts in whole
  milliseconds, are exported in seconds: after \<open>n \<le> 2 ^ 50\<close> values read, the counter shows a thousandth of
  their growth up to a relative error of \<open>3 (n + 2) / 2 ^ 53\<close>, that of the floating-point
  divisions and additions.
\<close>

theorem pg_counters_exact:
  assumes "0 < interval" and "pg_readings_ok (pg_readings (major_of version) es)"
  shows "\<exists>t m. RunPGStatsLoop interval version es no_pg_metrics = Some (t, m) \<and>
    (\<forall>c. pg_whole c \<longrightarrow> (\<exists>n. holds_count (pg_counters m c) n \<and>
       of_int n = gain (series fst snd c (pg_readings (major_of version) es)))) \<and>
    (\<forall>c ms. c \<in> {BgwriterCheckpointWriteSeconds, BgwriterCheckpointSyncSeconds} \<longrightarrow>
       ms = series fst snd c (pg_readings (major_of version) es) \<longrightarrow> (\<forall>x \<in> set ms. whole_f64 x) \<longrightarrow> length ms \<le> 2 ^ 50 \<longrightarrow>
       \<bar>counter_get (pg_counters m c) - gain ms / 1000\<bar> \<le> 3 * (of_nat (length ms) + 2) * (gain ms / 1000) / 2 ^ 53) \<and>
    (17 \<le> major_of version \<longrightarrow> holds_count (pg_counters m BgwriterBuffersBackend) 0)"
proof -
  let ?R = "pg_readings (major_of version) es"
  obtain t m where s: "stats_loop (pg_collect (major_of version)) es (newPGStatsTracker, no_pg_metrics) = Some (t, m)"
      and inv: "pg_inv ?R (t, m)"
    using pg_loop_inv [OF pg_inv_init, of "major_of version" es] assms(2) by auto
  have run: "RunPGStatsLoop interval version es no_pg_metrics = Some (t, m)"
    using s assms(1) by (auto simp: RunPGStatsLoop_def detectPGMajorVersion_def major_of_def split: sum.splits)
  have none: "series fst snd BgwriterBuffersBackend ?R = []" if "17 \<le> major_of version"
    using that by (auto simp: series_def pg_readings_def filter_empty_conv bgwriter_readings_def wal_readings_def
        split: sum.splits)
  have whole: "\<exists>n. holds_count (pg_counters m c) n \<and> of_int n = gain (series fst snd c ?R)" if "pg_whole c" for c
    using inv that by (simp add: pg_inv_def)
  have "holds_count (pg_counters m BgwriterBuffersBackend) 0" if "17 \<le> major_of version"
    using whole [of BgwriterBuffersBackend] none [OF that] by (auto simp: pg_whole_def)
  moreover have "\<bar>counter_get (pg_counters m c) - gain ms / 1000\<bar> \<le> 3 * (of_nat (length ms) + 2) * (gain ms / 1000) / 2 ^ 53"
    if "c \<in> {BgwriterCheckpointWriteSeconds, BgwriterCheckpointSyncSeconds}" "ms = series fst snd c ?R"
      "\<forall>x \<in> set ms. whole_f64 x" "length ms \<le> 2 ^ 50" for c ms
    using inv that gain_prefix [of "[]" ms] by (intro holds_seconds_get) (auto simp: pg_inv_def pg_whole_def)
  ultimately show ?thesis using run whole by (intro exI [of _ t] exI [of _ m] conjI allI impI)
qed

theorem pg_counters_exact_witness:
  "\<exists>t m. RunPGStatsLoop 1 (Inl ErrCanceled)
      [Some \<lparr>q_bgwriter16 = Inr (1, 2, 3, 4, 5, 6, 7), q_checkpointer = Inl ErrCanceled, q_bgwriter17 = Inl ErrCanceled,
             q_wal = Inr (100, 10, 1, 0), q_waits = Inr ([], None)\<rparr>,
       Some \<lparr>q_bgwriter16 = Inr (1, 2, 3, 4, 5, 2506, 7), q_checkpointer = Inl ErrCanceled, q_bgwriter17 = Inl ErrCanceled,
             q_wal = Inr (350, 20, 1, 0), q_waits = Inl ErrCanceled\<rparr>] no_pg_metrics = Some (t, m) \<and>
     (\<exists>n. holds_count (pg_counters m WalBytesTotal) n \<and> rat_of_int n = 250) \<and>
     \<bar>counter_get (pg_counters m BgwriterCheckpointWriteSeconds) - 5 / 2\<bar> \<le> 30 / 2 ^ 53"
proof -
  let ?es = "[Some \<lparr>q_bgwriter16 = Inr (1, 2, 3, 4, 5, 6, 7), q_checkpointer = Inl ErrCanceled, q_bgwriter17 = Inl ErrCanceled,
             q_wal = Inr (100, 10, 1, 0), q_waits = Inr ([], None)\<rparr>,
       Some \<lparr>q_bgwriter16 = Inr (1, 2, 3, 4, 5, 2506, 7), q_checkpointer = Inl ErrCanceled, q_bgwriter17 = Inl ErrCanceled,
             q_wal = Inr (350, 20, 1, 0), q_waits = Inl ErrCanceled\<rparr>]"
  have w: "whole_f64 0" "whole_f64 1" "whole_f64 (numeral k)" if "numeral k \<le> (2 ^ 53 :: int)" for k
    using that unfolding whole_f64_def whole_int_def
    by (metis of_int_0 zero_le_power zero_le_numeral order_refl, metis of_int_1 one_le_power one_le_numeral zero_le_one,
        metis of_int_numeral zero_le_numeral)
  have R: "pg_readings 16 ?es = [(BgwriterCheckpointsTimed, 1), (BgwriterCheckpointsReq, 2), (BgwriterBuffersCheckpoint, 3),
      (BgwriterBuffersClean, 4), (BgwriterBuffersBackend, 5), (BgwriterCheckpointWriteSeconds, 6),
      (BgwriterCheckpointSyncSeconds, 7), (WalBytesTotal, 100), (WalRecordsTotal, 10), (WalFPITotal, 1),
      (WalBuffersFullTotal, 0), (BgwriterCheckpointsTimed, 1), (BgwriterCheckpointsReq, 2), (BgwriterBuffersCheckpoint, 3),
      (BgwriterBuffersClean, 4), (BgwriterBuffersBackend, 5), (BgwriterCheckpointWriteSeconds, 2506),
      (BgwriterCheckpointSyncSeconds, 7), (WalBytesTotal, 350), (WalRecordsTotal, 20), (WalFPITotal, 1), (WalBuffersFullTotal, 0)]"
    by (simp add: pg_readings_def bgwriter_readings_def wal_readings_def)
  have "gain (series fst snd c (pg_readings 16 ?es)) < 2 ^ 64" for c
    unfolding R by (cases c) (simp_all add: series_def)
  then have ok: "pg_readings_ok (pg_readings (major_of (Inl ErrCanceled)) ?es)"
    using w(1,2) [of num.One] w(3)
    by (simp add: pg_readings_ok_def R major_of_def)
  obtain t m where run: "RunPGStatsLoop 1 (Inl ErrCanceled) ?es no_pg_metrics = Some (t, m)"
      "\<forall>c. pg_whole c \<longrightarrow> (\<exists>n. holds_count (pg_counters m c) n \<and> of_int n = gain (series fst snd c (pg_readings (major_of (Inl ErrCanceled)) ?es)))"
      "\<forall>c ms. c \<in> {BgwriterCheckpointWriteSeconds, BgwriterCheckpointSyncSeconds} \<longrightarrow>
       ms = series fst snd c (pg_readings (major_of (Inl ErrCanceled)) ?es) \<longrightarrow> (\<forall>x \<in> set ms. whole_f64 x) \<longrightarrow> length ms \<le> 2 ^ 50 \<longrightarrow>
       \<bar>counter_get (pg_counters m c) - gain ms / 1000\<bar> \<le> 3 * (of_nat (length ms) + 2) * (gain ms / 1000) / 2 ^ 53"
    using pg_counters_exact [OF zero_less_one ok] by (elim exE conjE) (rule that)
  have "gain (series fst snd WalBytesTotal (pg_readings (major_of (Inl ErrCanceled)) ?es)) = 250"
    by (simp add: major_of_def R series_def)
  then have a: "\<exists>n. holds_count (pg_counters m WalBytesTotal) n \<and> rat_of_int n = 250"
    using run(2) [THEN spec, of WalBytesTotal] by (auto simp: pg_whole_def)
  have ms: "[6, 2506] = series fst snd BgwriterCheckpointWriteSeconds (pg_readings (major_of (Inl ErrCanceled)) ?es)"
    by (simp add: major_of_def R series_def)
  have "\<bar>counter_get (pg_counters m BgwriterCheckpointWriteSeconds) - gain [6, 2506] / 1000\<bar> \<le>
      3 * (of_nat (length [6, 2506 :: rat]) + 2) * (gain [6, 2506] / 1000) / 2 ^ 53"
    by (rule run(3) [rule_format, OF _ ms]) (use w(3) in auto)
  then have "\<bar>counter_get (pg_counters m BgwriterCheckpointWriteSeconds) - 5 / 2\<bar> \<le> 30 / 2 ^ 53" by simp
  with run(1) a show ?thesis by blast
qed

text \<open>
  The wait-event gauge is a snapshot. After a collection whose query succeeded it holds
  exactly the events read, each with the last count read for it, and no event of an earlier
  tick; a failing scan ends the collection with what was read before it. When the query
  itself fails, the error is returned and the gauge is left alone. The counters are not
  touched in either case.
\<close>

theorem wait_events_snapshot:
  "case q_waits q of
     Inl err \<Rightarrow> collectWaitEventStats q s = Some (Some err, s)
   | Inr (rs, fin) \<Rightarrow> \<exists>g. collectWaitEventStats q s =
         Some (scan_error rs fin, fst s, (snd s)\<lparr>waitEventsActive := g\<rparr>) \<and>
       (\<forall>l. map_of g l = last_opt (series (\<lambda>(a, b, n). (a, b)) (\<lambda>(a, b, n). n) l (scanned rs)))"
proof (cases "q_waits q")
  case (Inr x)
  obtain rs fin where x: "x = (rs, fin)" by fastforce
  have o: "(case y of None \<Rightarrow> None | Some n \<Rightarrow> Some n) = y" for y :: "float64 option"
    by (cases y) simp_all
  show ?thesis
    using wait_scan [of rs fin "fst s" "(snd s)\<lparr>waitEventsActive := []\<rparr>"]
    by (simp add: collectWaitEventStats_def Inr x o cong: option.case_cong)
qed (simp add: collectWaitEventStats_def)

end
