(* ===== verification/Exporter.thy ===== *)
theory Exporter
  imports Trackers
begin

text \<open>
  What the process exports: the registration functions of \<open>metrics/\<close>, in the order in which
  \<open>main\<close> calls them, and the pool collector of \<open>metrics/pool_collector.go\<close>.

  The Prometheus registry is the list of descriptors registered with it. The client library
  identifies a descriptor without constant labels by a hash of its fully qualified name; the
  name itself stands for the hash.
\<close>

section \<open>Definitions\<close>

subsection \<open>The registry\<close>

record Desc =
  fqName :: string
  variableLabels :: "string list"

type_synonym registry = "Desc list"

text \<open>\<open>None\<close> is an error: an invalid name, a name that is registered already, or one name with
  different labels within the collector.\<close>

definition registry_Register :: "registry \<Rightarrow> Desc list \<Rightarrow> registry option" where
  "registry_Register reg ds =
     (if (\<exists>d \<in> set ds. fqName d = []) \<or>
         (\<exists>d \<in> set ds. fqName d \<in> set (map fqName reg)) \<or>
         (\<exists>d \<in> set ds. \<exists>d' \<in> set ds. fqName d = fqName d' \<and> variableLabels d \<noteq> variableLabels d')
      then None else Some (reg @ ds))"

fun MustRegister :: "Desc list list \<Rightarrow> registry \<Rightarrow> registry option" where
  "MustRegister [] reg = Some reg"
| "MustRegister (c # cs) reg = do { reg \<leftarrow> registry_Register reg c; MustRegister cs reg }"

definition namespace :: string where "namespace = ''pgstorm''"

text \<open>A collector with the single descriptor of a metric of the given name and labels.\<close>

definition metric :: "string \<Rightarrow> string list \<Rightarrow> Desc list" where
  "metric name labels = [\<lparr>fqName = namespace @ ''_'' @ name, variableLabels = labels\<rparr>]"

definition Register :: "registry \<Rightarrow> registry option" where
  "Register = MustRegister
     [metric ''ops_total'' [''op'', ''status''], metric ''op_duration_seconds'' [''op''],
      metric ''workers_active'' [], metric ''ops_skipped_total'' [''op'']]"

definition RegisterTableStats :: "registry \<Rightarrow> registry option" where
  "RegisterTableStats = MustRegister
     [metric ''table_size_bytes'' [''table''], metric ''table_live_tuples'' [''table''],
      metric ''table_dead_tuples'' [''table''], metric ''table_mod_since_analyze'' [''table''],
      metric ''table_autovacuum_total'' [''table''], metric ''table_autoanalyze_total'' [''table'']]"

definition RegisterIndexStats :: "registry \<Rightarrow> registry option" where
  "RegisterIndexStats = MustRegister
     [metric ''index_size_bytes'' [''index'', ''table''], metric ''index_scans_total'' [''index'', ''table'']]"

definition RegisterPGStats :: "registry \<Rightarrow> registry option" where
  "RegisterPGStats = MustRegister
     [metric ''wait_events_active'' [''wait_event_type'', ''wait_event''],
      metric ''bgwriter_checkpoints_timed_total'' [], metric ''bgwriter_checkpoints_req_total'' [],
      metric ''bgwriter_buffers_checkpoint_total'' [], metric ''bgwriter_buffers_clean_total'' [],
      metric ''bgwriter_buffers_backend_total'' [], metric ''bgwriter_checkpoint_write_seconds_total'' [],
      metric ''bgwriter_checkpoint_sync_seconds_total'' [],
      metric ''wal_bytes_total'' [], metric ''wal_records_total'' [], metric ''wal_fpi_total'' [],
      metric ''wal_buffers_full_total'' []]"

subsection \<open>The pool collector\<close>

record poolStats =
  acquired :: int
  idle :: int
  total_conns :: int
  max_conns :: int
  acquireCount :: int
  emptyAcquireCount :: int
  canceledAcquireCount :: int
  acquireDurationSeconds :: float64

text \<open>What the pool reports when it is asked: \<open>pool.Stat()\<close>, the acquire duration in nanoseconds.
  The collector asks at every scrape.\<close>

record pgxpool_Stat =
  AcquiredConns :: int
  IdleConns :: int
  TotalConns :: int
  MaxConnsStat :: int
  AcquireCount :: int
  EmptyAcquireCount :: int
  CanceledAcquireCount :: int
  AcquireDuration :: int

record PoolCollector =
  statFn :: "pgxpool_Stat \<Rightarrow> poolStats"
  d_acquired :: Desc
  d_idle :: Desc
  d_total :: Desc
  d_maxConns :: Desc
  d_acquireCount :: Desc
  d_emptyAcquireCount :: Desc
  d_canceledAcquireCount :: Desc
  d_acquireDuration :: Desc

definition plain_desc :: "string \<Rightarrow> Desc" where
  "plain_desc suffix = \<lparr>fqName = namespace @ suffix, variableLabels = []\<rparr>"

definition newPoolCollectorWith :: "(pgxpool_Stat \<Rightarrow> poolStats) \<Rightarrow> PoolCollector" where
  "newPoolCollectorWith fn = \<lparr>statFn = fn,
     d_acquired = plain_desc ''_pool_acquired_conns'',
     d_idle = plain_desc ''_pool_idle_conns'',
     d_total = plain_desc ''_pool_total_conns'',
     d_maxConns = plain_desc ''_pool_max_conns'',
     d_acquireCount = plain_desc ''_pool_acquire_count_total'',
     d_emptyAcquireCount = plain_desc ''_pool_empty_acquire_count_total'',
     d_canceledAcquireCount = plain_desc ''_pool_canceled_acquire_count_total'',
     d_acquireDuration = plain_desc ''_pool_acquire_duration_seconds_total''\<rparr>"

definition NewPoolCollector :: PoolCollector where
  "NewPoolCollector = newPoolCollectorWith (\<lambda>s.
     \<lparr>acquired = AcquiredConns s, idle = IdleConns s, total_conns = TotalConns s, max_conns = MaxConnsStat s,
      acquireCount = AcquireCount s, emptyAcquireCount = EmptyAcquireCount s,
      canceledAcquireCount = CanceledAcquireCount s, acquireDurationSeconds = seconds (AcquireDuration s)\<rparr>)"

definition Describe :: "PoolCollector \<Rightarrow> Desc list" where
  "Describe c = [d_acquired c, d_idle c, d_total c, d_maxConns c, d_acquireCount c,
     d_emptyAcquireCount c, d_canceledAcquireCount c, d_acquireDuration c]"

datatype value_type = GaugeValue | CounterValue

definition Collect :: "PoolCollector \<Rightarrow> pgxpool_Stat \<Rightarrow> (Desc \<times> value_type \<times> float64) list" where
  "Collect c pool = (let s = statFn c pool in
     [(d_acquired c, GaugeValue, f64_of_int (acquired s)),
      (d_idle c, GaugeValue, f64_of_int (idle s)),
      (d_total c, GaugeValue, f64_of_int (total_conns s)),
      (d_maxConns c, GaugeValue, f64_of_int (max_conns s)),
      (d_acquireCount c, CounterValue, f64_of_int (acquireCount s)),
      (d_emptyAcquireCount c, CounterValue, f64_of_int (emptyAcquireCount s)),
      (d_canceledAcquireCount c, CounterValue, f64_of_int (canceledAcquireCount s)),
      (d_acquireDuration c, CounterValue, acquireDurationSeconds s)])"

text \<open>The registrations of \<open>main\<close>.\<close>

definition register_all :: "bool \<Rightarrow> registry \<Rightarrow> registry option" where
  "register_all createIndexes reg = do {
     reg \<leftarrow> Register reg;
     reg \<leftarrow> MustRegister [Describe NewPoolCollector] reg;
     reg \<leftarrow> RegisterTableStats reg;
     reg \<leftarrow> RegisterPGStats reg;
     if createIndexes then RegisterIndexStats reg else Some reg
   }"

section \<open>Lemmas\<close>

lemma MustRegister_append: "MustRegister (cs @ cs') reg = Option.bind (MustRegister cs reg) (MustRegister cs')"
proof (induction cs arbitrary: reg)
  case (Cons c cs)
  then show ?case by (cases "registry_Register reg c") simp_all
qed simp

lemma registry_Register_fresh:
  assumes "\<forall>d \<in> set ds. fqName d \<noteq> [] \<and> fqName d \<notin> set (map fqName reg)" "distinct (map fqName ds)"
  shows "registry_Register reg ds = Some (reg @ ds)"
  using assms by (auto simp: registry_Register_def distinct_map inj_on_def)

lemma MustRegister_fresh:
  assumes "\<forall>d \<in> set (concat cs). fqName d \<noteq> [] \<and> fqName d \<notin> set (map fqName reg)"
    "distinct (map fqName (concat cs))"
  shows "MustRegister cs reg = Some (reg @ concat cs)"
  using assms
proof (induction cs arbitrary: reg)
  case (Cons c cs)
  have "registry_Register reg c = Some (reg @ c)" using Cons.prems by (intro registry_Register_fresh) auto
  moreover have "MustRegister cs (reg @ c) = Some ((reg @ c) @ concat cs)"
  proof (rule Cons.IH)
    have "fqName ` set c \<inter> fqName ` set (concat cs) = {}" using Cons.prems(2) by (simp add: image_Un)
    then show "\<forall>d \<in> set (concat cs). fqName d \<noteq> [] \<and> fqName d \<notin> set (map fqName (reg @ c))"
      using Cons.prems(1) by (auto simp: disjoint_iff image_iff)
  qed (use Cons.prems in simp)
  ultimately show ?case by simp
qed simp

lemma MustRegister_dup:
  assumes "d \<in> set c" "fqName d \<in> set (map fqName reg)"
  shows "MustRegister (c # cs) reg = None"
  using assms by (auto simp: registry_Register_def)

text \<open>Everything \<open>main\<close> registers, as one list of collectors.\<close>

definition all_collectors :: "bool \<Rightarrow> Desc list list" where
  "all_collectors createIndexes =
     [metric ''ops_total'' [''op'', ''status''], metric ''op_duration_seconds'' [''op''],
      metric ''workers_active'' [], metric ''ops_skipped_total'' [''op''],
      Describe NewPoolCollector,
      metric ''table_size_bytes'' [''table''], metric ''table_live_tuples'' [''table''],
      metric ''table_dead_tuples'' [''table''], metric ''table_mod_since_analyze'' [''table''],
      metric ''table_autovacuum_total'' [''table''], metric ''table_autoanalyze_total'' [''table''],
      metric ''wait_events_active'' [''wait_event_type'', ''wait_event''],
      metric ''bgwriter_checkpoints_timed_total'' [], metric ''bgwriter_checkpoints_req_total'' [],
      metric ''bgwriter_buffers_checkpoint_total'' [], metric ''bgwriter_buffers_clean_total'' [],
      metric ''bgwriter_buffers_backend_total'' [], metric ''bgwriter_checkpoint_write_seconds_total'' [],
      metric ''bgwriter_checkpoint_sync_seconds_total'' [],
      metric ''wal_bytes_total'' [], metric ''wal_records_total'' [], metric ''wal_fpi_total'' [],
      metric ''wal_buffers_full_total'' []] @
     (if createIndexes then
        [metric ''index_size_bytes'' [''index'', ''table''], metric ''index_scans_total'' [''index'', ''table'']]
      else [])"

lemma register_all_eq: "register_all b reg = MustRegister (all_collectors b) reg"
proof -
  have nil: "MustRegister [] = Some" by (simp add: fun_eq_iff)
  have app: "MustRegister (cs @ cs') = (\<lambda>r. Option.bind (MustRegister cs r) (MustRegister cs'))" for cs cs'
    by (simp add: fun_eq_iff MustRegister_append)
  obtain A P T G I where l: "Register = MustRegister A" "MustRegister [Describe NewPoolCollector] = MustRegister P"
      "RegisterTableStats = MustRegister T" "RegisterPGStats = MustRegister G" "RegisterIndexStats = MustRegister I"
      "all_collectors b = A @ P @ T @ G @ (if b then I else [])"
    by (rule that, rule Register_def, rule refl, rule RegisterTableStats_def, rule RegisterPGStats_def,
        rule RegisterIndexStats_def, simp add: all_collectors_def)
  show ?thesis unfolding register_all_def l app by (simp add: nil)
qed

lemma metric_descs [simp]: "map fqName (metric name labels) = [''pgstorm_'' @ name]"
  "d \<in> set (metric name labels) \<Longrightarrow> fqName d = ''pgstorm_'' @ name"
  by (simp_all add: metric_def namespace_def)

lemma pool_descs: "map fqName (Describe NewPoolCollector) = map (\<lambda>s. ''pgstorm_'' @ s)
    [''pool_acquired_conns'', ''pool_idle_conns'', ''pool_total_conns'', ''pool_max_conns'', ''pool_acquire_count_total'',
     ''pool_empty_acquire_count_total'', ''pool_canceled_acquire_count_total'', ''pool_acquire_duration_seconds_total'']"
  by (simp add: Describe_def NewPoolCollector_def newPoolCollectorWith_def plain_desc_def namespace_def)

lemma all_names: "\<exists>ns. map fqName (concat (all_collectors b)) = map (\<lambda>s. ''pgstorm_'' @ s) ns \<and>
    distinct ns \<and> length ns = (if b then 32 else 30)"
proof -
  have "\<exists>ns. map fqName (concat (all_collectors b)) = map (\<lambda>s. ''pgstorm_'' @ s) ns \<and>
    distinct ns \<and> length ns = (if b then 32 else 30)" if "b = False \<or> b = True" for b
  proof -
    let ?n = "[''ops_total'', ''op_duration_seconds'', ''workers_active'', ''ops_skipped_total'',
       ''pool_acquired_conns'', ''pool_idle_conns'', ''pool_total_conns'', ''pool_max_conns'', ''pool_acquire_count_total'',
       ''pool_empty_acquire_count_total'', ''pool_canceled_acquire_count_total'', ''pool_acquire_duration_seconds_total'',
       ''table_size_bytes'', ''table_live_tuples'', ''table_dead_tuples'', ''table_mod_since_analyze'',
       ''table_autovacuum_total'', ''table_autoanalyze_total'', ''wait_events_active'',
       ''bgwriter_checkpoints_timed_total'', ''bgwriter_checkpoints_req_total'', ''bgwriter_buffers_checkpoint_total'',
       ''bgwriter_buffers_clean_total'', ''bgwriter_buffers_backend_total'', ''bgwriter_checkpoint_write_seconds_total'',
       ''bgwriter_checkpoint_sync_seconds_total'', ''wal_bytes_total'', ''wal_records_total'', ''wal_fpi_total'',
       ''wal_buffers_full_total''] @ (if b then [''index_size_bytes'', ''index_scans_total''] else [])"
    have "map fqName (concat (all_collectors b)) = map (\<lambda>s. ''pgstorm_'' @ s) ?n"
      by (cases b) (simp_all add: all_collectors_def pool_descs map_concat)
    moreover have "distinct ?n" by (cases b) (simp_all only: if_True if_False append.simps, code_simp+)
    moreover have "length ?n = (if b then 32 else 30)" by simp
    ultimately show ?thesis by blast
  qed
  then show ?thesis by blast
qed

text \<open>In a registry without a metric of the program's prefix, all its metrics are new.\<close>

lemma all_collectors_new:
  assumes "\<forall>d \<in> set reg. take 8 (fqName d) \<noteq> ''pgstorm_''"
  shows "MustRegister (all_collectors b) reg = Some (reg @ concat (all_collectors b))"
    "distinct (map fqName (concat (all_collectors b)))"
    "length (concat (all_collectors b)) = (if b then 32 else 30)"
proof -
  let ?cs = "all_collectors b"
  obtain ns where ns: "map fqName (concat ?cs) = map (\<lambda>s. ''pgstorm_'' @ s) ns" "distinct ns"
      "length ns = (if b then 32 else 30)" using all_names by blast
  have p: "take 8 (fqName d) = ''pgstorm_''" if "d \<in> set (concat ?cs)" for d
  proof -
    have "fqName d \<in> set (map (\<lambda>s. ''pgstorm_'' @ s) ns)" using that unfolding ns(1) [symmetric] by simp
    then show ?thesis by auto
  qed
  show dist: "distinct (map fqName (concat ?cs))" unfolding ns(1) using ns(2) by (simp add: distinct_map inj_on_def)
  show "MustRegister ?cs reg = Some (reg @ concat ?cs)"
    using p assms dist by (intro MustRegister_fresh) (fastforce simp: image_iff)+
  show "length (concat ?cs) = (if b then 32 else 30)" using ns(3) arg_cong [OF ns(1), of length] by simp
qed

section \<open>Properties\<close>

text \<open>
  C29: Registration never panics. Whatever the process registered before under other names
  (the Go runtime and process collectors), the registrations of \<open>main\<close> all succeed, with and
  without the index statistics, and add 30 or 32 metrics under pairwise different names; a
  second round would panic. The pool collector emits exactly the metrics it describes, in
  that order, and the connection counts and acquire counters it emits are exact.
\<close>

theorem registration_never_panics:
  assumes "\<forall>d \<in> set reg. take 8 (fqName d) \<noteq> ''pgstorm_''"
    and "\<forall>n \<in> {AcquiredConns pool, IdleConns pool, TotalConns pool, MaxConnsStat pool, AcquireCount pool,
             EmptyAcquireCount pool, CanceledAcquireCount pool}. \<bar>n\<bar> \<le> 2 ^ 53"
  shows "\<exists>new. register_all createIndexes reg = Some (reg @ new) \<and>
     distinct (map fqName new) \<and> length new = (if createIndexes then 32 else 30) \<and>
     register_all createIndexes (reg @ new) = None \<and>
     map fst (Collect NewPoolCollector pool) = Describe NewPoolCollector \<and>
     map (\<lambda>(d, k, v). v) (Collect NewPoolCollector pool) =
       map of_int [AcquiredConns pool, IdleConns pool, TotalConns pool, MaxConnsStat pool, AcquireCount pool,
         EmptyAcquireCount pool, CanceledAcquireCount pool] @ [seconds (AcquireDuration pool)]"
proof -
  let ?cs = "all_collectors createIndexes"
  note new = all_collectors_new [OF assms(1), of createIndexes]
  have "MustRegister ?cs (reg @ concat ?cs) = None"
  proof -
    obtain c cs d where c: "?cs = c # cs" "d \<in> set c" by (simp add: all_collectors_def metric_def)
    then have "fqName d \<in> set (map fqName (reg @ concat ?cs))" by simp
    then show ?thesis using MustRegister_dup [OF c(2)] unfolding c(1) by blast
  qed
  moreover have "map fst (Collect NewPoolCollector pool) = Describe NewPoolCollector"
    by (simp add: Collect_def Describe_def Let_def)
  moreover have "map (\<lambda>(d, k, v). v) (Collect NewPoolCollector pool) =
       map of_int [AcquiredConns pool, IdleConns pool, TotalConns pool, MaxConnsStat pool, AcquireCount pool,
         EmptyAcquireCount pool, CanceledAcquireCount pool] @ [seconds (AcquireDuration pool)]"
    using assms(2) by (simp add: Collect_def NewPoolCollector_def newPoolCollectorWith_def Let_def)
  ultimately show ?thesis using new unfolding register_all_eq by blast
qed

theorem registration_never_panics_witness:
  "\<exists>new. register_all True [\<lparr>fqName = ''go_goroutines'', variableLabels = []\<rparr>] =
      Some (\<lparr>fqName = ''go_goroutines'', variableLabels = []\<rparr> # new) \<and> length new = 32"
  using registration_never_panics [of "[\<lparr>fqName = ''go_goroutines'', variableLabels = []\<rparr>]"
      "\<lparr>AcquiredConns = 3, IdleConns = 2, TotalConns = 5, MaxConnsStat = 15, AcquireCount = 100,
        EmptyAcquireCount = 7, CanceledAcquireCount = 0, AcquireDuration = 1500000000\<rparr>" True]
  by auto

end
