(* ===== verification/Schema.thy ===== *)
theory Schema
  imports Config
begin

text \<open>
  Schema migration by several replicas: \<open>db/schema.go\<close> and the schema of the OLTP profile
  (\<open>workload/oltp.go\<close>).

  A replica is a program that makes calls on the driver: the tree \<open>io\<close> of its next call and
  of how it goes on after each reply. The functions of \<open>db/schema.go\<close> are such programs, the
  polling loop of \<open>WaitForSchema\<close> bounded by fuel; a replica that has used up its fuel is
  still polling. Replicas run interleaved against one server, call by call. The server is a
  parameter: \<open>pg_documented\<close> states what PostgreSQL documents of advisory locks, of
  \<open>CREATE ... IF NOT EXISTS\<close> and of its catalogs. The session in which a replica asked for the
  lock may end at any time, which releases its lock; the DDL runs in other sessions of the pool
  and goes on.
\<close>

section \<open>Definitions\<close>

subsection \<open>Programs\<close>

datatype mcall =
    PoolAcquire
  | TryLock int
  | Unlock int
  | Release
  | Exec string
  | CtxPoll
  | QueryTables "string list"
  | QueryIndex string

text \<open>The error of a call; the boolean a row holds; the outcome of scanning each row.\<close>

record mreply =
  m_err :: "goerr option"
  m_flag :: bool
  m_rows :: "(goerr + string) list"

datatype 'a io = Ret 'a | Call mcall "mreply \<Rightarrow> 'a io"

primrec io_bind :: "'a io \<Rightarrow> ('a \<Rightarrow> 'b io) \<Rightarrow> 'b io" where
  "io_bind (Ret x) f = f x"
| "io_bind (Call c k) f = Call c (\<lambda>r. io_bind (k r) f)"

subsection \<open>Migration\<close>

definition advisoryLockID :: int where "advisoryLockID = 7654321"

record Schema =
  Tables :: "string list"
  Indexes :: "string list"
  TrackedTables :: "string list"
  SentinelIndex :: string

text \<open>The outcome of a migration: \<open>MigrateWithLock\<close> has returned, or is still polling.\<close>

datatype outcome = Returned "goerr option" | Polling

fun exec_all :: "string list \<Rightarrow> goerr option io" where
  "exec_all [] = Ret None"
| "exec_all (ddl # rest) = Call (Exec ddl) (\<lambda>r. case m_err r of Some err \<Rightarrow> Ret (Some err) | None \<Rightarrow> exec_all rest)"

definition CreateTables :: "Schema \<Rightarrow> goerr option io" where
  "CreateTables schema = exec_all (Tables schema)"

definition CreateIndexes :: "Schema \<Rightarrow> goerr option io" where
  "CreateIndexes schema = exec_all (Indexes schema)"

text \<open>What \<open>checkMissingTables\<close> makes of the reply: a failed query misses everything, a row
  that cannot be scanned is skipped.\<close>

definition checkMissingTables :: "string list \<Rightarrow> mreply \<Rightarrow> string list" where
  "checkMissingTables required r =
     (if m_err r \<noteq> None then required
      else let found = List.map_filter (\<lambda>x. case x of Inl err \<Rightarrow> None | Inr name \<Rightarrow> Some name) (m_rows r)
           in filter (\<lambda>t. t \<notin> set found) required)"

text \<open>\<open>indexExists\<close> ignores the error, which leaves \<open>exists\<close> false.\<close>

definition indexExists :: "mreply \<Rightarrow> bool" where
  "indexExists r = (m_err r = None \<and> m_flag r)"

fun WaitForSchema :: "nat \<Rightarrow> Schema \<Rightarrow> bool \<Rightarrow> outcome io" where
  "WaitForSchema 0 schema waitIndexes = Ret Polling"
| "WaitForSchema (Suc n) schema waitIndexes =
     Call CtxPoll (\<lambda>r. case m_err r of
       Some err \<Rightarrow> Ret (Returned (Some err))
     | None \<Rightarrow>
         Call (QueryTables (TrackedTables schema)) (\<lambda>r.
           if checkMissingTables (TrackedTables schema) r \<noteq> [] then WaitForSchema n schema waitIndexes
           else if waitIndexes \<and> SentinelIndex schema \<noteq> [] then
             Call (QueryIndex (SentinelIndex schema)) (\<lambda>r.
               if \<not> indexExists r then WaitForSchema n schema waitIndexes
               else Ret (Returned None))
           else Ret (Returned None)))"

text \<open>\<open>defer conn.Release()\<close> and \<open>defer conn.Exec(... pg_advisory_unlock ...)\<close>: the call is made when
  the function returns, not while it is still polling.\<close>

definition deferred :: "mcall \<Rightarrow> outcome io \<Rightarrow> outcome io" where
  "deferred c m = io_bind m (\<lambda>x. case x of Polling \<Rightarrow> Ret Polling | Returned err \<Rightarrow> Call c (\<lambda>r. Ret (Returned err)))"

definition wrap_err :: "string \<Rightarrow> goerr option \<Rightarrow> goerr option" where
  "wrap_err msg err = map_option (Wrap msg) err"

definition wrap_outcome :: "string \<Rightarrow> outcome \<Rightarrow> outcome" where
  "wrap_outcome msg x = (case x of Polling \<Rightarrow> Polling | Returned err \<Rightarrow> Returned (wrap_err msg err))"

definition lead :: "Config \<Rightarrow> Schema \<Rightarrow> outcome io" where
  "lead cfg schema =
     io_bind (CreateTables schema) (\<lambda>err.
       if err \<noteq> None then Ret (Returned (wrap_err ''create tables'' err))
       else if Config.CreateIndexes cfg then
         io_bind (CreateIndexes schema) (\<lambda>err. Ret (Returned (wrap_err ''create indexes'' err)))
       else Ret (Returned None))"

definition follow :: "nat \<Rightarrow> Config \<Rightarrow> Schema \<Rightarrow> outcome io" where
  "follow fuel cfg schema =
     io_bind (WaitForSchema fuel schema (Config.CreateIndexes cfg)) (\<lambda>x. Ret (wrap_outcome ''wait for schema'' x))"

definition MigrateWithLock :: "nat \<Rightarrow> Config \<Rightarrow> Schema \<Rightarrow> outcome io" where
  "MigrateWithLock fuel cfg schema =
     Call PoolAcquire (\<lambda>r. case m_err r of
       Some err \<Rightarrow> Ret (Returned (Some (Wrap ''acquire connection for migration'' err)))
     | None \<Rightarrow> deferred Release (
         Call (TryLock advisoryLockID) (\<lambda>r. case m_err r of
           Some err \<Rightarrow> Ret (Returned (Some (Wrap ''try advisory lock'' err)))
         | None \<Rightarrow>
             if m_flag r then deferred (Unlock advisoryLockID) (lead cfg schema)
             else follow fuel cfg schema)))"

subsection \<open>The schema of the OLTP profile\<close>

text \<open>The DDL texts, with runs of white space as single blanks.\<close>

definition oltpSchema :: Schema where
  "oltpSchema = \<lparr>
     Tables = [
       ''CREATE TABLE IF NOT EXISTS sessions ( id UUID PRIMARY KEY DEFAULT gen_random_uuid(), user_id UUID NOT NULL, started_at TIMESTAMPTZ NOT NULL DEFAULT now(), ended_at TIMESTAMPTZ, region TEXT NOT NULL, metadata JSONB NOT NULL, status TEXT NOT NULL DEFAULT 'active', created_at TIMESTAMPTZ NOT NULL DEFAULT now() )'',
       ''CREATE TABLE IF NOT EXISTS events ( id UUID PRIMARY KEY DEFAULT gen_random_uuid(), session_id UUID NOT NULL REFERENCES sessions(id), event_type TEXT NOT NULL, occurred_at TIMESTAMPTZ NOT NULL DEFAULT now(), payload JSONB NOT NULL, severity TEXT NOT NULL DEFAULT 'info', trace_id TEXT NOT NULL, source_ip INET, created_at TIMESTAMPTZ NOT NULL DEFAULT now() )'',
       ''CREATE TABLE IF NOT EXISTS audit_log ( id UUID PRIMARY KEY DEFAULT gen_random_uuid(), entity_type TEXT NOT NULL, entity_id UUID NOT NULL, action TEXT NOT NULL, changed_by UUID NOT NULL, changed_at TIMESTAMPTZ NOT NULL DEFAULT now(), diff JSONB NOT NULL, checksum TEXT NOT NULL )''],
     Indexes = [
       ''CREATE INDEX CONCURRENTLY IF NOT EXISTS idx_sessions_user_id ON sessions (user_id)'',
       ''CREATE INDEX CONCURRENTLY IF NOT EXISTS idx_sessions_status_created ON sessions (status, created_at DESC)'',
       ''CREATE INDEX CONCURRENTLY IF NOT EXISTS idx_events_session_id ON events (session_id)'',
       ''CREATE INDEX CONCURRENTLY IF NOT EXISTS idx_events_occurred_at ON events (occurred_at DESC)'',
       ''CREATE INDEX CONCURRENTLY IF NOT EXISTS idx_events_severity_occurred ON events (severity, occurred_at DESC)'',
       ''CREATE INDEX CONCURRENTLY IF NOT EXISTS idx_events_source_ip ON events (source_ip)'',
       ''CREATE INDEX CONCURRENTLY IF NOT EXISTS idx_audit_log_entity_id ON audit_log (entity_id, changed_at DESC)'',
       ''CREATE INDEX CONCURRENTLY IF NOT EXISTS idx_audit_log_changed_at ON audit_log (changed_at DESC)''],
     TrackedTables = [''sessions'', ''events'', ''audit_log''],
     SentinelIndex = ''idx_audit_log_changed_at''\<rparr>"

subsection \<open>Running a program\<close>

text \<open>A single replica against an environment that answers its \<open>t\<close>-th call.\<close>

primrec run_io :: "'a io \<Rightarrow> (nat \<Rightarrow> mcall \<Rightarrow> mreply) \<Rightarrow> nat \<Rightarrow> 'a \<times> mcall list" where
  "run_io (Ret x) env t = (x, [])"
| "run_io (Call c k) env t = (case run_io (k (env t c)) env (Suc t) of (x, cs) \<Rightarrow> (x, c # cs))"

text \<open>The server: which replies and states may follow a call of a replica; how a running DDL
  statement shows before it returns; how the session on which a replica holds its connection may
  end; the replica whose session holds the advisory lock, the replicas whose session
  has ended so far, the tables and the indexes.\<close>

record 's server =
  answers :: "nat \<Rightarrow> mcall \<Rightarrow> 's \<Rightarrow> mreply \<Rightarrow> 's \<Rightarrow> bool"
  progresses :: "string \<Rightarrow> 's \<Rightarrow> 's \<Rightarrow> bool"
  ends :: "nat \<Rightarrow> 's \<Rightarrow> 's \<Rightarrow> bool"
  holder :: "'s \<Rightarrow> nat option"
  lost :: "'s \<Rightarrow> nat set"
  pg_tables :: "'s \<Rightarrow> string set"
  pg_indexes :: "'s \<Rightarrow> string set"

inductive cluster_step :: "'s server \<Rightarrow> 's \<times> outcome io list \<Rightarrow> 's \<times> outcome io list \<Rightarrow> bool"
  for M :: "'s server" where
  call: "p < length ps \<Longrightarrow> ps ! p = Call c k \<Longrightarrow> answers M p c s r s' \<Longrightarrow>
     cluster_step M (s, ps) (s', ps[p := k r])"
| background: "p < length ps \<Longrightarrow> ps ! p = Call (Exec ddl) k \<Longrightarrow> progresses M ddl s s' \<Longrightarrow>
     cluster_step M (s, ps) (s', ps)"
| session_end: "p < length ps \<Longrightarrow> ends M p s s' \<Longrightarrow> cluster_step M (s, ps) (s', ps)"

text \<open>What a DDL statement is about: the name after \<open>IF NOT EXISTS\<close>.\<close>

fun after_text :: "string \<Rightarrow> string \<Rightarrow> string" where
  "after_text pat [] = []"
| "after_text pat (c # cs) =
     (if take (length pat) (c # cs) = pat then drop (length pat) (c # cs) else after_text pat cs)"

definition ddl_name :: "string \<Rightarrow> string" where
  "ddl_name ddl = takeWhile (\<lambda>c. c \<noteq> CHR '' '') (after_text ''IF NOT EXISTS '' ddl)"

definition is_index :: "string \<Rightarrow> bool" where
  "is_index ddl \<longleftrightarrow> take 12 ddl = ''CREATE INDEX''"

text \<open>Each replica starts with its own configuration and fuel, against a server with the indexes \<open>I0\<close> on
  which nobody holds the lock.\<close>

definition cluster_init :: "'s server \<Rightarrow> Schema \<Rightarrow> (nat \<times> Config) list \<Rightarrow> string set \<Rightarrow> 's \<times> outcome io list \<Rightarrow> bool" where
  "cluster_init M schema reps I0 c \<longleftrightarrow>
     snd c = map (\<lambda>(n, cfg). MigrateWithLock n cfg schema) reps \<and> holder M (fst c) = None \<and> lost M (fst c) = {} \<and>
     pg_indexes M (fst c) = I0"

section \<open>Specification\<close>

subsection \<open>What PostgreSQL documents\<close>

text \<open>
  Session-level advisory locks: at most one session holds a lock, and of all calls only its own take
  it or give it up (a failing \<open>pg_try_advisory_lock\<close> may have taken it). The end of the session
  gives it up too.
\<close>

definition lock_rule :: "nat \<Rightarrow> mcall \<Rightarrow> mreply \<Rightarrow> nat option \<Rightarrow> nat option \<Rightarrow> bool" where
  "lock_rule p c r h h' = (case c of
     TryLock i \<Rightarrow>
       if m_err r = None then (if m_flag r then (h = None \<or> h = Some p) \<and> h' = Some p else h' = h)
       else h' = h \<or> h = None \<and> h' = Some p
   | Unlock i \<Rightarrow> h' = h \<or> h = Some p \<and> h' = None
   | _ \<Rightarrow> h' = h)"

text \<open>The indexes a statement may add: its own, or the primary key of its table.\<close>

definition ddl_adds :: "string \<Rightarrow> string set" where
  "ddl_adds ddl = (if is_index ddl then {ddl_name ddl} else {ddl_name ddl @ ''_pkey''})"

text \<open>Nothing is dropped; a statement that succeeded has created its relation; the catalogs
  list what exists, an index that is still being built (or was left behind invalid by a
  failed build) included.\<close>

definition catalog_rule :: "mcall \<Rightarrow> mreply \<Rightarrow> string set \<Rightarrow> string set \<Rightarrow> string set \<Rightarrow> string set \<Rightarrow> bool" where
  "catalog_rule c r T T' I I' \<longleftrightarrow>
     T \<subseteq> T' \<and> I \<subseteq> I' \<and> I' \<subseteq> I \<union> (case c of Exec ddl \<Rightarrow> ddl_adds ddl | _ \<Rightarrow> {}) \<and>
     (m_err r = None \<longrightarrow>
       (case c of
          Exec ddl \<Rightarrow> if is_index ddl then ddl_name ddl \<in> I' else ddl_name ddl \<in> T'
        | QueryTables req \<Rightarrow> (\<forall>name. Inr name \<in> set (m_rows r) \<longrightarrow> name \<in> T)
        | QueryIndex i \<Rightarrow> m_flag r \<longrightarrow> i \<in> I
        | _ \<Rightarrow> True))"

definition pg_documented :: "'s server \<Rightarrow> bool" where
  "pg_documented M \<longleftrightarrow>
     (\<forall>p c s r s'. answers M p c s r s' \<longrightarrow> lost M s' = lost M s \<and>
        lock_rule p c r (holder M s) (holder M s') \<and>
        catalog_rule c r (pg_tables M s) (pg_tables M s') (pg_indexes M s) (pg_indexes M s')) \<and>
     (\<forall>ddl s s'. progresses M ddl s s' \<longrightarrow>
        holder M s' = holder M s \<and> lost M s' = lost M s \<and> pg_tables M s \<subseteq> pg_tables M s' \<and> pg_indexes M s \<subseteq> pg_indexes M s' \<and>
        pg_indexes M s' \<subseteq> pg_indexes M s \<union> ddl_adds ddl) \<and>
     (\<forall>p s s'. ends M p s s' \<longrightarrow>
        holder M s' = (if holder M s = Some p then None else holder M s) \<and> lost M s' = insert p (lost M s) \<and>
        pg_tables M s' = pg_tables M s \<and> pg_indexes M s' = pg_indexes M s)"

subsection \<open>What a replica may rely on\<close>

definition schema_ok :: "Schema \<Rightarrow> bool" where
  "schema_ok S \<longleftrightarrow>
     set (TrackedTables S) \<subseteq> ddl_name ` set (Tables S) \<and>
     (\<forall>ddl \<in> set (Tables S). \<not> is_index ddl \<and> ddl_name ddl @ ''_pkey'' \<noteq> SentinelIndex S) \<and>
     (\<forall>ddl \<in> set (Indexes S). is_index ddl) \<and> distinct (map ddl_name (Indexes S)) \<and>
     Indexes S \<noteq> [] \<and> SentinelIndex S = ddl_name (last (Indexes S)) \<and> SentinelIndex S \<noteq> []"

text \<open>The replica's knowledge: whether it has the connection, whether it holds the lock, and
  relations it knows to exist. Other replicas cannot invalidate it; that the lock is held, only the
  end of its session can.\<close>

record know =
  kn_conn :: bool
  kn_lock :: bool
  kn_tabs :: "string set"
  kn_idx :: "string set"

definition learns :: "mcall \<Rightarrow> mreply \<Rightarrow> know \<Rightarrow> know" where
  "learns c r K = (case c of
     PoolAcquire \<Rightarrow> if m_err r = None then K\<lparr>kn_conn := True\<rparr> else K
   | TryLock i \<Rightarrow> if m_err r = None \<and> m_flag r then K\<lparr>kn_lock := True\<rparr> else K
   | Unlock i \<Rightarrow> K\<lparr>kn_lock := False\<rparr>
   | Release \<Rightarrow> K\<lparr>kn_conn := False\<rparr>
   | Exec ddl \<Rightarrow>
       if m_err r \<noteq> None then K
       else if is_index ddl then K\<lparr>kn_idx := insert (ddl_name ddl) (kn_idx K)\<rparr>
       else K\<lparr>kn_tabs := insert (ddl_name ddl) (kn_tabs K)\<rparr>
   | CtxPoll \<Rightarrow> K
   | QueryTables req \<Rightarrow> if m_err r = None then K\<lparr>kn_tabs := kn_tabs K \<union> {n. Inr n \<in> set (m_rows r)}\<rparr> else K
   | QueryIndex i \<Rightarrow> if m_err r = None \<and> m_flag r then K\<lparr>kn_idx := insert i (kn_idx K)\<rparr> else K)"

text \<open>When a call is in order: DDL only under the lock and an index only after the ones before
  it, the lock given up before the connection.\<close>

definition permits :: "Schema \<Rightarrow> mcall \<Rightarrow> know \<Rightarrow> bool" where
  "permits S c K = (case c of
     PoolAcquire \<Rightarrow> \<not> kn_conn K
   | TryLock i \<Rightarrow> kn_conn K \<and> \<not> kn_lock K
   | Unlock i \<Rightarrow> kn_conn K \<and> kn_lock K
   | Release \<Rightarrow> kn_conn K \<and> \<not> kn_lock K
   | Exec ddl \<Rightarrow> kn_lock K \<and>
       (ddl \<in> set (Tables S) \<or> (\<exists>pre post. Indexes S = pre @ ddl # post \<and> ddl_name ` set pre \<subseteq> kn_idx K))
   | _ \<Rightarrow> True)"

primrec safe :: "Schema \<Rightarrow> 'a io \<Rightarrow> ('a \<Rightarrow> know \<Rightarrow> bool) \<Rightarrow> know \<Rightarrow> bool" where
  "safe S (Ret x) Q = Q x"
| "safe S (Call c k) Q = (\<lambda>K. permits S c K \<and> (\<forall>r. safe S (k r) Q (learns c r K)))"

text \<open>What holds of a replica's knowledge when it has finished.\<close>

definition migrated :: "Schema \<Rightarrow> Config \<Rightarrow> outcome \<Rightarrow> know \<Rightarrow> bool" where
  "migrated S cfg x K \<longleftrightarrow> (x \<noteq> Polling \<longrightarrow> \<not> kn_conn K \<and> \<not> kn_lock K) \<and>
     (x = Returned None \<longrightarrow> set (TrackedTables S) \<subseteq> kn_tabs K \<and>
        (Config.CreateIndexes cfg \<longrightarrow> SentinelIndex S \<in> kn_idx K))"

section \<open>Every replica is in order\<close>

lemma safe_bind: "safe S (io_bind m f) Q K \<longleftrightarrow> safe S m (\<lambda>x. safe S (f x) Q) K"
  by (induction m arbitrary: K) auto

lemma safe_mono: "safe S m Q K \<Longrightarrow> (\<And>x K. Q x K \<Longrightarrow> Q' x K) \<Longrightarrow> safe S m Q' K"
  by (induction m arbitrary: K) auto

lemma learns_Exec_simps [simp]:
  "kn_conn (learns (Exec ddl) r K) = kn_conn K" "kn_lock (learns (Exec ddl) r K) = kn_lock K"
  by (auto simp: learns_def)

text \<open>How knowledge may have grown.\<close>

definition extends :: "know \<Rightarrow> know \<Rightarrow> bool" where
  "extends K K' \<longleftrightarrow> kn_conn K' = kn_conn K \<and> kn_lock K' = kn_lock K \<and> kn_tabs K \<subseteq> kn_tabs K' \<and> kn_idx K \<subseteq> kn_idx K'"

lemma extends_refl [simp]: "extends K K"
  by (simp add: extends_def)

lemma extends_trans: "extends K K' \<Longrightarrow> extends K' K'' \<Longrightarrow> extends K K''"
  by (auto simp: extends_def)

lemma extends_learns: "extends K (learns (Exec ddl) r K)" "extends K (learns CtxPoll r K)"
  "extends K (learns (QueryTables req) r K)" "extends K (learns (QueryIndex i) r K)"
  by (auto simp: extends_def learns_def)

lemma safe_create_tables:
  assumes "set ds \<subseteq> set (Tables S)" "\<forall>ddl \<in> set ds. \<not> is_index ddl" "kn_lock K"
  shows "safe S (exec_all ds) (\<lambda>err K'. extends K K' \<and> (err = None \<longrightarrow> ddl_name ` set ds \<subseteq> kn_tabs K')) K"
  using assms
proof (induction ds arbitrary: K)
  case (Cons ddl ds)
  have "safe S (exec_all ds) (\<lambda>err K'. extends K K' \<and> (err = None \<longrightarrow> ddl_name ` set (ddl # ds) \<subseteq> kn_tabs K'))
      (learns (Exec ddl) r K)" (is "safe S _ ?Q ?K") if "m_err r = None" for r
  proof -
    have "safe S (exec_all ds) (\<lambda>err K'. extends ?K K' \<and> (err = None \<longrightarrow> ddl_name ` set ds \<subseteq> kn_tabs K')) ?K"
      using Cons.prems by (intro Cons.IH) simp_all
    moreover have "ddl_name ddl \<in> kn_tabs ?K" using that Cons.prems by (simp add: learns_def)
    ultimately show ?thesis
      by (elim safe_mono) (use extends_learns(1) [of K ddl r] in \<open>auto simp: extends_def\<close>)
  qed
  then show ?case using Cons.prems extends_learns(1) by (auto simp: permits_def split: option.split)
qed simp

lemma safe_create_indexes:
  assumes "Indexes S = pre @ ds" "\<forall>ddl \<in> set ds. is_index ddl" "kn_lock K" "ddl_name ` set pre \<subseteq> kn_idx K"
  shows "safe S (exec_all ds) (\<lambda>err K'. extends K K' \<and> (err = None \<longrightarrow> ddl_name ` set (pre @ ds) \<subseteq> kn_idx K')) K"
  using assms
proof (induction ds arbitrary: K pre)
  case (Cons ddl ds)
  have "safe S (exec_all ds) (\<lambda>err K'. extends K K' \<and> (err = None \<longrightarrow> ddl_name ` set (pre @ ddl # ds) \<subseteq> kn_idx K'))
      (learns (Exec ddl) r K)" (is "safe S _ ?Q ?K") if "m_err r = None" for r
  proof -
    have "ddl_name ddl \<in> kn_idx ?K" using that Cons.prems by (simp add: learns_def)
    then have "ddl_name ` set (pre @ [ddl]) \<subseteq> kn_idx ?K"
      using Cons.prems(4) extends_learns(1) [of K ddl r] by (auto simp: extends_def)
    then have "safe S (exec_all ds)
        (\<lambda>err K'. extends ?K K' \<and> (err = None \<longrightarrow> ddl_name ` set ((pre @ [ddl]) @ ds) \<subseteq> kn_idx K')) ?K"
      using Cons.prems by (intro Cons.IH) simp_all
    then show ?thesis
      by (elim safe_mono) (use extends_learns(1) [of K ddl r] in \<open>auto simp: extends_def\<close>)
  qed
  then show ?case using Cons.prems extends_learns(1) by (auto simp: permits_def split: option.split)
qed simp

lemma missing_none:
  assumes "checkMissingTables req r = []"
  shows "set req \<subseteq> kn_tabs (learns (QueryTables req) r K)"
proof (cases "m_err r = None")
  case True
  have "Inr t \<in> set (m_rows r)" if "t \<in> set req" for t
    using assms(1) that True
    by (auto simp: checkMissingTables_def filter_empty_conv map_filter_def split: sum.splits)
  then show ?thesis using True by (auto simp: learns_def)
qed (use assms in \<open>simp add: checkMissingTables_def\<close>)

lemma safe_wait:
  assumes "SentinelIndex S \<noteq> []"
  shows "safe S (WaitForSchema n S b) (\<lambda>x K'. extends K K' \<and> (x = Returned None \<longrightarrow>
     set (TrackedTables S) \<subseteq> kn_tabs K' \<and> (b \<longrightarrow> SentinelIndex S \<in> kn_idx K'))) K"
  (is "safe S _ (?Q K) K")
proof (induction n arbitrary: K)
  case (Suc n)
  let ?req = "TrackedTables S"
  have again: "safe S (WaitForSchema n S b) (?Q K) K'" if "extends K K'" for K'
    by (rule safe_mono [OF Suc]) (use that extends_trans in blast)
  have q: "extends K (learns (QueryTables ?req) r' (learns CtxPoll r K))" for r r'
    using extends_trans [OF extends_learns(2) extends_learns(3)] .
  have i: "extends K (learns (QueryIndex i) r'' (learns (QueryTables ?req) r' (learns CtxPoll r K)))" for i r r' r''
    using extends_trans [OF q extends_learns(4)] .
  have sent: "SentinelIndex S \<in> kn_idx (learns (QueryIndex (SentinelIndex S)) r K')" if "indexExists r" for r K'
    using that by (simp add: indexExists_def learns_def)
  have tabs: "set ?req \<subseteq> kn_tabs (learns (QueryIndex j) r' (learns (QueryTables ?req) r K'))"
      "set ?req \<subseteq> kn_tabs (learns (QueryTables ?req) r K')"
    if "checkMissingTables ?req r = []" for r r' j K'
    using missing_none [OF that, of K'] by (auto simp: learns_def)
  show ?case
    using again q i sent tabs extends_learns(2) assms
    by (auto simp: permits_def split: option.split)
qed simp

lemma safe_lead:
  assumes "schema_ok S" "kn_lock K"
  shows "safe S (lead cfg S) (\<lambda>x K'. extends K K' \<and> (x = Returned None \<longrightarrow>
     set (TrackedTables S) \<subseteq> kn_tabs K' \<and> (Config.CreateIndexes cfg \<longrightarrow> SentinelIndex S \<in> kn_idx K')) \<and> x \<noteq> Polling) K"
  (is "safe S _ ?Q K")
proof -
  have ok: "set (TrackedTables S) \<subseteq> ddl_name ` set (Tables S)" "SentinelIndex S \<in> ddl_name ` set (Indexes S)"
    using assms(1) by (auto simp: schema_ok_def)
  have idx: "safe S (CreateIndexes S) (\<lambda>err. ?Q (Returned (wrap_err ''create indexes'' err))) K'"
    if K': "extends K K'" "ddl_name ` set (Tables S) \<subseteq> kn_tabs K'" for K'
  proof -
    have "safe S (exec_all (Indexes S)) (\<lambda>err K''. extends K' K'' \<and> (err = None \<longrightarrow> ddl_name ` set ([] @ Indexes S) \<subseteq> kn_idx K'')) K'"
      using assms K' by (intro safe_create_indexes) (auto simp: schema_ok_def extends_def)
    moreover have "set (TrackedTables S) \<subseteq> kn_tabs K'" using ok(1) K'(2) by (rule order_trans)
    ultimately show ?thesis
      unfolding CreateIndexes_def by (elim safe_mono) (use K'(1) ok(2) in \<open>auto simp: extends_def wrap_err_def\<close>)
  qed
  have "safe S (CreateTables S) (\<lambda>err K'. extends K K' \<and> (err = None \<longrightarrow> ddl_name ` set (Tables S) \<subseteq> kn_tabs K')) K"
    unfolding CreateTables_def using assms by (intro safe_create_tables) (auto simp: schema_ok_def)
  then show ?thesis
    unfolding lead_def safe_bind
    by (elim safe_mono) (use idx ok in \<open>auto simp: safe_bind wrap_err_def\<close>)
qed

lemma safe_follow:
  assumes "schema_ok S"
  shows "safe S (follow n cfg S) (\<lambda>x K'. extends K K' \<and> (x = Returned None \<longrightarrow>
     set (TrackedTables S) \<subseteq> kn_tabs K' \<and> (Config.CreateIndexes cfg \<longrightarrow> SentinelIndex S \<in> kn_idx K'))) K"
proof -
  have "SentinelIndex S \<noteq> []" using assms unfolding schema_ok_def by blast
  from safe_wait [OF this, of n "Config.CreateIndexes cfg" K] show ?thesis
    unfolding follow_def safe_bind
    by (elim safe_mono) (auto simp: wrap_outcome_def wrap_err_def split: outcome.splits)
qed

lemma safe_migrate:
  assumes "schema_ok S" "\<not> kn_conn K" "\<not> kn_lock K"
  shows "safe S (MigrateWithLock n cfg S) (migrated S cfg) K"
proof -
  let ?done = "\<lambda>x K'. x = Returned None \<longrightarrow>
     set (TrackedTables S) \<subseteq> kn_tabs K' \<and> (Config.CreateIndexes cfg \<longrightarrow> SentinelIndex S \<in> kn_idx K')"
  have rel: "safe S (case x of Polling \<Rightarrow> Ret Polling | Returned err \<Rightarrow> Call Release (\<lambda>r. Ret (Returned err))) (migrated S cfg) K'"
    if "kn_conn K'" "\<not> kn_lock K'" "?done x K'" for x K'
    using that by (auto simp: permits_def learns_def migrated_def split: outcome.split)
  have L: "safe S (deferred Release (deferred (Unlock i) (lead cfg S))) (migrated S cfg) K'"
    if "kn_conn K'" "kn_lock K'" for K' i
    unfolding deferred_def safe_bind
    by (rule safe_mono [OF safe_lead [OF assms(1) that(2)]])
       (use that in \<open>auto simp: permits_def learns_def migrated_def extends_def split: outcome.split\<close>)
  have F: "safe S (deferred Release (follow n cfg S)) (migrated S cfg) K'" if "kn_conn K'" "\<not> kn_lock K'" for K'
    unfolding deferred_def safe_bind
    by (rule safe_mono [OF safe_follow [OF assms(1), of n cfg K']]) (rule rel, use that in \<open>auto simp: extends_def\<close>)
  have "safe S (deferred Release (Call (TryLock i) (\<lambda>r. case m_err r of
           Some err \<Rightarrow> Ret (Returned (Some (Wrap msg err)))
         | None \<Rightarrow> if m_flag r then deferred (Unlock i) (lead cfg S) else follow n cfg S))) (migrated S cfg) K'"
    if "kn_conn K'" "\<not> kn_lock K'" for K' i msg
  proof -
    have "safe S (deferred Release (deferred (Unlock i) (lead cfg S))) (migrated S cfg) (learns (TryLock i) r K')"
      if "m_err r = None" "m_flag r" for r
      using that \<open>kn_conn K'\<close> by (intro L) (simp_all add: learns_def)
    moreover have "safe S (deferred Release (follow n cfg S)) (migrated S cfg) (learns (TryLock i) r K')"
      if "\<not> m_flag r" for r
      using that \<open>kn_conn K'\<close> \<open>\<not> kn_lock K'\<close> by (intro F) (simp_all add: learns_def)
    moreover have "safe S (Call Release (\<lambda>r. Ret (Returned (Some e)))) (migrated S cfg) (learns (TryLock i) r K')"
      if "m_err r \<noteq> None" for r e
      using that \<open>kn_conn K'\<close> \<open>\<not> kn_lock K'\<close> rel [of "learns (TryLock i) r K'" "Returned (Some e)"] by (simp add: learns_def)
    ultimately have "safe S (deferred Release (case m_err r of
           Some err \<Rightarrow> Ret (Returned (Some (Wrap msg err)))
         | None \<Rightarrow> if m_flag r then deferred (Unlock i) (lead cfg S) else follow n cfg S))
        (migrated S cfg) (learns (TryLock i) r K')" for r
      by (cases "m_err r"; cases "m_flag r") (simp_all add: deferred_def [where m = "Ret x" for x] del: safe.simps)
    then show ?thesis using that by (simp add: deferred_def permits_def)
  qed
  then show ?thesis
    using assms(2,3) unfolding MigrateWithLock_def
    by (auto simp: permits_def learns_def migrated_def split: option.split)
qed

section \<open>All replicas together\<close>

definition true_of :: "'s server \<Rightarrow> 's \<Rightarrow> nat \<Rightarrow> know \<Rightarrow> bool" where
  "true_of M s p K \<longleftrightarrow> (kn_lock K \<longrightarrow> p \<in> lost M s \<or> holder M s = Some p) \<and> kn_tabs K \<subseteq> pg_tables M s \<and> kn_idx K \<subseteq> pg_indexes M s"

lemma documented_call:
  assumes "pg_documented M" "answers M p c s r s'"
  shows "lock_rule p c r (holder M s) (holder M s')"
    "catalog_rule c r (pg_tables M s) (pg_tables M s') (pg_indexes M s) (pg_indexes M s')"
    "lost M s' = lost M s"
  using assms unfolding pg_documented_def by blast+

lemma true_learns:
  assumes "pg_documented M" "answers M p c s r s'" "true_of M s p K"
  shows "true_of M s' p (learns c r K)"
  using documented_call [OF assms(1,2)] assms(3)
  by (cases c) (auto simp: true_of_def lock_rule_def catalog_rule_def learns_def split: if_splits)

lemma true_other:
  assumes "pg_documented M" "answers M p c s r s'" "true_of M s q K" "q \<noteq> p"
  shows "true_of M s' q K"
proof -
  have "holder M s = Some q \<Longrightarrow> holder M s' = Some q"
    using documented_call(1) [OF assms(1,2)] assms(4) by (cases c) (auto simp: lock_rule_def split: if_splits)
  then show ?thesis
    using documented_call(2,3) [OF assms(1,2)] assms(3) by (auto simp: true_of_def catalog_rule_def)
qed

lemma true_lost:
  assumes "pg_documented M" "ends M p s s'" "true_of M s q K"
  shows "true_of M s' q K"
proof -
  have "holder M s' = (if holder M s = Some p then None else holder M s)" "lost M s' = insert p (lost M s)"
      "pg_tables M s' = pg_tables M s" "pg_indexes M s' = pg_indexes M s"
    using assms(1,2) unfolding pg_documented_def by blast+
  then show ?thesis using assms(3) by (auto simp: true_of_def)
qed

text \<open>The sentinel is the last index: once it shows, all do.\<close>

definition sentinel_last :: "Schema \<Rightarrow> string set \<Rightarrow> bool" where
  "sentinel_last S I \<longleftrightarrow> (SentinelIndex S \<in> I \<longrightarrow> ddl_name ` set (Indexes S) \<subseteq> I)"

lemma sentinel_Exec:
  assumes ok: "schema_ok S" and p: "permits S (Exec ddl) K" "kn_idx K \<subseteq> I" and I: "I \<subseteq> I'" "I' \<subseteq> I \<union> ddl_adds ddl"
    and c: "sentinel_last S I"
  shows "sentinel_last S I'"
proof (unfold sentinel_last_def, rule impI)
  assume sent: "SentinelIndex S \<in> I'"
  show "ddl_name ` set (Indexes S) \<subseteq> I'"
  proof (cases "SentinelIndex S \<in> I")
    case True
    then show ?thesis using c I(1) by (auto simp: sentinel_last_def)
  next
    case False
    then have new: "SentinelIndex S \<in> ddl_adds ddl" using sent I(2) by blast
    have "ddl \<notin> set (Tables S)" using ok new by (auto simp: schema_ok_def ddl_adds_def)
    then obtain pre post where pp: "Indexes S = pre @ ddl # post" "ddl_name ` set pre \<subseteq> kn_idx K"
      using p(1) by (auto simp: permits_def)
    then have "ddl_name ddl = ddl_name (last (ddl # post))" "distinct (map ddl_name (ddl # post))"
      using ok new by (auto simp: schema_ok_def ddl_adds_def split: if_splits)
    then have "post = []" by (cases post rule: rev_cases) auto
    then show ?thesis using pp p(2) I(1) sent ok by (auto simp: schema_ok_def)
  qed
qed

definition cluster_inv :: "'s server \<Rightarrow> Schema \<Rightarrow> (nat \<times> Config) list \<Rightarrow> string set \<Rightarrow> 's \<times> outcome io list \<Rightarrow> bool" where
  "cluster_inv M S reps I0 c \<longleftrightarrow>
     length (snd c) = length reps \<and> (sentinel_last S I0 \<longrightarrow> sentinel_last S (pg_indexes M (fst c))) \<and>
     (\<forall>p < length reps. \<exists>K. true_of M (fst c) p K \<and> safe S (snd c ! p) (migrated S (snd (reps ! p))) K)"

lemma cluster_inv_init:
  assumes "schema_ok S" "cluster_init M S reps I0 c"
  shows "cluster_inv M S reps I0 c"
proof -
  let ?K = "\<lparr>kn_conn = False, kn_lock = False, kn_tabs = {}, kn_idx = {}\<rparr>"
  have "true_of M (fst c) p ?K" for p by (simp add: true_of_def)
  moreover have "safe S (snd c ! p) (migrated S (snd (reps ! p))) ?K" if "p < length reps" for p
    using safe_migrate [OF assms(1), of ?K "fst (reps ! p)" "snd (reps ! p)"] assms(2) that
    by (simp add: cluster_init_def split_beta)
  ultimately show ?thesis
    using assms(2) unfolding cluster_inv_def cluster_init_def sentinel_last_def by auto
qed

lemma cluster_inv_step:
  assumes pg: "pg_documented M" and ok: "schema_ok S" and inv: "cluster_inv M S reps I0 c" and st: "cluster_step M c c'"
  shows "cluster_inv M S reps I0 c'"
  using st
proof (cases rule: cluster_step.cases)
  case (call p ps cl k s r s')
  then have p: "p < length reps" using inv by (simp add: cluster_inv_def)
  obtain K where K: "true_of M s p K" "permits S cl K" "safe S (k r) (migrated S (snd (reps ! p))) (learns cl r K)"
    using inv p call unfolding cluster_inv_def by fastforce
  have "sentinel_last S (pg_indexes M s')" if I0: "sentinel_last S I0"
  proof (cases "\<exists>ddl. cl = Exec ddl")
    case True
    then show ?thesis
      using sentinel_Exec [OF ok _ _ _ _, of _ K "pg_indexes M s" "pg_indexes M s'"] K(1,2) inv call(1) I0
        documented_call(2) [OF pg call(5)]
      by (auto simp: cluster_inv_def true_of_def catalog_rule_def)
  next
    case False
    then have "pg_indexes M s' = pg_indexes M s"
      using documented_call(2) [OF pg call(5)] by (auto simp: catalog_rule_def split: mcall.splits)
    then show ?thesis using inv call(1) I0 by (simp add: cluster_inv_def)
  qed
  moreover have "\<exists>K. true_of M s' q K \<and> safe S (ps[p := k r] ! q) (migrated S (snd (reps ! q))) K" if "q < length reps" for q
  proof (cases "q = p")
    case True
    then show ?thesis using true_learns [OF pg call(5) K(1)] K(3) call(3) by auto
  next
    case False
    have "\<exists>K'. true_of M s q K' \<and> safe S (ps ! q) (migrated S (snd (reps ! q))) K'"
      using inv that call(1) by (simp add: cluster_inv_def)
    then show ?thesis using true_other [OF pg call(5) _ False] False by auto
  qed
  ultimately show ?thesis using inv call(1,2) by (simp add: cluster_inv_def)
next
  case (background p ps ddl k s s')
  then have p: "p < length reps" using inv by (simp add: cluster_inv_def)
  obtain K where K: "true_of M s p K" "permits S (Exec ddl) K"
    using inv p background unfolding cluster_inv_def by fastforce
  have b: "holder M s' = holder M s" "pg_tables M s \<subseteq> pg_tables M s'" "pg_indexes M s \<subseteq> pg_indexes M s'"
      "pg_indexes M s' \<subseteq> pg_indexes M s \<union> ddl_adds ddl" "lost M s' = lost M s"
    using pg background(5) unfolding pg_documented_def by blast+
  have "sentinel_last S (pg_indexes M s')" if "sentinel_last S I0"
    using sentinel_Exec [OF ok K(2) _ b(3,4)] K(1) inv background(1) that by (auto simp: cluster_inv_def true_of_def)
  moreover have "true_of M s q K \<Longrightarrow> true_of M s' q K" for q K using b by (auto simp: true_of_def)
  ultimately show ?thesis using inv background(1,2) unfolding cluster_inv_def by fastforce
next
  case (session_end p ps s s')
  have "pg_indexes M s' = pg_indexes M s" using pg session_end(4) unfolding pg_documented_def by blast
  then show ?thesis
    using inv session_end(1,2) true_lost [OF pg session_end(4)] unfolding cluster_inv_def by fastforce
qed

interpretation cluster: inductive_invariant "cluster_init M S reps I0" "cluster_step M"
    "\<lambda>c. pg_documented M \<and> schema_ok S \<longrightarrow> cluster_inv M S reps I0 c" for M S reps I0
  by unfold_locales (auto intro: cluster_inv_init cluster_inv_step)

lemma oltpSchema_ok: "schema_ok oltpSchema"
  unfolding schema_ok_def by (intro conjI) (code_simp+)

lemma oltp_index_names: "ddl_name ` set (Indexes oltpSchema) =
    {''idx_sessions_user_id'', ''idx_sessions_status_created'', ''idx_events_session_id'', ''idx_events_occurred_at'',
     ''idx_events_severity_occurred'', ''idx_events_source_ip'', ''idx_audit_log_entity_id'', ''idx_audit_log_changed_at''}"
  by code_simp

section \<open>A single replica\<close>

lemma run_Call:
  "run_io (Call c k) env t = (fst (run_io (k (env t c)) env (Suc t)), c # snd (run_io (k (env t c)) env (Suc t)))"
  by (simp add: split_beta)

lemma run_io_bind:
  "run_io (io_bind m f) env t =
     (case run_io m env t of (x, cs) \<Rightarrow> (case run_io (f x) env (t + length cs) of (y, cs') \<Rightarrow> (y, cs @ cs')))"
  by (induction m arbitrary: t) (auto split: prod.splits)

lemma run_deferred:
  "run_io (deferred c m) env t = (case run_io m env t of (x, cs) \<Rightarrow> (x, cs @ (if x = Polling then [] else [c])))"
  by (simp add: deferred_def run_io_bind split: prod.splits outcome.split)

definition ddl_err :: "(nat \<Rightarrow> mcall \<Rightarrow> mreply) \<Rightarrow> nat \<Rightarrow> string list \<Rightarrow> nat \<Rightarrow> goerr option" where
  "ddl_err env t ds i = m_err (env (t + i) (Exec (ds ! i)))"

text \<open>The statements are executed in order up to the first that fails, which is the \<open>k\<close>-th.\<close>

definition ddl_prefix :: "(nat \<Rightarrow> mcall \<Rightarrow> mreply) \<Rightarrow> nat \<Rightarrow> string list \<Rightarrow> nat \<Rightarrow> goerr option \<Rightarrow> bool" where
  "ddl_prefix env t ds k err \<longleftrightarrow>
     (case err of
        None \<Rightarrow> k = length ds \<and> (\<forall>i < k. ddl_err env t ds i = None)
      | Some e \<Rightarrow> 0 < k \<and> k \<le> length ds \<and> (\<forall>i < k - 1. ddl_err env t ds i = None) \<and> ddl_err env t ds (k - 1) = Some e)"

lemma ddl_prefix_Cons:
  assumes "m_err (env t (Exec d)) = None" "ddl_prefix env (Suc t) ds k err"
  shows "ddl_prefix env t (d # ds) (Suc k) err"
proof -
  have "ddl_err env t (d # ds) i = (case i of 0 \<Rightarrow> None | Suc j \<Rightarrow> ddl_err env (Suc t) ds j)" for i
    using assms(1) by (cases i) (simp_all add: ddl_err_def)
  then show ?thesis
    using assms(2) by (auto simp: ddl_prefix_def less_Suc_eq_0_disj split: option.splits nat.splits)
qed

lemma ddl_prefix_append:
  assumes "ddl_prefix env t xs (length xs) None" "ddl_prefix env (t + length xs) ys k err"
  shows "ddl_prefix env t (xs @ ys) (length xs + k) err"
proof -
  have e: "ddl_err env t (xs @ ys) i = (if i < length xs then None else ddl_err env (t + length xs) ys (i - length xs))" for i
    using assms(1) by (simp add: ddl_prefix_def ddl_err_def nth_append)
  show ?thesis using assms(2) by (auto simp: ddl_prefix_def e split: option.splits)
qed

lemma run_exec_all:
  "\<exists>k err. run_io (exec_all ds) env t = (err, map Exec (take k ds)) \<and> ddl_prefix env t ds k err"
proof (induction ds arbitrary: t)
  case Nil
  then show ?case by (simp add: ddl_prefix_def)
next
  case (Cons d ds)
  show ?case
  proof (cases "m_err (env t (Exec d))")
    case None
    obtain k err where "run_io (exec_all ds) env (Suc t) = (err, map Exec (take k ds))" "ddl_prefix env (Suc t) ds k err"
      using Cons by blast
    then show ?thesis using ddl_prefix_Cons [of env t d ds k err, OF None] None by (intro exI [of _ "Suc k"] exI [of _ err]) simp
  next
    case (Some e)
    then show ?thesis
      by (intro exI [of _ 1] exI [of _ "Some e"]) (simp add: ddl_prefix_def ddl_err_def)
  qed
qed

lemma ddl_prefix_more: "ddl_prefix env t xs k (Some e) \<Longrightarrow> ddl_prefix env t (xs @ ys) k (Some e)"
  by (auto simp: ddl_prefix_def ddl_err_def nth_append)

definition ddls_of :: "Config \<Rightarrow> Schema \<Rightarrow> string list" where
  "ddls_of cfg S = Tables S @ (if Config.CreateIndexes cfg then Indexes S else [])"

lemma run_lead:
  "\<exists>k err msg. run_io (lead cfg S) env t = (Returned (wrap_err msg err), map Exec (take k (ddls_of cfg S))) \<and>
     ddl_prefix env t (ddls_of cfg S) k err"
proof -
  obtain k err where T: "run_io (exec_all (Tables S)) env t = (err, map Exec (take k (Tables S)))"
      "ddl_prefix env t (Tables S) k err"
    using run_exec_all by blast
  show ?thesis
  proof (cases err)
    case (Some e)
    have "k \<le> length (Tables S)" using T(2) Some by (simp add: ddl_prefix_def)
    then show ?thesis
      using T ddl_prefix_more [of env t "Tables S" k e] Some
      by (intro exI [of _ k] exI [of _ err] exI [of _ "''create tables''"])
         (simp add: lead_def CreateTables_def run_io_bind ddls_of_def)
  next
    case None
    then have k: "k = length (Tables S)" using T(2) by (simp add: ddl_prefix_def)
    obtain j err' where I: "run_io (exec_all (Indexes S)) env (t + length (Tables S)) = (err', map Exec (take j (Indexes S)))"
        "ddl_prefix env (t + length (Tables S)) (Indexes S) j err'"
      using run_exec_all by blast
    show ?thesis
    proof (cases "Config.CreateIndexes cfg")
      case True
      then show ?thesis
        using T I ddl_prefix_append [of env t "Tables S" "Indexes S" j err'] None k
        by (intro exI [of _ "k + j"] exI [of _ err'] exI [of _ "''create indexes''"])
           (simp add: lead_def CreateTables_def CreateIndexes_def run_io_bind ddls_of_def)
    next
      case False
      then show ?thesis
        using T None k
        by (intro exI [of _ k] exI [of _ err]) (simp add: lead_def CreateTables_def run_io_bind ddls_of_def wrap_err_def)
    qed
  qed
qed

lemma run_wait_calls:
  "set (snd (run_io (WaitForSchema n S b) env t)) \<subseteq> {CtxPoll, QueryTables (TrackedTables S), QueryIndex (SentinelIndex S)}"
proof (induction n arbitrary: t)
  case (Suc n)
  then show ?case
    using Suc [of "Suc (Suc t)"] Suc [of "Suc (Suc (Suc t))"]
    by (cases b; cases "SentinelIndex S = []") (simp_all add: run_Call del: run_io.simps(2) split: option.split)
qed simp

definition sees_schema :: "Schema \<Rightarrow> bool \<Rightarrow> (nat \<Rightarrow> mcall \<Rightarrow> mreply) \<Rightarrow> nat \<Rightarrow> bool" where
  "sees_schema S b env t \<longleftrightarrow>
     checkMissingTables (TrackedTables S) (env t (QueryTables (TrackedTables S))) = [] \<and>
     (b \<longrightarrow> indexExists (env t (QueryIndex (SentinelIndex S))))"

lemma run_wait_done:
  assumes "\<forall>t. m_err (env t CtxPoll) = None" "\<forall>t \<ge> T. sees_schema S b env t"
  shows "T < n + t \<Longrightarrow> fst (run_io (WaitForSchema n S b) env t) = Returned None \<or> n = 0"
proof (induction n arbitrary: t)
  case (Suc n)
  have later: "fst (run_io (WaitForSchema n S b) env (Suc (Suc t + j))) = Returned None"
    if "\<not> T \<le> Suc t + j" for j
    using Suc.IH [of "Suc (Suc t + j)"] Suc.prems that by (cases n) auto
  have now: "checkMissingTables (TrackedTables S) (env (Suc t) (QueryTables (TrackedTables S))) = []" if "T \<le> Suc t"
    using assms(2) that by (simp add: sees_schema_def)
  have now': "indexExists (env (Suc (Suc t)) (QueryIndex (SentinelIndex S)))" if "T \<le> Suc (Suc t)" b
    using assms(2) that by (simp add: sees_schema_def)
  show ?case
    using assms(1) later [of 0] later [of 1] now now'
    by (cases "T \<le> Suc t"; cases "T \<le> Suc (Suc t)") (auto split: prod.splits)
qed simp

section \<open>A concrete server\<close>

text \<open>A server on which every call succeeds, for the witnesses.\<close>

record demo_state =
  dh :: "nat option"
  dt :: "string list"
  di :: "string list"
  dl :: "nat set"

definition reply_ok :: "bool \<Rightarrow> string list \<Rightarrow> mreply" where
  "reply_ok b names = \<lparr>m_err = None, m_flag = b, m_rows = map Inr names\<rparr>"

fun demo_answer :: "nat \<Rightarrow> mcall \<Rightarrow> demo_state \<Rightarrow> mreply \<times> demo_state" where
  "demo_answer p (TryLock i) s = (if dh s = None then (reply_ok True [], s\<lparr>dh := Some p\<rparr>) else (reply_ok (dh s = Some p) [], s))"
| "demo_answer p (Unlock i) s = (reply_ok True [], if dh s = Some p then s\<lparr>dh := None\<rparr> else s)"
| "demo_answer p (Exec ddl) s = (reply_ok True [],
     if is_index ddl then s\<lparr>di := ddl_name ddl # di s\<rparr>
     else s\<lparr>dt := ddl_name ddl # dt s, di := (ddl_name ddl @ ''_pkey'') # di s\<rparr>)"
| "demo_answer p (QueryTables req) s = (reply_ok True (filter (\<lambda>t. t \<in> set req) (dt s)), s)"
| "demo_answer p (QueryIndex i) s = (reply_ok (i \<in> set (di s)) [], s)"
| "demo_answer p c s = (reply_ok True [], s)"

definition demo_server :: "demo_state server" where
  "demo_server = \<lparr>answers = (\<lambda>p c s r s'. demo_answer p c s = (r, s')),
     progresses = (\<lambda>ddl s s'. is_index ddl \<and> s' = s\<lparr>di := ddl_name ddl # di s\<rparr>),
     ends = (\<lambda>p s s'. s' = s\<lparr>dh := if dh s = Some p then None else dh s, dl := insert p (dl s)\<rparr>),
     holder = dh, lost = dl, pg_tables = (\<lambda>s. set (dt s)), pg_indexes = (\<lambda>s. set (di s))\<rparr>"

lemma demo_documented: "pg_documented demo_server"
proof -
  have "dl s' = dl s \<and> lock_rule p c r (dh s) (dh s') \<and> catalog_rule c r (set (dt s)) (set (dt s')) (set (di s)) (set (di s'))"
    if "demo_answer p c s = (r, s')" for p c s r s'
    using that by (cases c) (auto simp: lock_rule_def catalog_rule_def reply_ok_def ddl_adds_def split: if_splits)
  then show ?thesis by (auto simp: pg_documented_def demo_server_def ddl_adds_def)
qed

fun demo_sched :: "nat list \<Rightarrow> demo_state \<times> outcome io list \<Rightarrow> demo_state \<times> outcome io list" where
  "demo_sched [] c = c"
| "demo_sched (p # sched) (s, ps) =
     (if p < length ps then
        (case ps ! p of
           Ret x \<Rightarrow> demo_sched sched (s, ps)
         | Call c k \<Rightarrow> (case demo_answer p c s of (r, s') \<Rightarrow> demo_sched sched (s', ps[p := k r])))
      else demo_sched sched (s, ps))"

lemma demo_sched_reach:
  "reach I (cluster_step demo_server) c \<Longrightarrow> reach I (cluster_step demo_server) (demo_sched sched c)"
proof (induction sched c rule: demo_sched.induct)
  case (2 p sched s ps)
  show ?case
  proof (cases "p < length ps \<and> (\<exists>c k. ps ! p = Call c k)")
    case True
    then obtain c k where c: "p < length ps" "ps ! p = Call c k" by blast
    obtain r s' where r: "demo_answer p c s = (r, s')" by fastforce
    have "cluster_step demo_server (s, ps) (s', ps[p := k r])"
      using c r by (intro cluster_step.call) (simp_all add: demo_server_def)
    then have "reach I (cluster_step demo_server) (s', ps[p := k r])" using 2(4) by (rule reach.next_step [rotated])
    then show ?thesis using 2(2) [OF c r [symmetric]] c r by simp
  next
    case False
    then show ?thesis using 2(1,3,4) by (auto split: io.splits)
  qed
qed simp

definition running_ddl :: "'a io \<Rightarrow> bool" where
  "running_ddl m = (case m of Call (Exec ddl) k \<Rightarrow> True | _ \<Rightarrow> False)"

definition ready :: "outcome io \<Rightarrow> bool" where
  "ready m = (case m of Ret (Returned None) \<Rightarrow> True | _ \<Rightarrow> False)"

lemma running_ddl_iff: "running_ddl m \<longleftrightarrow> (\<exists>ddl k. m = Call (Exec ddl) k)"
  by (auto simp: running_ddl_def split: io.splits mcall.splits)

lemma ready_iff: "ready m \<longleftrightarrow> m = Ret (Returned None)"
  by (auto simp: ready_def split: io.splits outcome.splits option.splits)

definition demo_cfg :: Config where
  "demo_cfg = (read_config Map.empty)\<lparr>Config.CreateIndexes := True\<rparr>"

definition demo_start :: "demo_state \<times> outcome io list" where
  "demo_start = (\<lparr>dh = None, dt = [], di = [], dl = {}\<rparr>, [MigrateWithLock 3 demo_cfg oltpSchema, MigrateWithLock 3 demo_cfg oltpSchema])"

lemma demo_start_init: "reach (cluster_init demo_server oltpSchema [(3, demo_cfg), (3, demo_cfg)] {}) (cluster_step demo_server)
    (demo_sched sched demo_start)"
  by (intro demo_sched_reach reach.start)
     (simp add: cluster_init_def demo_start_def demo_server_def)

section \<open>Properties\<close>

text \<open>
  C12: Replicas migrate safely together as long as their sessions live. In every interleaving of
  any number of replicas, each with its own configuration, whatever calls fail and whichever
  sessions end: a replica executes DDL only while it holds the advisory lock, unless the session
  in which it took the lock has ended since; so at any time at most one of the replicas whose
  session has not ended executes DDL. When a replica's \<open>MigrateWithLock\<close> has returned nil, whether it migrated itself or
  waited, the three tables of the profile exist, lost sessions or not; and if it was configured
  with indexes, so do all eight indexes, although a waiting replica only asks for the last one,
  provided that the database did not start out with that last index but without another one of
  them.
\<close>

theorem migration_safe:
  assumes "pg_documented M" and "reach (cluster_init M oltpSchema reps I0) (cluster_step M) (s, ps)" and "p < length reps"
  shows "length ps = length reps \<and> (running_ddl (ps ! p) \<and> p \<notin> lost M s \<longrightarrow> holder M s = Some p) \<and>
    (\<forall>q < length reps. running_ddl (ps ! p) \<and> running_ddl (ps ! q) \<and> p \<notin> lost M s \<and> q \<notin> lost M s \<longrightarrow> q = p) \<and>
    (ready (ps ! p) \<longrightarrow> {''sessions'', ''events'', ''audit_log''} \<subseteq> pg_tables M s \<and>
       (Config.CreateIndexes (snd (reps ! p)) \<and>
        (''idx_audit_log_changed_at'' \<in> I0 \<longrightarrow> ddl_name ` set (Indexes oltpSchema) \<subseteq> I0) \<longrightarrow>
        ddl_name ` set (Indexes oltpSchema) \<subseteq> pg_indexes M s))"
proof -
  have inv: "cluster_inv M oltpSchema reps I0 (s, ps)"
    using cluster.always_good [OF assms(2)] assms(1) oltpSchema_ok by blast
  have lock: "holder M s = Some q" if "q < length reps" "running_ddl (ps ! q)" "q \<notin> lost M s" for q
    using inv that by (fastforce simp: cluster_inv_def running_ddl_iff true_of_def permits_def)
  have sent: "SentinelIndex oltpSchema = ''idx_audit_log_changed_at''" by (simp add: oltpSchema_def)
  have "{''sessions'', ''events'', ''audit_log''} \<subseteq> pg_tables M s \<and>
       (Config.CreateIndexes (snd (reps ! p)) \<and>
        (''idx_audit_log_changed_at'' \<in> I0 \<longrightarrow> ddl_name ` set (Indexes oltpSchema) \<subseteq> I0) \<longrightarrow>
        ddl_name ` set (Indexes oltpSchema) \<subseteq> pg_indexes M s)"
    if r: "ready (ps ! p)"
  proof -
    obtain K where K: "true_of M s p K" "migrated oltpSchema (snd (reps ! p)) (Returned None) K"
      using inv assms(3) r unfolding cluster_inv_def ready_iff by fastforce
    have tt: "set (TrackedTables oltpSchema) = {''sessions'', ''events'', ''audit_log''}" by (simp add: oltpSchema_def)
    have "set (TrackedTables oltpSchema) \<subseteq> pg_tables M s"
        "Config.CreateIndexes (snd (reps ! p)) \<longrightarrow> SentinelIndex oltpSchema \<in> pg_indexes M s"
      using K by (auto simp: true_of_def migrated_def)
    moreover have "sentinel_last oltpSchema I0 \<longrightarrow> sentinel_last oltpSchema (pg_indexes M s)"
      using inv by (simp add: cluster_inv_def)
    ultimately show ?thesis unfolding sentinel_last_def sent tt by blast
  qed
  moreover have "q = p" if "q < length reps" "running_ddl (ps ! p)" "running_ddl (ps ! q)" "p \<notin> lost M s" "q \<notin> lost M s" for q
    using lock [OF that(1,3,5)] lock [OF assms(3) that(2,4)] by simp
  moreover have "length ps = length reps" using inv by (simp add: cluster_inv_def)
  ultimately show ?thesis using lock [OF assms(3)] by blast
qed

theorem migration_safe_witness:
  "\<exists>s ps. demo_sched (replicate 4 0 @ [1, 1, 1, 1] @ replicate 11 0 @ [1, 1, 1, 1]) demo_start = (s, ps) \<and>
     ready (ps ! 1) \<and> ''idx_events_source_ip'' \<in> set (di s) \<and> ''audit_log'' \<in> set (dt s)"
proof -
  let ?c = "demo_sched (replicate 4 0 @ [1, 1, 1, 1] @ replicate 11 0 @ [1, 1, 1, 1]) demo_start"
  obtain s ps where c: "?c = (s, ps)" by fastforce
  have "ready (snd ?c ! 1)" by code_simp
  then have r: "ready (ps ! 1)" unfolding c by simp
  have "reach (cluster_init demo_server oltpSchema [(3, demo_cfg), (3, demo_cfg)] {}) (cluster_step demo_server) (s, ps)"
    using demo_start_init [of "replicate 4 0 @ [1, 1, 1, 1] @ replicate 11 0 @ [1, 1, 1, 1]"] unfolding c .
  from migration_safe [OF demo_documented this, of 1] r show ?thesis
    using c by (simp add: oltp_index_names demo_cfg_def demo_server_def)
qed

text \<open>
  The lock does not follow the DDL. On any server, if the session of a replica that is executing DDL
  ends, and the server then grants the lock to a second replica, which has its connection and is about to ask for
  it, the two execute DDL at the same time: nothing stops the first.
\<close>

theorem two_migrators:
  assumes "p < length ps" and "q < length ps" and "p \<noteq> q" and "ps ! p = Call (Exec ddl) k"
    and "MigrateWithLock n cfg oltpSchema = Call PoolAcquire k0" and "m_err r0 = None" and "ps ! q = k0 r0"
    and "ends M p s s1" and "answers M q (TryLock advisoryLockID) s1 r s2" and "m_err r = None" and "m_flag r"
  shows "\<exists>ps'. (cluster_step M)\<^sup>*\<^sup>* (s, ps) (s2, ps') \<and> running_ddl (ps' ! p) \<and> running_ddl (ps' ! q)"
proof -
  obtain d ds where T: "Tables oltpSchema = d # ds" by (simp add: oltpSchema_def)
  obtain k1 where k1: "ps ! q = Call (TryLock advisoryLockID) k1" "running_ddl (k1 r)"
    using assms(5-7,10,11) T
    by (auto simp: MigrateWithLock_def deferred_def lead_def CreateTables_def running_ddl_def)
  have "cluster_step M (s, ps) (s1, ps)" using assms(1,8) by (rule cluster_step.session_end)
  moreover have "cluster_step M (s1, ps) (s2, ps[q := k1 r])" using assms(2) k1(1) assms(9) by (rule cluster_step.call)
  ultimately have "(cluster_step M)\<^sup>*\<^sup>* (s, ps) (s2, ps[q := k1 r])" by (meson converse_rtranclp_into_rtranclp rtranclp.rtrancl_refl)
  then show ?thesis
    using assms(1-4) k1(2) by (intro exI [of _ "ps[q := k1 r]"]) (simp add: running_ddl_def)
qed

text \<open>
  What a waiting replica waits for is less than the comment in \<open>WaitForSchema\<close> says. The
  catalog lists an index from the moment \<open>CREATE INDEX CONCURRENTLY\<close> begins to build it, so
  there is a run in which a waiting replica is ready while the migrating one is still
  executing the statement that creates the sentinel index.
\<close>

theorem follower_starts_early:
  "\<exists>s ps k. reach (cluster_init demo_server oltpSchema [(3, demo_cfg), (3, demo_cfg)] {}) (cluster_step demo_server) (s, ps) \<and>
     pg_documented demo_server \<and> ps ! 0 = Call (Exec (last (Indexes oltpSchema))) k \<and> ready (ps ! 1)"
proof -
  let ?ddl = "last (Indexes oltpSchema)"
  obtain s ps where c: "demo_sched (replicate 12 0) demo_start = (s, ps)" by fastforce
  have "case snd (demo_sched (replicate 12 0) demo_start) of m # _ \<Rightarrow>
      (case m of Call c k \<Rightarrow> c = Exec ?ddl | Ret x \<Rightarrow> False) | [] \<Rightarrow> False" by code_simp
  then obtain k where k: "0 < length ps" "ps ! 0 = Call (Exec ?ddl) k"
    unfolding c by (auto split: list.splits io.splits)
  let ?s = "s\<lparr>di := ddl_name ?ddl # di s\<rparr>"
  have "is_index ?ddl" by code_simp
  then have "cluster_step demo_server (s, ps) (?s, ps)"
    using k by (intro cluster_step.background) (auto simp: demo_server_def)
  then have "reach (cluster_init demo_server oltpSchema [(3, demo_cfg), (3, demo_cfg)] {}) (cluster_step demo_server) (?s, ps)"
    using demo_start_init [of "replicate 12 0"] unfolding c by (rule reach.next_step [rotated])
  then have R: "reach (cluster_init demo_server oltpSchema [(3, demo_cfg), (3, demo_cfg)] {}) (cluster_step demo_server)
      (demo_sched (replicate 6 1) (?s, ps))" by (rule demo_sched_reach)
  obtain s' qs where q: "demo_sched (replicate 6 1) (?s, ps) = (s', qs)" by fastforce
  have "case demo_sched (replicate 12 0) demo_start of (s, ps) \<Rightarrow>
      case demo_sched (replicate 6 1) (s\<lparr>di := ddl_name ?ddl # di s\<rparr>, ps) of (s', qs) \<Rightarrow>
        (case qs ! 0 of Call c k \<Rightarrow> c = Exec ?ddl | Ret x \<Rightarrow> False) \<and> ready (qs ! 1)" by code_simp
  then have "(case qs ! 0 of Call c k \<Rightarrow> c = Exec ?ddl | Ret x \<Rightarrow> False) \<and> ready (qs ! 1)" unfolding c prod.case q .
  then have "\<exists>k. qs ! 0 = Call (Exec ?ddl) k" "ready (qs ! 1)" by (auto split: io.splits)
  then show ?thesis using R demo_documented unfolding q by blast
qed

text \<open>
  C31: The calls of one replica, on every path. Without a connection it does nothing more; if
  the lock cannot be asked for, the connection is released. The replica that gets the lock
  executes the statements of the schema in order, tables before indexes and indexes only if
  configured, up to the first that fails; it then gives up the lock and, after it, the
  connection, and returns nil exactly if every statement succeeded, and otherwise the error
  of the statement that failed. A replica that does not get the lock executes no DDL, and keeps its
  connection until it has stopped polling.
\<close>

theorem MigrateWithLock_calls:
  "case run_io (MigrateWithLock n cfg S) env 0 of (x, calls) \<Rightarrow>
     let acquire = env 0 PoolAcquire; lock = env 1 (TryLock advisoryLockID) in
     (case m_err acquire of
        Some e \<Rightarrow> calls = [PoolAcquire] \<and> x = Returned (Some (Wrap ''acquire connection for migration'' e))
      | None \<Rightarrow>
          (case m_err lock of
             Some e \<Rightarrow> calls = [PoolAcquire, TryLock advisoryLockID, Release] \<and>
               x = Returned (Some (Wrap ''try advisory lock'' e))
           | None \<Rightarrow>
               if m_flag lock then
                 \<exists>k err msg. ddl_prefix env 2 (ddls_of cfg S) k err \<and> x = Returned (wrap_err msg err) \<and>
                   calls = [PoolAcquire, TryLock advisoryLockID] @ map Exec (take k (ddls_of cfg S)) @
                     [Unlock advisoryLockID, Release]
               else \<exists>polls. calls = [PoolAcquire, TryLock advisoryLockID] @ polls @ (if x = Polling then [] else [Release]) \<and>
                   set polls \<subseteq> {CtxPoll, QueryTables (TrackedTables S), QueryIndex (SentinelIndex S)}))"
proof -
  have foll: "set (snd (run_io (follow n cfg S) env t)) \<subseteq>
      {CtxPoll, QueryTables (TrackedTables S), QueryIndex (SentinelIndex S)}" for t
    using run_wait_calls [of n S "Config.CreateIndexes cfg" env t] by (simp add: follow_def run_io_bind split_beta)
  obtain k err msg where l: "run_io (lead cfg S) env 2 = (Returned (wrap_err msg err), map Exec (take k (ddls_of cfg S)))"
      "ddl_prefix env 2 (ddls_of cfg S) k err"
    using run_lead by blast
  show ?thesis
    using l foll [of 2]
    by (auto simp: MigrateWithLock_def run_deferred numeral_2_eq_2 Let_def split: option.splits prod.splits)
qed



end
