(* ===== verification/Result.thy ===== *)
theory Result
  imports Conservation Trackers Weights Payload
begin

text \<open>
  The result of a run: \<open>workload/result.go\<close>.

  The measurements of the server are functions of the query results (\<open>Trackers\<close>);
  \<open>BuildRunResult\<close> assembles the record; \<open>result_doc\<close> is its JSON document, with the order of
  the struct fields, the omitted empty fields and the sorted keys of the maps, printed by
  \<open>MarshalIndent\<close>. \<open>WriteRunResult\<close> works on a file system that maps paths to contents, with
  the outcome of every system call given by the environment; it yields the states the file
  system goes through, so that a crash between two calls is one of them.
\<close>

section \<open>Definitions\<close>

subsection \<open>The record\<close>

record OpResult =
  rOp :: string
  rCount :: int
  rErrors :: int
  rOpsPerSec :: float64
  rLatency :: "LatencyStats option"

record RunTotals =
  tOps :: int
  tErrors :: int
  tOpsPerSec :: float64

record RunConfig =
  cProfile :: string
  cWorkers :: int
  cMinPayloadKB :: int
  cMaxPayloadKB :: int
  cToastPct :: int
  cReadPayload :: bool
  cCreateIndexes :: bool
  cRingSize :: int
  cDeleteBatchSize :: int
  cUserPoolSize :: int
  cActorPoolSize :: int
  cThinkTimeMs :: int
  cRunDurationSecs :: int
  cOpWeights :: "(string, int) gomap"

record DatasetSize =
  TotalBytes :: int
  LiveTuples :: int
  TableBytes :: "(string, int) gomap"

record DatasetSnapshot =
  dStart :: DatasetSize
  dEnd :: DatasetSize
  GrowthBytes :: int

record ServerInfo =
  Version :: string
  Settings :: "(string, string) gomap"

record RunMeta =
  mDataset :: "DatasetSnapshot option"
  mServer :: "ServerInfo option"
  mStoppedBy :: string
  mTimeseries :: "IntervalStats list"

record RunResult =
  resProfile :: string
  StartedAt :: int
  EndedAt :: int
  DurationSeconds :: float64
  StoppedBy :: string
  ResConfig :: RunConfig
  Totals :: RunTotals
  ResOperations :: "OpResult list"
  Timeseries :: "IntervalStats list"
  Dataset :: "DatasetSnapshot option"
  Server :: "ServerInfo option"

definition StoppedByDuration :: string where "StoppedByDuration = ''duration''"
definition StoppedBySignal :: string where "StoppedBySignal = ''signal''"

subsection \<open>Measuring the server\<close>

definition capturedSettings :: "string list" where
  "capturedSettings = [''server_version'',
     ''shared_buffers'', ''effective_cache_size'', ''work_mem'', ''max_connections'',
     ''max_wal_size'', ''min_wal_size'', ''wal_compression'', ''full_page_writes'',
     ''checkpoint_timeout'', ''checkpoint_completion_target'',
     ''synchronous_commit'',
     ''autovacuum'', ''autovacuum_naptime'', ''autovacuum_vacuum_scale_factor'',
     ''default_toast_compression'']"

definition setting_row :: "string \<times> string \<times> string \<Rightarrow> ServerInfo \<Rightarrow> ServerInfo option" where
  "setting_row r out = (case r of (name, setting, unit_) \<Rightarrow>
     if name = ''server_version'' then Some (out\<lparr>Version := setting\<rparr>)
     else let setting = (if unit_ \<noteq> [] then setting @ '' '' @ unit_ else setting)
          in Some (out\<lparr>Settings := AList.update name setting (Settings out)\<rparr>))"

definition empty_server :: ServerInfo where
  "empty_server = \<lparr>Version = [], Settings = []\<rparr>"

text \<open>The error of a scan and the error that ends the iteration are wrapped differently.\<close>

definition snapshot_rows ::
  "string \<Rightarrow> string \<Rightarrow> string \<Rightarrow> ('r \<Rightarrow> 's \<Rightarrow> 's option) \<Rightarrow> 's \<Rightarrow> 'r rows \<Rightarrow> (goerr + 's) option" where
  "snapshot_rows qmsg smsg rmsg f out q = (case q of
     Inl err \<Rightarrow> Some (Inl (Wrap qmsg err))
   | Inr (rs, fin) \<Rightarrow> do {
       (scanErr, s) \<leftarrow> scan_rows f rs None out;
       (case scanErr of
          Some err \<Rightarrow> Some (Inl (Wrap smsg err))
        | None \<Rightarrow> (case fin of Some err \<Rightarrow> Some (Inl (Wrap rmsg err)) | None \<Rightarrow> Some (Inr s)))
     })"

definition SnapshotServerInfo :: "(string \<times> string \<times> string) rows \<Rightarrow> (goerr + ServerInfo) option" where
  "SnapshotServerInfo q =
     snapshot_rows ''query server settings'' ''scan server settings'' ''read server settings'' setting_row empty_server q"

definition empty_dataset :: DatasetSize where
  "empty_dataset = \<lparr>TotalBytes = 0, LiveTuples = 0, TableBytes = []\<rparr>"

definition dataset_row :: "string \<times> int \<times> int \<Rightarrow> DatasetSize \<Rightarrow> DatasetSize option" where
  "dataset_row r out = (case r of (name, bytes, live) \<Rightarrow>
     Some (out\<lparr>TableBytes := AList.update name bytes (TableBytes out),
               TotalBytes := i64 (TotalBytes out + bytes), LiveTuples := i64 (LiveTuples out + live)\<rparr>))"

definition SnapshotDataset :: "(string \<times> int \<times> int) rows \<Rightarrow> (goerr + DatasetSize) option" where
  "SnapshotDataset q =
     snapshot_rows ''query dataset size'' ''scan dataset size'' ''read dataset size'' dataset_row empty_dataset q"

subsection \<open>Assembling the result\<close>

definition run_rate :: "float64 \<Rightarrow> int \<Rightarrow> float64" where
  "run_rate durationSec n = (if durationSec \<le> 0 then 0 else fdiv (f64_of_int n) durationSec)"

text \<open>The loop over the sorted operation names.\<close>

fun build_ops ::
  "(string, opStats) gomap \<Rightarrow> float64 \<Rightarrow> string list \<Rightarrow> RunTotals \<times> OpResult list \<Rightarrow> (RunTotals \<times> OpResult list) option" where
  "build_ops tot durationSec [] acc = Some acc"
| "build_ops tot durationSec (op # names) (t, operations) = do {
     s \<leftarrow> map_of tot op;
     let t = t\<lparr>tOps := tOps t + count s, tErrors := tErrors t + errors s\<rparr>;
     latency \<leftarrow> (if samples s > 0 then map_option Some (latencyStats s) else Some None);
     build_ops tot durationSec names
       (t, operations @ [\<lparr>rOp = op, rCount = count s, rErrors = errors s,
                          rOpsPerSec = run_rate durationSec (count s), rLatency = latency\<rparr>])
   }"

definition run_config :: "Config \<Rightarrow> WeightedOp list \<Rightarrow> RunConfig" where
  "run_config cfg wops = \<lparr>
     cProfile = Profile cfg, cWorkers = Workers cfg, cMinPayloadKB = MinPayloadKB cfg,
     cMaxPayloadKB = MaxPayloadKB cfg, cToastPct = ToastPct cfg, cReadPayload = ReadPayload cfg,
     cCreateIndexes = CreateIndexes cfg, cRingSize = RingSize cfg, cDeleteBatchSize = DeleteBatchSize cfg,
     cUserPoolSize = UserPoolSize cfg, cActorPoolSize = ActorPoolSize cfg, cThinkTimeMs = ThinkTimeMs cfg,
     cRunDurationSecs = RunDurationSecs cfg,
     cOpWeights = foldl (\<lambda>m w. AList.update (Name w) (Weight w) m) [] wops\<rparr>"

definition BuildRunResult ::
  "(string, opStats) gomap \<Rightarrow> int \<Rightarrow> int \<Rightarrow> Config \<Rightarrow> WeightedOp list \<Rightarrow> RunMeta \<Rightarrow> RunResult option" where
  "BuildRunResult tot started ended cfg wops meta = do {
     let durationSec = seconds (time_Sub ended started);
     let names = sort (map fst tot);
     (t, operations) \<leftarrow> build_ops tot durationSec names (\<lparr>tOps = 0, tErrors = 0, tOpsPerSec = 0\<rparr>, []);
     let t = t\<lparr>tOpsPerSec := run_rate durationSec (tOps t)\<rparr>;
     Some \<lparr>resProfile = Profile cfg, StartedAt = started, EndedAt = ended, DurationSeconds = durationSec,
           StoppedBy = mStoppedBy meta, ResConfig = run_config cfg wops, Totals = t,
           ResOperations = operations, Timeseries = mTimeseries meta, Dataset = mDataset meta,
           Server = mServer meta\<rparr>
   }"

subsection \<open>The document\<close>

datatype doc =
    DStr string
  | DInt int
  | DNum float64
  | DBool bool
  | DArr "doc list"
  | DObj "(string \<times> doc) list"

text \<open>A field with \<open>omitempty\<close>; a map, whose keys are printed in increasing order.\<close>

definition omit :: "bool \<Rightarrow> string \<Rightarrow> doc \<Rightarrow> (string \<times> doc) list" where
  "omit isEmpty k d = (if isEmpty then [] else [(k, d)])"

definition map_doc :: "('v \<Rightarrow> doc) \<Rightarrow> (string, 'v) gomap \<Rightarrow> doc" where
  "map_doc f m = DObj (map (\<lambda>(k, v). (k, f v)) (sort_key fst m))"

definition latency_doc :: "LatencyStats \<Rightarrow> doc" where
  "latency_doc l = DObj [(''min_ms'', DNum (MinMS l)), (''mean_ms'', DNum (MeanMS l)), (''p50_ms'', DNum (P50MS l)),
     (''p95_ms'', DNum (P95MS l)), (''p99_ms'', DNum (P99MS l)), (''p999_ms'', DNum (P999MS l)), (''max_ms'', DNum (MaxMS l))]"

definition op_doc :: "OpResult \<Rightarrow> doc" where
  "op_doc r = DObj ([(''op'', DStr (rOp r)), (''count'', DInt (rCount r)), (''errors'', DInt (rErrors r)),
     (''ops_per_sec'', DNum (rOpsPerSec r))] @
     (case rLatency r of None \<Rightarrow> [] | Some l \<Rightarrow> [(''latency'', latency_doc l)]))"

definition interval_op_doc :: "IntervalOp \<Rightarrow> doc" where
  "interval_op_doc r = DObj ([(''op'', DStr (iOp r)), (''count'', DInt (iCount r))] @
     omit (iErrors r = 0) ''errors'' (DInt (iErrors r)) @
     [(''ops_per_sec'', DNum (iOpsPerSec r)), (''p50_ms'', DNum (iP50MS r)), (''p95_ms'', DNum (iP95MS r)),
      (''p99_ms'', DNum (iP99MS r))])"

definition interval_doc :: "IntervalStats \<Rightarrow> doc" where
  "interval_doc i = DObj [(''start_seconds'', DNum (StartSeconds i)), (''end_seconds'', DNum (EndSeconds i)),
     (''ops'', DInt (Ops i)), (''errors'', DInt (Errors i)), (''ops_per_sec'', DNum (OpsPerSec i)),
     (''operations'', DArr (map interval_op_doc (Operations i)))]"

definition totals_doc :: "RunTotals \<Rightarrow> doc" where
  "totals_doc t = DObj [(''ops'', DInt (tOps t)), (''errors'', DInt (tErrors t)), (''ops_per_sec'', DNum (tOpsPerSec t))]"

definition config_doc :: "RunConfig \<Rightarrow> doc" where
  "config_doc c = DObj [(''profile'', DStr (cProfile c)), (''workers'', DInt (cWorkers c)),
     (''min_payload_kb'', DInt (cMinPayloadKB c)), (''max_payload_kb'', DInt (cMaxPayloadKB c)),
     (''toast_pct'', DInt (cToastPct c)), (''read_payload'', DBool (cReadPayload c)),
     (''create_indexes'', DBool (cCreateIndexes c)), (''ring_size'', DInt (cRingSize c)),
     (''delete_batch_size'', DInt (cDeleteBatchSize c)), (''user_pool_size'', DInt (cUserPoolSize c)),
     (''actor_pool_size'', DInt (cActorPoolSize c)), (''think_time_ms'', DInt (cThinkTimeMs c)),
     (''run_duration_secs'', DInt (cRunDurationSecs c)), (''op_weights'', map_doc DInt (cOpWeights c))]"

definition size_doc :: "DatasetSize \<Rightarrow> doc" where
  "size_doc d = DObj [(''total_bytes'', DInt (TotalBytes d)), (''live_tuples'', DInt (LiveTuples d)),
     (''table_bytes'', map_doc DInt (TableBytes d))]"

definition dataset_doc :: "DatasetSnapshot \<Rightarrow> doc" where
  "dataset_doc d = DObj [(''start'', size_doc (dStart d)), (''end'', size_doc (dEnd d)), (''growth_bytes'', DInt (GrowthBytes d))]"

definition server_doc :: "ServerInfo \<Rightarrow> doc" where
  "server_doc s = DObj [(''version'', DStr (Version s)), (''settings'', map_doc DStr (Settings s))]"

text \<open>The two instants are given in their RFC 3339 form.\<close>

definition result_doc :: "string \<Rightarrow> string \<Rightarrow> RunResult \<Rightarrow> doc" where
  "result_doc started_at ended_at r = DObj (
     [(''profile'', DStr (resProfile r)), (''started_at'', DStr started_at),
      (''ended_at'', DStr ended_at), (''duration_seconds'', DNum (DurationSeconds r))] @
     omit (StoppedBy r = []) ''stopped_by'' (DStr (StoppedBy r)) @
     [(''config'', config_doc (ResConfig r)), (''totals'', totals_doc (Totals r)),
      (''operations'', DArr (map op_doc (ResOperations r)))] @
     omit (Timeseries r = []) ''timeseries'' (DArr (map interval_doc (Timeseries r))) @
     (case Dataset r of None \<Rightarrow> [] | Some d \<Rightarrow> [(''dataset'', dataset_doc d)]) @
     (case Server r of None \<Rightarrow> [] | Some s \<Rightarrow> [(''server'', server_doc s)]))"

definition newline :: "nat \<Rightarrow> string" where
  "newline depth = CHR 0x0A # replicate (2 * depth) (CHR '' '')"

definition brackets :: "nat \<Rightarrow> string \<Rightarrow> string \<Rightarrow> string list \<Rightarrow> string" where
  "brackets depth opn cls items =
     (if items = [] then opn @ cls
      else opn @ newline (Suc depth) @ foldl (\<lambda>acc s. acc @ '','' @ newline (Suc depth) @ s) (hd items) (tl items) @
           newline depth @ cls)"

fun MarshalIndent :: "nat \<Rightarrow> doc \<Rightarrow> string" where
  "MarshalIndent depth (DStr s) = quote s"
| "MarshalIndent depth (DInt n) = itoa n"
| "MarshalIndent depth (DNum x) = fmt_float x"
| "MarshalIndent depth (DBool b) = (if b then ''true'' else ''false'')"
| "MarshalIndent depth (DArr xs) = brackets depth ''['' '']'' (map (MarshalIndent (Suc depth)) xs)"
| "MarshalIndent depth (DObj kvs) =
     brackets depth ''{'' ''}'' (map (\<lambda>(k, v). quote k @ '': '' @ MarshalIndent (Suc depth) v) kvs)"

text \<open>
  \<open>json.MarshalIndent(r, "", "  ")\<close>: the only values of a result that can fail to encode are its
  instants (a year of five digits); doubles are finite. \<open>marshal_time\<close> is \<open>time.Time.MarshalJSON\<close>
  of the instant in UTC, without the quotes.
\<close>

definition marshal_result :: "(int \<Rightarrow> goerr + string) \<Rightarrow> RunResult \<Rightarrow> goerr + string" where
  "marshal_result marshal_time r = (case marshal_time (StartedAt r) of
     Inl err \<Rightarrow> Inl err
   | Inr a \<Rightarrow> (case marshal_time (EndedAt r) of
       Inl err \<Rightarrow> Inl err
     | Inr b \<Rightarrow> Inr (MarshalIndent 0 (result_doc a b r))))"

subsection \<open>Writing the result\<close>

type_synonym fs = "string \<rightharpoonup> string"

text \<open>The outcome of each system call; a failing write may have written a part.\<close>

record fs_env =
  mkdir_all :: "string \<Rightarrow> goerr option"
  create_temp :: "string \<Rightarrow> goerr + string"
  write_file :: "nat \<times> goerr option"
  close_file :: "goerr option"
  rename_file :: "goerr option"
  remove_file :: "goerr option"

definition os_Remove :: "fs_env \<Rightarrow> string \<Rightarrow> fs \<Rightarrow> fs" where
  "os_Remove e name f = (if remove_file e = None then f(name := None) else f)"

definition os_Rename :: "fs_env \<Rightarrow> string \<Rightarrow> string \<Rightarrow> fs \<Rightarrow> fs" where
  "os_Rename e old new f = (if rename_file e = None then f(new := f old, old := None) else f)"

text \<open>The states while the first \<open>n\<close> bytes are written.\<close>

definition os_Write :: "string \<Rightarrow> nat \<Rightarrow> string \<Rightarrow> fs \<Rightarrow> fs list" where
  "os_Write name n bytes f = map (\<lambda>k. f(name \<mapsto> take k bytes)) [0..<Suc n]"

text \<open>The error and the states of the file system, the last being the final one.\<close>

definition WriteRunResult ::
  "(int \<Rightarrow> goerr + string) \<Rightarrow> (string \<Rightarrow> string) \<Rightarrow> fs_env \<Rightarrow> string \<Rightarrow> RunResult \<Rightarrow> fs \<Rightarrow> goerr option \<times> fs list" where
  "WriteRunResult marshal_time filepath_Dir e path r f0 = (case marshal_result marshal_time r of
     Inl err \<Rightarrow> (Some (Wrap ''marshal result'' err), [f0])
   | Inr body \<Rightarrow>
     (let bytes = body @ [CHR 0x0A]; dir = filepath_Dir path in
      case mkdir_all e dir of Some err \<Rightarrow> (Some (Wrap (''create result directory '' @ dir) err), [f0])
      | None \<Rightarrow>
        (case create_temp e dir of
           Inl err \<Rightarrow> (Some (Wrap (''create temp result file in '' @ dir) err), [f0])
         | Inr tmpName \<Rightarrow>
             let f1 = f0(tmpName \<mapsto> []) in
             (case snd (write_file e) of
                Some err \<Rightarrow>
                  let fs2 = os_Write tmpName (fst (write_file e)) bytes f1; f2 = last fs2
                  in (Some (Wrap ''write result'' err), [f0, f1] @ fs2 @ [os_Remove e tmpName f2])
              | None \<Rightarrow>
                  let fs2 = os_Write tmpName (length bytes) bytes f1; f2 = last fs2 in
                  (case close_file e of
                     Some err \<Rightarrow> (Some (Wrap ''close result'' err), [f0, f1] @ fs2 @ [os_Remove e tmpName f2])
                   | None \<Rightarrow>
                       let f3 = os_Rename e tmpName path f2 in
                       (case rename_file e of
                          Some err \<Rightarrow> (Some (Wrap ''rename result into place'' err), [f0, f1] @ fs2 @ [f3, os_Remove e tmpName f3])
                        | None \<Rightarrow> (None, [f0, f1] @ fs2 @ [f3, os_Remove e tmpName f3])))))))"

section \<open>Lemmas\<close>

lemma build_ops_spec:
  assumes "\<forall>op \<in> set ns. map_of tot op = Some (stat_at tot op) \<and> stats_ok (stat_at tot op)"
  shows "\<exists>t rs. build_ops tot d ns (t0, rs0) = Some (t, rs0 @ rs) \<and>
     tOps t = tOps t0 + sum_list (map (\<lambda>op. count (stat_at tot op)) ns) \<and>
     tErrors t = tErrors t0 + sum_list (map (\<lambda>op. errors (stat_at tot op)) ns) \<and>
     map rOp rs = ns \<and>
     (\<forall>r \<in> set rs. rCount r = count (stat_at tot (rOp r)) \<and> rErrors r = errors (stat_at tot (rOp r)) \<and>
        (rLatency r = None \<longleftrightarrow> rCount r = rErrors r))"
  using assms
proof (induction ns arbitrary: t0 rs0)
  case (Cons op ns)
  let ?s = "stat_at tot op"
  have m: "map_of tot op = Some ?s" and ok: "stats_ok ?s" using Cons.prems by auto
  have le: "errors ?s \<le> count ?s" "samples ?s = count ?s - errors ?s"
    using stats_ok_bounds [OF ok] ok by (simp_all add: stats_ok_def)
  obtain lt where lt: "(if samples ?s > 0 then map_option Some (latencyStats ?s) else Some None) = Some lt"
      "lt = None \<longleftrightarrow> count ?s = errors ?s"
    using latencyStats_fields [of ?s] le by (cases "samples ?s > 0") auto
  let ?r = "\<lparr>rOp = op, rCount = count ?s, rErrors = errors ?s, rOpsPerSec = run_rate d (count ?s), rLatency = lt\<rparr>"
  let ?t = "t0\<lparr>tOps := tOps t0 + count ?s, tErrors := tErrors t0 + errors ?s\<rparr>"
  obtain t rs where IH: "build_ops tot d ns (?t, rs0 @ [?r]) = Some (t, (rs0 @ [?r]) @ rs)"
      "tOps t = tOps ?t + sum_list (map (\<lambda>op. count (stat_at tot op)) ns)"
      "tErrors t = tErrors ?t + sum_list (map (\<lambda>op. errors (stat_at tot op)) ns)" "map rOp rs = ns"
      "\<forall>r \<in> set rs. rCount r = count (stat_at tot (rOp r)) \<and> rErrors r = errors (stat_at tot (rOp r)) \<and>
        (rLatency r = None \<longleftrightarrow> rCount r = rErrors r)"
    using Cons.IH [of ?t "rs0 @ [?r]"] Cons.prems by auto
  then show ?case
    using m lt by (intro exI [of _ t] exI [of _ "?r # rs"]) simp
qed simp

lemma sum_list_sort: "sum_list (map f (sort xs)) = sum_list (map f xs)" for f :: "'a :: linorder \<Rightarrow> int"
proof -
  have "sum_list (map f (insort x ys)) = f x + sum_list (map f ys)" for x ys by (induction ys) auto
  then show ?thesis by (induction xs) simp_all
qed

lemma sort_names:
  assumes "table_ok names tot" "distinct names"
  shows "sort (map fst tot) = sort names"
  using assms by (intro sorted_distinct_set_unique) (simp_all add: table_ok_def keys_ok_def)

lemma occurrences_split:
  "occurrences op (\<lambda>d err. True) h = occurrences op (\<lambda>d err. err \<noteq> None) h + occurrences op (\<lambda>d err. err = None) h"
  by (induction h) (auto simp: occurrences_def)

section \<open>Properties\<close>

lemma build_ops_history:
  assumes tab: "table_ok names tot" "distinct names"
    and eq: "\<forall>op \<in> set names. count (stat_at tot op) = occurrences op (\<lambda>d err. True) h \<and>
       errors (stat_at tot op) = occurrences op (\<lambda>d err. err \<noteq> None) h"
    and h: "\<forall>(op, d, err) \<in> set h. op \<in> set names"
  shows "\<exists>t rs. build_ops tot dur (sort (map fst tot)) (\<lparr>tOps = 0, tErrors = 0, tOpsPerSec = 0\<rparr>, []) = Some (t, rs) \<and>
     tOps t = int (length h) \<and> tErrors t = int (length (filter (\<lambda>(op, d, err). err \<noteq> None) h)) \<and>
     map rOp rs = sort names \<and>
     (\<forall>r \<in> set rs. rCount r = occurrences (rOp r) (\<lambda>d err. True) h \<and>
        rErrors r = occurrences (rOp r) (\<lambda>d err. err \<noteq> None) h \<and>
        (rLatency r = None \<longleftrightarrow> occurrences (rOp r) (\<lambda>d err. err = None) h = 0))"
proof -
  have "\<forall>op \<in> set (sort names). map_of tot op = Some (stat_at tot op) \<and> stats_ok (stat_at tot op)"
    using table_ok_Some [OF tab(1)] by simp
  from build_ops_spec [OF this, of dur "\<lparr>tOps = 0, tErrors = 0, tOpsPerSec = 0\<rparr>" "[]"]
  obtain t rs where b: "build_ops tot dur (sort names) (\<lparr>tOps = 0, tErrors = 0, tOpsPerSec = 0\<rparr>, []) = Some (t, rs)"
      and t: "tOps t = sum_list (map (\<lambda>op. count (stat_at tot op)) names)"
        "tErrors t = sum_list (map (\<lambda>op. errors (stat_at tot op)) names)"
      and rs: "map rOp rs = sort names"
        "\<forall>r \<in> set rs. rCount r = count (stat_at tot (rOp r)) \<and> rErrors r = errors (stat_at tot (rOp r)) \<and>
          (rLatency r = None \<longleftrightarrow> rCount r = rErrors r)"
    by (auto simp: sum_list_sort)
  have sums: "tOps t = int (length h)" "tErrors t = int (length (filter (\<lambda>(op, d, err). err \<noteq> None) h))"
    using t eq occurrences_all [OF h tab(2), of "\<lambda>d err. True"] occurrences_all [OF h tab(2), of "\<lambda>d err. err \<noteq> None"]
    by (simp_all add: split_def cong: map_cong)
  have "rOp r \<in> set names" if "r \<in> set rs" for r
    using that rs(1) by (metis image_eqI list.set_map set_sort)
  then have "\<forall>r \<in> set rs. rCount r = occurrences (rOp r) (\<lambda>d err. True) h \<and>
      rErrors r = occurrences (rOp r) (\<lambda>d err. err \<noteq> None) h \<and>
      (rLatency r = None \<longleftrightarrow> occurrences (rOp r) (\<lambda>d err. err = None) h = 0)"
    using rs(2) eq occurrences_split [of _ h] by fastforce
  then show ?thesis using b sums rs(1) sort_names [OF tab] by auto
qed

lemma BuildRunResult_Some:
  assumes "build_ops tot (seconds (time_Sub ended started)) (sort (map fst tot))
     (\<lparr>tOps = 0, tErrors = 0, tOpsPerSec = 0\<rparr>, []) = Some (t, rs)"
  shows "BuildRunResult tot started ended cfg wops meta = Some
     \<lparr>resProfile = Profile cfg, StartedAt = started, EndedAt = ended,
      DurationSeconds = seconds (time_Sub ended started), StoppedBy = mStoppedBy meta,
      ResConfig = run_config cfg wops,
      Totals = t\<lparr>tOpsPerSec := run_rate (seconds (time_Sub ended started)) (tOps t)\<rparr>,
      ResOperations = rs, Timeseries = mTimeseries meta, Dataset = mDataset meta, Server = mServer meta\<rparr>"
  using assms by (simp add: BuildRunResult_def Let_def)

text \<open>The result describes the history \<open>h\<close>.\<close>

definition describes :: "string list \<Rightarrow> observation list \<Rightarrow> RunResult \<Rightarrow> bool" where
  "describes names h res \<longleftrightarrow>
     tOps (Totals res) = int (length h) \<and>
     tErrors (Totals res) = int (length (filter (\<lambda>(op, d, err). err \<noteq> None) h)) \<and>
     sum_list (map Ops (Timeseries res)) = tOps (Totals res) \<and>
     sum_list (map Errors (Timeseries res)) = tErrors (Totals res) \<and>
     map rOp (ResOperations res) = sort names \<and>
     (\<forall>r \<in> set (ResOperations res). rCount r = occurrences (rOp r) (\<lambda>d err. True) h \<and>
        rErrors r = occurrences (rOp r) (\<lambda>d err. err \<noteq> None) h \<and>
        (rLatency r = None \<longleftrightarrow> occurrences (rOp r) (\<lambda>d err. err = None) h = 0))"

lemma Finalize_BuildRunResult:
  assumes "reach (sys_init names) sys_step s" and "distinct names" and "drainer s = None"
  shows "\<exists>tot ivs st c' res. Finalize (coll s) now ended = Some ((tot, ivs, st, ended), c') \<and>
    (\<forall>dsn. BuildRunResult tot st ended (cfg\<lparr>PGDSN := dsn\<rparr>) wops (meta\<lparr>mTimeseries := ivs\<rparr>) = Some res) \<and>
    describes names (history s) res"
proof -
  obtain tot ivs st c' where F: "Finalize (coll s) now ended = Some ((tot, ivs, st, ended), c')" "table_ok names tot"
      "\<forall>op \<in> set names. count (stat_at tot op) = occurrences op (\<lambda>d err. True) (history s) \<and>
         errors (stat_at tot op) = occurrences op (\<lambda>d err. err \<noteq> None) (history s)"
      "sum_list (map Ops ivs) = int (length (history s))"
      "sum_list (map Errors ivs) = int (length (filter (\<lambda>(op, d, err). err \<noteq> None) (history s)))"
    using Finalize_history [OF assms, of now ended] by blast
  have h: "\<forall>(op, d, err) \<in> set (history s). op \<in> set names"
    using reach_sys_ok [OF assms(1,2)] by (simp add: sys_ok_def)
  show ?thesis
    using F build_ops_history [OF F(2) assms(2) F(3) h, of "seconds (time_Sub ended st)"]
    by (fastforce simp: BuildRunResult_Some run_config_def describes_def)
qed

text \<open>
  C6: The result of a run reports the run. Take any interleaving of recording workers and summary
  drains, stopped when no drain is in progress: \<open>Finalize\<close> followed by \<open>BuildRunResult\<close> on what
  it returns does not panic; the totals of the document are the number of all operations and
  of all errors recorded in the run, and the series adds up to exactly these totals; the
  operations are listed once each in increasing order of their names, with the counts and errors
  of the history; the latency block of an operation is absent exactly if none of its attempts
  succeeded; and the document does not depend on the connection string.
\<close>

theorem run_result_faithful:
  assumes "reach (sys_init names) sys_step s" and "distinct names" and "drainer s = None"
  shows "\<exists>tot ivs st c' res. Finalize (coll s) now ended = Some ((tot, ivs, st, ended), c') \<and>
    (\<forall>dsn. BuildRunResult tot st ended (cfg\<lparr>PGDSN := dsn\<rparr>) wops (meta\<lparr>mTimeseries := ivs\<rparr>) = Some res) \<and>
    tOps (Totals res) = int (length (history s)) \<and>
    tErrors (Totals res) = int (length (filter (\<lambda>(op, d, err). err \<noteq> None) (history s))) \<and>
    sum_list (map Ops (Timeseries res)) = tOps (Totals res) \<and>
    sum_list (map Errors (Timeseries res)) = tErrors (Totals res) \<and>
    map rOp (ResOperations res) = sort names \<and>
    (\<forall>r \<in> set (ResOperations res). rCount r = occurrences (rOp r) (\<lambda>d err. True) (history s) \<and>
       rErrors r = occurrences (rOp r) (\<lambda>d err. err \<noteq> None) (history s) \<and>
       (rLatency r = None \<longleftrightarrow> occurrences (rOp r) (\<lambda>d err. err = None) (history s) = 0))"
  using Finalize_BuildRunResult [OF assms, of now ended cfg wops meta] unfolding describes_def .

theorem run_result_faithful_witness:
  "\<exists>(s :: sys) tot ivs st c' res. Finalize (coll s) 5 6 = Some ((tot, ivs, st, 6), c') \<and>
     BuildRunResult tot st 6 ((read_config Map.empty)\<lparr>PGDSN := ''postgres://u:secret@h/d''\<rparr>) []
       (\<lparr>mDataset = None, mServer = None, mStoppedBy = StoppedBySignal, mTimeseries = []\<rparr>\<lparr>mTimeseries := ivs\<rparr>) = Some res \<and>
     tOps (Totals res) = 1 \<and> tErrors (Totals res) = 0 \<and>
     (\<exists>r \<in> set (ResOperations res). rOp r = ''insert'' \<and> rCount r = 1 \<and> rLatency r \<noteq> None)"
proof -
  obtain s where s: "reach (sys_init demo_names) sys_step s" "drainer s = None"
      "history s = [(''insert'', 1 / 4, None)]" using demo_run by blast
  have o: "occurrences ''insert'' (\<lambda>d err. True) (history s) = 1"
      "occurrences ''insert'' (\<lambda>d err. err = None) (history s) = 1" by (simp_all add: s(3) occurrences_def)
  obtain tot ivs st c' res where R: "Finalize (coll s) 5 6 = Some ((tot, ivs, st, 6), c')"
      "BuildRunResult tot st 6 ((read_config Map.empty)\<lparr>PGDSN := ''postgres://u:secret@h/d''\<rparr>) []
         (\<lparr>mDataset = None, mServer = None, mStoppedBy = StoppedBySignal, mTimeseries = []\<rparr>\<lparr>mTimeseries := ivs\<rparr>) = Some res"
      "tOps (Totals res) = 1" "tErrors (Totals res) = 0" "map rOp (ResOperations res) = sort demo_names"
      "\<forall>r \<in> set (ResOperations res). rCount r = occurrences (rOp r) (\<lambda>d err. True) (history s) \<and>
         (rLatency r = None \<longleftrightarrow> occurrences (rOp r) (\<lambda>d err. err = None) (history s) = 0)"
    using run_result_faithful [OF s(1) demo_distinct(1) s(2), of 5 6 "read_config Map.empty" "[]"
        "\<lparr>mDataset = None, mServer = None, mStoppedBy = StoppedBySignal, mTimeseries = []\<rparr>"] s(3)
    by auto
  have "''insert'' \<in> set (map rOp (ResOperations res))" using R(5) demo_distinct(2) by (simp add: demo_names_def)
  then obtain r where "r \<in> set (ResOperations res)" "rOp r = ''insert''" by auto
  then show ?thesis using R(1,2,3,4,6) o by force
qed

lemma os_Write_states:
  "f \<in> set (os_Write name n bytes f1) \<Longrightarrow> \<exists>c. f = f1(name \<mapsto> c)"
  "last (os_Write name n bytes f1) = f1(name \<mapsto> take n bytes)"
  by (auto simp: os_Write_def)

lemma WriteRunResult_states:
  assumes "WriteRunResult marshal_time filepath_Dir e path r f0 = (err, fss)"
    and "\<forall>t. create_temp e (filepath_Dir path) = Inr t \<longrightarrow> t \<noteq> path \<and> f0 t = None"
  shows "(\<forall>f \<in> set fss. f path = f0 path \<or>
            (\<exists>body. marshal_result marshal_time r = Inr body \<and> f path = Some (body @ [CHR 0x0A]))) \<and>
     (\<forall>f \<in> set fss. \<forall>p. p \<noteq> path \<and> create_temp e (filepath_Dir path) \<noteq> Inr p \<longrightarrow> f p = f0 p) \<and>
     (err = None \<longrightarrow> (\<exists>body. marshal_result marshal_time r = Inr body \<and> last fss = f0(path \<mapsto> body @ [CHR 0x0A]))) \<and>
     (err \<noteq> None \<longrightarrow> last fss path = f0 path \<and> (remove_file e = None \<longrightarrow> last fss = f0))"
  using assms
  by (auto simp: WriteRunResult_def os_Remove_def os_Rename_def Let_def fun_upd_idem os_Write_states(2)
      dest!: os_Write_states(1) split: sum.splits option.splits)

text \<open>
  C30: Writing the result is atomic. If \<open>CreateTemp\<close> makes a file that did not exist and is not the
  destination, then at every moment, whichever calls fail and wherever the process is killed, the
  destination holds its previous content or the complete new document; no other file than these
  two is touched. Without an error the destination holds the document and nothing else has
  changed; after an error the destination is as before, and so is the whole file system if the
  temporary file could be removed.
\<close>

theorem WriteRunResult_atomic:
  assumes "WriteRunResult marshal_time filepath_Dir e path r f0 = (err, fss)"
    and "\<forall>t. create_temp e (filepath_Dir path) = Inr t \<longrightarrow> t \<noteq> path \<and> f0 t = None"
  shows "(\<forall>f \<in> set fss. f path = f0 path \<or>
            (\<exists>body. marshal_result marshal_time r = Inr body \<and> f path = Some (body @ [CHR 0x0A]))) \<and>
     (\<forall>f \<in> set fss. \<forall>p. p \<noteq> path \<and> create_temp e (filepath_Dir path) \<noteq> Inr p \<longrightarrow> f p = f0 p) \<and>
     (err = None \<longrightarrow> (\<exists>body. marshal_result marshal_time r = Inr body \<and> last fss = f0(path \<mapsto> body @ [CHR 0x0A]))) \<and>
     (err \<noteq> None \<longrightarrow> last fss path = f0 path \<and> (remove_file e = None \<longrightarrow> last fss = f0))"
  using WriteRunResult_states [OF assms] .

definition demo_env :: "goerr option \<Rightarrow> fs_env" where
  "demo_env ren = \<lparr>mkdir_all = (\<lambda>d. None), create_temp = (\<lambda>d. Inr (d @ ''/.pgstorm-result-1.json'')),
     write_file = (0, None), close_file = None, rename_file = ren, remove_file = None\<rparr>"

theorem WriteRunResult_atomic_witness:
  "\<exists>fss body. WriteRunResult (\<lambda>t. Inr ''now'') (\<lambda>p. ''out'') (demo_env None) ''out/r.json''
        \<lparr>resProfile = ''p'', StartedAt = 3, EndedAt = 4, DurationSeconds = 0, StoppedBy = [],
         ResConfig = run_config (read_config Map.empty) [], Totals = \<lparr>tOps = 0, tErrors = 0, tOpsPerSec = 0\<rparr>,
         ResOperations = [], Timeseries = [], Dataset = None, Server = None\<rparr> [''out/r.json'' \<mapsto> ''old''] = (None, fss) \<and>
     last fss = [''out/r.json'' \<mapsto> body @ [CHR 0x0A]] \<and>
     (\<forall>f \<in> set fss. f ''out/r.json'' = Some ''old'' \<or> f ''out/r.json'' = Some (body @ [CHR 0x0A]))"
proof -
  let ?r = "\<lparr>resProfile = ''p'', StartedAt = 3, EndedAt = 4, DurationSeconds = 0, StoppedBy = [],
    ResConfig = run_config (read_config Map.empty) [], Totals = \<lparr>tOps = 0, tErrors = 0, tOpsPerSec = 0\<rparr>,
    ResOperations = [], Timeseries = [], Dataset = None, Server = None\<rparr>"
  let ?m = "\<lambda>t :: int. Inr ''now'' :: goerr + string"
  let ?f = "[''out/r.json'' \<mapsto> ''old'']"
  obtain fss where w: "WriteRunResult ?m (\<lambda>p. ''out'') (demo_env None) ''out/r.json'' ?r ?f = (None, fss)"
    by (simp add: WriteRunResult_def marshal_result_def demo_env_def Let_def)
  have fresh: "\<forall>t. create_temp (demo_env None) ''out'' = Inr t \<longrightarrow> t \<noteq> ''out/r.json'' \<and> ?f t = None"
    by (simp add: demo_env_def)
  obtain b where b: "marshal_result ?m ?r = Inr b" by (simp add: marshal_result_def)
  have W: "last fss = ?f(''out/r.json'' \<mapsto> b @ [CHR 0x0A])"
      "\<forall>f \<in> set fss. f ''out/r.json'' = ?f ''out/r.json'' \<or> f ''out/r.json'' = Some (b @ [CHR 0x0A])"
    using WriteRunResult_atomic [OF w fresh] unfolding b by (blast, blast)
  show ?thesis
    by (intro exI [of _ fss] exI [of _ b] conjI w) (use W in \<open>simp_all add: fun_upd_def fun_eq_iff\<close>)
qed

end
