(* ===== verification/Console.thy ===== *)
theory Console
  imports Config Conservation Exporter
begin

text \<open>
  The periodic console summary: \<open>RunSummaryLoop\<close>, \<open>print\<close> and \<open>latencyCell\<close> of
  \<open>workload/stats.go\<close>.

  The output is a list of lines, each a list of UTF-8 bytes, as \<open>fmt.Printf\<close> produces it; the
  width of a field counts runes. The wall-clock form of an instant depends on the time zone
  and is a parameter. One pass of the loop is a \<open>summary_tick\<close>: what the workers recorded since
  the last one, whether the context is done, and the instant the ticker delivers.

  The specification, \<open>summary_text\<close>, writes the lines from the list of the observations of a
  window, without workers, merging, statistics or the functions that print them: it shares only the
  number formats and the frame of the table with the model of the code.
\<close>

section \<open>Definitions\<close>

subsection \<open>Formatting\<close>

text \<open>A rune has one byte that is not a continuation byte.\<close>

definition runes :: "string \<Rightarrow> nat" where
  "runes s = length (filter (\<lambda>c. (of_char c :: nat) < 128 \<or> 192 \<le> (of_char c :: nat)) s)"

definition pad_left :: "nat \<Rightarrow> string \<Rightarrow> string" where
  "pad_left w s = replicate (w - runes s) (CHR '' '') @ s"

definition pad_right :: "nat \<Rightarrow> string \<Rightarrow> string" where
  "pad_right w s = s @ replicate (w - runes s) (CHR '' '')"

text \<open>\<open>%.1f\<close>: the exact binary value rounded to one decimal, ties to even.\<close>

definition fixed1 :: "float64 \<Rightarrow> string" where
  "fixed1 x = (let n = nat (rnd_even (\<bar>x\<bar> * 10)) in
     (if x < 0 then ''-'' else []) @ nat_digits (n div 10) @ ''.'' @ nat_digits (n mod 10))"

text \<open>\<open>Duration.Round(time.Second)\<close>, halves away from zero, and \<open>Duration.String\<close> of whole seconds.\<close>

definition round_seconds :: "int \<Rightarrow> int" where
  "round_seconds d = (let n = (2 * \<bar>d\<bar> + Second) div (2 * Second) in if d < 0 then - n else n)"

definition duration_string :: "int \<Rightarrow> string" where
  "duration_string secs = (let u = \<bar>secs\<bar>; m = u div 60; h = m div 60 in
     (if secs < 0 then ''-'' else []) @ (if h > 0 then itoa h @ ''h'' else []) @
     (if m > 0 then itoa (m mod 60) @ ''m'' else []) @ itoa (u mod 60) @ ''s'')"

definition em_dash :: string where "em_dash = [CHR 0xE2, CHR 0x80, CHR 0x94]"

definition box :: "char \<Rightarrow> string" where "box c = [CHR 0xE2, CHR 0x94, c]"

definition bar :: "char \<Rightarrow> nat \<Rightarrow> string" where "bar c n = concat (replicate n (box c))"

subsection \<open>The summary\<close>

definition latencyCell :: "opStats \<Rightarrow> float64 \<Rightarrow> string option" where
  "latencyCell s q = (if samples s = 0 then Some em_dash else map_option fixed1 (percentile s q))"

definition table_line :: "string list \<Rightarrow> string" where
  "table_line cells = ''  '' @ concat (map (\<lambda>x. box (CHR 0x82) @ '' '' @ x @ '' '') cells) @ box (CHR 0x82)"

definition border :: "char \<Rightarrow> char \<Rightarrow> char \<Rightarrow> string" where
  "border l m r = ''  '' @ box l @ concat (map (\<lambda>n. bar (CHR 0x80) n @ box m) [14, 8, 8, 9, 8, 8]) @ bar (CHR 0x80) 8 @ box r"

definition summary_row :: "float64 \<Rightarrow> string \<Rightarrow> opStats \<Rightarrow> string option" where
  "summary_row windowSecs op s = do {
     p50 \<leftarrow> latencyCell s q50;
     p95 \<leftarrow> latencyCell s q95;
     p99 \<leftarrow> latencyCell s q99;
     Some (table_line [pad_right 12 op, pad_left 6 (itoa (count s)), pad_left 6 (itoa (errors s)),
       pad_left 7 (fixed1 (fdiv (f64_of_int (count s)) windowSecs)), pad_left 6 p50, pad_left 6 p95, pad_left 6 p99])
   }"

text \<open>The lines of one summary, from the statistics of each operation; \<open>None\<close> is a panic.\<close>

definition render ::
  "(int \<Rightarrow> string) \<Rightarrow> int \<Rightarrow> int \<Rightarrow> int \<Rightarrow> nat \<Rightarrow> pgxpool_Stat option \<Rightarrow> int \<Rightarrow> int \<Rightarrow> string list \<Rightarrow>
   (string \<Rightarrow> opStats option) \<Rightarrow> string list option" where
  "render clock now window started workerCount pool totalOps totalErrors names stat_of = do {
     let windowSecs = seconds window;
     let elapsed = round_seconds (time_Sub now started);
     let sep = bar (CHR 0x81) 68;
     rows \<leftarrow> those (map (\<lambda>op. Option.bind (stat_of op) (summary_row windowSecs op)) names);
     Some ([[], sep, ''  30s summary ['' @ clock now @ '' | +'' @ duration_string elapsed @ '' elapsed]'',
            ''  total  '' @ pad_left 6 (commaf totalOps) @ '' ops   '' @ fixed1 (fdiv (f64_of_int totalOps) windowSecs) @
              '' ops/s   errors: '' @ itoa totalErrors,
            border (CHR 0x8C) (CHR 0xAC) (CHR 0x90),
            table_line [pad_right 12 ''op'', pad_left 6 ''count'', pad_left 6 ''err'', pad_left 7 ''ops/s'',
              pad_left 6 ''p50 ms'', pad_left 6 ''p95 ms'', pad_left 6 ''p99 ms''],
            border (CHR 0x9C) (CHR 0xBC) (CHR 0xA4)] @
           rows @ [border (CHR 0x94) (CHR 0xB4) (CHR 0x98)] @
           (case pool of None \<Rightarrow> []
            | Some st \<Rightarrow> [''  pool  acquired='' @ itoa (AcquiredConns st) @ ''  idle='' @ itoa (IdleConns st) @
                ''  total='' @ itoa (TotalConns st) @ ''  max='' @ itoa (MaxConnsStat st) @ ''  '' @ box (CHR 0x82) @
                ''  workers='' @ itoa (int workerCount)]) @
           [sep, []])
   }"

definition print ::
  "(int \<Rightarrow> string) \<Rightarrow> int \<Rightarrow> int \<Rightarrow> pgxpool_Stat option \<Rightarrow> StatsCollector \<Rightarrow> (string list \<times> StatsCollector) option" where
  "print clock now window pool c = do {
     (c, merged) \<leftarrow> drain c now;
     let workerCount = length (workers c);
     let totalOps = foldl (\<lambda>n (op, s). n + count s) 0 merged;
     let totalErrors = foldl (\<lambda>n (op, s). n + errors s) 0 merged;
     out \<leftarrow> render clock now window (start c) workerCount pool totalOps totalErrors (ops c) (map_of merged);
     Some (out, c)
   }"

subsection \<open>The loop\<close>

record summary_tick =
  recorded :: "(nat \<times> observation) list"
  ctx_done :: bool
  fired :: int
  pool_stat :: "pgxpool_Stat option"

text \<open>The \<open>Record\<close> calls of the workers between two passes.\<close>

fun record_calls :: "(nat \<times> observation) list \<Rightarrow> StatsCollector \<Rightarrow> StatsCollector option" where
  "record_calls [] c = Some c"
| "record_calls ((i, op, d, err) # rs) c =
     (if i < length (workers c) then do {
        ws \<leftarrow> Record (workers c ! i) op d err;
        record_calls rs (c\<lparr>workers := (workers c)[i := ws]\<rparr>)
      } else None)"

fun summary_loop ::
  "(int \<Rightarrow> string) \<Rightarrow> int \<Rightarrow> summary_tick list \<Rightarrow> StatsCollector \<Rightarrow> (string list list \<times> StatsCollector) option" where
  "summary_loop clock interval [] c = Some ([], c)"
| "summary_loop clock interval (t # ts) c = do {
     c \<leftarrow> record_calls (recorded t) c;
     if ctx_done t then Some ([], c)
     else do {
       (out, c) \<leftarrow> print clock (fired t) interval (pool_stat t) c;
       (outs, c) \<leftarrow> summary_loop clock interval ts c;
       Some (out # outs, c)
     }
   }"

text \<open>\<open>time.NewTicker\<close> panics on an interval that is not positive.\<close>

definition RunSummaryLoop ::
  "(int \<Rightarrow> string) \<Rightarrow> int \<Rightarrow> summary_tick list \<Rightarrow> StatsCollector \<Rightarrow> (string list list \<times> StatsCollector) option" where
  "RunSummaryLoop clock interval ts c = (if interval \<le> 0 then None else summary_loop clock interval ts c)"

section \<open>Specification\<close>

text \<open>The statistics of one operation in a list of observations.\<close>

definition window_stats :: "observation list \<Rightarrow> string \<Rightarrow> opStats" where
  "window_stats w op = foldl (\<lambda>s (op', d, err). if op' = op then record_op s d err else s) opStats_zero w"

text \<open>
  What the summary of a window has to say, from the observations alone: the latencies of the
  successes of an operation in microseconds, in increasing order; a cell for the \<open>k\<close>-th percentile, which is
  a dash without a success and otherwise the value of rank \<open>ceil(k N / 100)\<close> in milliseconds; and the
  lines of the table.
\<close>

definition successes :: "observation list \<Rightarrow> string \<Rightarrow> int list" where
  "successes w op = sort (map (\<lambda>(op', d, err). to_micros d) (filter (\<lambda>(op', d, err). op' = op \<and> err = None) w))"

definition attempts :: "observation list \<Rightarrow> string \<Rightarrow> int" where
  "attempts w op = int (length (filter (\<lambda>(op', d, err). op' = op) w))"

definition failures :: "observation list \<Rightarrow> string \<Rightarrow> int" where
  "failures w op = int (length (filter (\<lambda>(op', d, err). op' = op \<and> err \<noteq> None) w))"

definition cell_text :: "nat \<Rightarrow> int list \<Rightarrow> string" where
  "cell_text k us = (if us = [] then em_dash else fixed1 (fdiv (f64_of_int (us ! ((k * length us + 99) div 100 - 1))) 1000))"

definition row_text :: "int \<Rightarrow> observation list \<Rightarrow> string \<Rightarrow> string" where
  "row_text interval w op = table_line
     [pad_right 12 op, pad_left 6 (itoa (attempts w op)), pad_left 6 (itoa (failures w op)),
      pad_left 7 (fixed1 (fdiv (f64_of_int (attempts w op)) (seconds interval))),
      pad_left 6 (cell_text 50 (successes w op)), pad_left 6 (cell_text 95 (successes w op)),
      pad_left 6 (cell_text 99 (successes w op))]"

definition total_text :: "int \<Rightarrow> observation list \<Rightarrow> string" where
  "total_text interval w = ''  total  '' @ pad_left 6 (commaf (int (length w))) @ '' ops   '' @
     fixed1 (fdiv (f64_of_int (int (length w))) (seconds interval)) @
     '' ops/s   errors: '' @ itoa (int (length (filter (\<lambda>(op, d, err). err \<noteq> None) w)))"

definition pool_text :: "nat \<Rightarrow> pgxpool_Stat \<Rightarrow> string" where
  "pool_text n st = ''  pool  acquired='' @ itoa (AcquiredConns st) @ ''  idle='' @ itoa (IdleConns st) @
     ''  total='' @ itoa (TotalConns st) @ ''  max='' @ itoa (MaxConnsStat st) @ ''  '' @ box (CHR 0x82) @
     ''  workers='' @ itoa (int n)"

definition summary_text :: "(int \<Rightarrow> string) \<Rightarrow> int \<Rightarrow> int \<Rightarrow> nat \<Rightarrow> string list \<Rightarrow> summary_tick \<Rightarrow> string list" where
  "summary_text clock interval started n names t =
     (let w = map snd (recorded t) in
      [[], bar (CHR 0x81) 68,
       ''  30s summary ['' @ clock (fired t) @ '' | +'' @ duration_string (round_seconds (time_Sub (fired t) started)) @ '' elapsed]'',
       total_text interval w,
       border (CHR 0x8C) (CHR 0xAC) (CHR 0x90),
       table_line [''op          '', '' count'', ''   err'', ''  ops/s'', ''p50 ms'', ''p95 ms'', ''p99 ms''],
       border (CHR 0x9C) (CHR 0xBC) (CHR 0xA4)] @
      map (row_text interval w) names @ [border (CHR 0x94) (CHR 0xB4) (CHR 0x98)] @
      map (pool_text n) (case pool_stat t of None \<Rightarrow> [] | Some st \<Rightarrow> [st]) @ [bar (CHR 0x81) 68, []])"

text \<open>A collector with \<open>n\<close> workers, as \<open>main\<close> creates it.\<close>

definition started_collector :: "int \<Rightarrow> string list \<Rightarrow> nat \<Rightarrow> StatsCollector" where
  "started_collector now names n = (NewWorkerStats ^^ n) (NewStatsCollector now names)"

section \<open>Lemmas\<close>

subsection \<open>What a summary depends on\<close>

text \<open>Two statistics that count the same.\<close>

definition same_stats :: "opStats \<Rightarrow> opStats \<Rightarrow> bool" where
  "same_stats s s' \<longleftrightarrow> stats_ok s \<and> stats_ok s' \<and> count s = count s' \<and> errors s = errors s' \<and>
     (\<forall>us. mget (lat s) us = mget (lat s') us)"

lemma map_of_lat:
  assumes "stats_ok s"
  shows "map_of (lat s) us = (if mget (lat s) us = 0 then None else Some (mget (lat s) us))"
  using assms by (fastforce simp: mget_def stats_ok_def dest: map_of_SomeD split: option.splits)

lemma same_percentile: "same_stats s s' \<Longrightarrow> percentile s q = percentile s' q"
  using latencyStats_order_independent [of s s'] map_of_lat [of s] map_of_lat [of s']
  by (simp add: same_stats_def stats_ok_def fun_eq_iff)

lemma same_summary_row: "same_stats s s' \<Longrightarrow> summary_row v op s = summary_row v op s'"
  using same_percentile [of s s'] by (simp add: summary_row_def latencyCell_def same_stats_def stats_ok_def)

lemma summary_row_total: "\<exists>l. summary_row v op s = Some l"
proof -
  have "\<exists>x. latencyCell s q = Some x" for q using percentile_total [of s q] by (auto simp: latencyCell_def)
  then show ?thesis by (metis (no_types, lifting) summary_row_def bind.bind_lunit)
qed

lemma render_cong:
  assumes "\<forall>op \<in> set names. \<exists>s s'. f op = Some s \<and> g op = Some s' \<and> same_stats s s'"
  shows "render clock now w st n pool a b names f = render clock now w st n pool a b names g"
    "\<exists>out. render clock now w st n pool a b names f = Some out"
proof -
  have rows: "map (\<lambda>op. Option.bind (f op) (summary_row v op)) names = map (\<lambda>op. Option.bind (g op) (summary_row v op)) names" for v
    using assms by (force intro!: map_cong same_summary_row)
  then show "render clock now w st n pool a b names f = render clock now w st n pool a b names g"
    by (simp only: render_def Let_def rows)
  have "\<exists>rs. those (map (\<lambda>op. Option.bind (f op) (summary_row v op)) ns) = Some rs" if "set ns \<subseteq> set names" for v ns
    using that
  proof (induction ns)
    case (Cons op ns)
    obtain s l where "f op = Some s" "summary_row v op s = Some l"
      using assms Cons.prems summary_row_total [of v op] by (metis list.set_intros(1) subsetD)
    then show ?case using Cons by auto
  qed simp
  then obtain rs where "those (map (\<lambda>op. Option.bind (f op) (summary_row (seconds w) op)) names) = Some rs" by blast
  then show "\<exists>out. render clock now w st n pool a b names f = Some out"
    by (simp only: render_def Let_def bind.bind_lunit) blast
qed

subsection \<open>The observations of a window\<close>

lemma occurrences_simps [simp]:
  "occurrences op P [] = 0"
  "occurrences op P ((op', d, err) # w) = (if op' = op \<and> P d err then 1 else 0) + occurrences op P w"
  "occurrences op P (v @ w) = occurrences op P v + occurrences op P w"
  by (simp_all add: occurrences_def)

lemma window_stats_snoc:
  "window_stats (w @ [(op', d, err)]) op = (if op' = op then record_op (window_stats w op) d err else window_stats w op)"
  by (simp add: window_stats_def)

lemma window_stats_ok:
  "stats_ok (window_stats w op)" "count (window_stats w op) = occurrences op (\<lambda>d err. True) w"
  "errors (window_stats w op) = occurrences op (\<lambda>d err. err \<noteq> None) w"
  "mget (lat (window_stats w op)) us = occurrences op (\<lambda>d err. err = None \<and> us = to_micros d) w"
proof (induction w rule: rev_induct)
  case (snoc x w)
  obtain op' d err where x: "x = (op', d, err)" by (metis prod_cases3)
  { case 1 then show ?case using snoc by (simp add: x window_stats_snoc stats_ok_record_op) }
  { case 2 then show ?case using snoc by (simp add: x window_stats_snoc) }
  { case 3 then show ?case using snoc by (simp add: x window_stats_snoc) }
  { case 4 then show ?case using snoc
      by (cases "op' = op"; cases "err = None"; cases "us = to_micros d") (simp_all add: x window_stats_snoc mget_record_op) }
qed (simp_all add: window_stats_def, simp_all add: opStats_zero_def)

subsection \<open>The cells\<close>

lemma nearest_index:
  assumes "sorted xs" "v \<in> set xs" "r \<le> length (filter (\<lambda>x. x \<le> v) xs)" "1 \<le> r" "r \<le> length xs"
    "\<forall>u \<in> set xs. u < v \<longrightarrow> length (filter (\<lambda>x. x \<le> u) xs) < r"
  shows "v = (xs :: int list) ! (r - 1)"
proof -
  let ?y = "xs ! (r - 1)"
  have y: "?y \<in> set xs" using assms(4,5) by (intro nth_mem) simp
  have le: "x \<le> ?y" if "x \<in> set (take r xs)" for x
    using that assms(1,4,5) by (auto simp: in_set_conv_nth intro!: sorted_nth_mono)
  have split: "filter P xs = filter P (take k xs) @ filter P (drop k xs)" for P k
    by (metis append_take_drop_id filter_append)
  have "r \<le> length (filter (\<lambda>x. x \<le> ?y) xs)" using le assms(5) by (subst split [of _ r]) simp
  then have "v \<le> ?y" using assms(6) y by force
  moreover have "\<not> v < ?y"
  proof
    assume lt: "v < ?y"
    have "\<not> x \<le> v" if x: "x \<in> set (drop (r - 1) xs)" for x
    proof -
      obtain i where "i < length (drop (r - 1) xs)" "drop (r - 1) xs ! i = x" using x unfolding in_set_conv_nth by blast
      then have "?y \<le> x" using assms(1) by (auto intro!: sorted_nth_mono)
      then show ?thesis using lt by simp
    qed
    then have "filter (\<lambda>x. x \<le> v) (drop (r - 1) xs) = []" by (simp add: filter_empty_conv)
    then have "length (filter (\<lambda>x. x \<le> v) xs) \<le> r - 1"
      using length_filter_le [of "\<lambda>x. x \<le> v" "take (r - 1) xs"] by (subst split [of _ "r - 1"]) simp
    then show False using assms(3,4) by simp
  qed
  ultimately show ?thesis by simp
qed

lemma count_successes: "int (count_list (successes w op) us) = occurrences op (\<lambda>d err. err = None \<and> us = to_micros d) w"
proof -
  have "count_list (successes w op) us = count_list (map (\<lambda>(op', d, err). to_micros d) (filter (\<lambda>(op', d, err). op' = op \<and> err = None) w)) us"
    unfolding successes_def by (simp add: count_list_eq_length_filter filter_sort)
  then show ?thesis
    by (simp add: occurrences_def count_list_eq_length_filter filter_map o_def split_def conj_commute conj_left_commute)
qed

lemma window_successes:
  "fst ` set (lat (window_stats w op)) = set (successes w op)"
  "samples (window_stats w op) = int (length (successes w op))"
  "obs_le (window_stats w op) v = int (length (filter (\<lambda>x. x \<le> v) (successes w op)))"
proof -
  let ?s = "window_stats w op" and ?xs = "successes w op"
  have ok: "keys_ok (lat ?s)" "\<forall>(us, n) \<in> set (lat ?s). 0 \<le> us \<and> 0 < n" using window_stats_ok(1) [of w op] by (auto simp: stats_ok_def)
  have m: "mget (lat ?s) us = int (count_list ?xs us)" for us by (simp add: window_stats_ok(4) count_successes)
  have "us \<in> fst ` set (lat ?s) \<longleftrightarrow> mget (lat ?s) us \<noteq> 0" for us
    using map_of_lat [OF window_stats_ok(1), of w op us] map_of_eq_None_iff [of "lat ?s" us] by (simp split: if_splits)
  then show k: "fst ` set (lat ?s) = set ?xs" by (auto simp: m count_list_0_iff)
  have c: "(\<Sum>us \<in> {us \<in> set xs. P us}. int (count_list xs us)) = int (length (filter P xs))" for xs :: "int list" and P
  proof -
    have "(\<Sum>us \<in> {us \<in> set xs. P us}. count_list xs us) = (\<Sum>us \<in> set (filter P xs). count_list (filter P xs) us)"
      by (rule sum.cong) (auto simp: count_list_eq_length_filter intro!: arg_cong [of _ _ length] filter_cong)
    then show ?thesis by (simp add: sum_count_set flip: of_nat_sum)
  qed
  show "samples ?s = int (length ?xs)"
    using samples_mget [OF ok(1), of "set ?xs"] c [of ?xs "\<lambda>_. True"] by (simp add: k m)
  show "obs_le ?s v = int (length (filter (\<lambda>x. x \<le> v) ?xs))" unfolding obs_le_def k m by (rule c)
qed

lemma latencyCell_window:
  assumes "length w \<le> 2 ^ 40" "(q, k) \<in> {(q50, 50), (q95, 95), (q99, 99)}"
  shows "latencyCell (window_stats w op) q = Some (cell_text k (successes w op))"
proof (cases "successes w op = []")
  case True
  then show ?thesis using window_successes(2) [of w op] by (simp add: latencyCell_def cell_text_def)
next
  case False
  let ?s = "window_stats w op" and ?xs = "successes w op"
  let ?n = "int (length ?xs)"
  have "length ?xs \<le> length w" by (simp add: successes_def)
  then have n: "0 < ?n" "?n \<le> 2 ^ 40" using False assms(1) by auto
  have k: "0 < int k" "int k \<le> 100" "0 < k" using assms(2) by auto
  have "quantile_rank ?n q = \<lceil>of_int (int k) * of_int ?n / (of_int 100 :: rat)\<rceil>"
    using assms(2) n by (intro quantile_rank_exact) (auto simp: q50_def q95_def q99_def)
  also have "\<dots> = int ((k * length ?xs + 99) div 100)"
  proof -
    have "\<lceil>of_int (int k * ?n) / (of_int 100 :: rat)\<rceil> = - (- (int k * ?n) div 100)"
      by (rule ceiling_divide_eq_div)
    also have "\<dots> = (int k * ?n + 99) div 100" by linarith
    finally show ?thesis by (simp add: zdiv_int)
  qed
  finally have rk: "quantile_rank ?n q = int ((k * length ?xs + 99) div 100)" .
  let ?r = "(k * length ?xs + 99) div 100"
  obtain v where v: "percentile ?s q = Some (us_to_ms v)" "nearest_rank ?s (int ?r) v"
    using percentile_nearest [OF window_stats_ok(1) [of w op], of q] n(1) unfolding window_successes(2) rk by auto
  have "1 \<le> quantile_rank ?n q \<and> quantile_rank ?n q \<le> ?n" using n(1) by (rule quantile_rank_range)
  then have r: "1 \<le> ?r" "?r \<le> length ?xs" unfolding rk by linarith+
  have "v = ?xs ! (?r - 1)"
    using v(2) r unfolding nearest_rank_def window_successes
    by (intro nearest_index) (auto simp: successes_def)
  then show ?thesis using v(1) n(1) False by (simp add: latencyCell_def window_successes(2) cell_text_def us_to_ms_def)
qed

lemma summary_row_window:
  assumes "length w \<le> 2 ^ 40"
  shows "summary_row (seconds interval) op (window_stats w op) = Some (row_text interval w op)"
  using latencyCell_window [OF assms, of q50 50 op] latencyCell_window [OF assms, of q95 95 op]
    latencyCell_window [OF assms, of q99 99 op]
  by (simp add: summary_row_def row_text_def window_stats_ok occurrences_def attempts_def failures_def)

lemma render_window:
  assumes "length (recorded t) \<le> 2 ^ 40"
  defines "w \<equiv> map snd (recorded t)"
  shows "render clock (fired t) interval started n (pool_stat t) (int (length w))
    (int (length (filter (\<lambda>(op, d, err). err \<noteq> None) w))) names (\<lambda>op. Some (window_stats w op)) =
    Some (summary_text clock interval started n names t)"
proof -
  have "those (map (\<lambda>op. Some (row_text interval w op)) ns) = Some (map (row_text interval w) ns)" for ns
    by (induction ns) simp_all
  moreover have "length w \<le> 2 ^ 40" using assms by simp
  ultimately have rows: "those (map (\<lambda>op. summary_row (seconds interval) op (window_stats w op)) names) = Some (map (row_text interval w) names)"
    by (simp add: summary_row_window)
  have head: "[pad_right 12 ''op'', pad_left 6 ''count'', pad_left 6 ''err'', pad_left 7 ''ops/s'',
      pad_left 6 ''p50 ms'', pad_left 6 ''p95 ms'', pad_left 6 ''p99 ms''] =
      [''op          '', '' count'', ''   err'', ''  ops/s'', ''p50 ms'', ''p95 ms'', ''p99 ms'']"
    by code_simp
  show ?thesis
    unfolding render_def summary_text_def Let_def w_def [symmetric] bind.bind_lunit rows head
    by (simp add: total_text_def pool_text_def split: option.split)
qed

subsection \<open>One summary\<close>

text \<open>What the system has counted before the window \<open>w\<close> is in the totals: nothing else is held.\<close>

definition drained :: "string list \<Rightarrow> sys \<Rightarrow> observation list \<Rightarrow> bool" where
  "drained names s w \<longleftrightarrow> (\<exists>h. history s = h @ w \<and>
     (\<forall>op \<in> set names. count (stat_at (totals (coll s)) op) = occurrences op (\<lambda>d err. True) h \<and>
        errors (stat_at (totals (coll s)) op) = occurrences op (\<lambda>d err. err \<noteq> None) h \<and>
        (\<forall>us. mget (lat (stat_at (totals (coll s)) op)) us = occurrences op (\<lambda>d err. err = None \<and> us = to_micros d) h)))"

lemma drain_merged:
  assumes ok: "sys_ok names s" and dr: "drainer s = None" and dist: "distinct names"
    and d: "drain (coll s) now = Some (c', m)"
  shows "table_ok names m" "totals c' = merge_all (totals (coll s)) m" "ops c' = names"
    "length (workers c') = length (workers (coll s))" "start c' = start (coll s)"
proof -
  let ?W = "workers (coll s)"
  let ?c = "(coll s)\<lparr>workers := map (\<lambda>w. snd (snapshot w)) ?W\<rparr>"
  have n: "ops (coll s) = names" and W: "\<forall>ws \<in> set ?W. table_ok names (data ws)"
      and t: "table_ok names (totals (coll s))" and so: "series_ok (coll s)" using ok by (auto simp: sys_ok_def)
  have "table_ok names (foldl (\<lambda>m w. merge_all m (data w)) m0 V)"
    if "table_ok names m0" "\<forall>ws \<in> set V. table_ok names (data ws)" for m0 V
    using that by (induction V arbitrary: m0) (simp_all add: merge_tables(1))
  then have mt: "table_ok names (foldl (\<lambda>m w. merge_all m (data w)) (drain_init (coll s)) ?W)"
    using W fresh_stats_ok(1) [of names] by (simp add: drain_init_def n)
  have m: "m = foldl (\<lambda>m w. merge_all m (data w)) (drain_init (coll s)) ?W" and f: "drain_finish ?c now m = Some c'"
    using d drain_workers_eq [of 0 "coll s"] by (auto simp: drain_def)
  show mo: "table_ok names m" using mt m by simp
  have "series_ok ?c" using so by (simp add: series_ok_def contiguous_def)
  then have "series_step (?c\<lparr>totals := merge_all (totals ?c) m\<rparr>) m c'"
    using drain_finish_spec [of ?c m now] mo t dist f by (simp add: n)
  then show "totals c' = merge_all (totals (coll s)) m" "ops c' = names" "length (workers c') = length ?W"
      "start c' = start (coll s)"
    by (simp_all add: series_step_def n)
qed

lemma drained_merge:
  assumes ok: "table_ok names t" "table_ok names m" "op \<in> set names"
    and h: "count (stat_at t op) = occurrences op (\<lambda>d err. True) h"
      "errors (stat_at t op) = occurrences op (\<lambda>d err. err \<noteq> None) h"
      "\<And>us. mget (lat (stat_at t op)) us = occurrences op (\<lambda>d err. err = None \<and> us = to_micros d) h"
    and w: "count (stat_at (merge_all t m) op) = occurrences op (\<lambda>d err. True) (h @ w)"
      "errors (stat_at (merge_all t m) op) = occurrences op (\<lambda>d err. err \<noteq> None) (h @ w)"
      "\<And>us. mget (lat (stat_at (merge_all t m) op)) us = occurrences op (\<lambda>d err. err = None \<and> us = to_micros d) (h @ w)"
  shows "same_stats (stat_at m op) (window_stats w op)"
proof -
  have s: "stats_ok (stat_at m op)" using table_ok_Some(2) [OF ok(2,3)] .
  then have "keys_ok (lat (stat_at m op))" by (simp add: stats_ok_def)
  then show ?thesis
    using h w s unfolding merge_tables(2) [OF ok]
    by (simp add: same_stats_def window_stats_ok mget_mergeInto)
qed

lemma print_window:
  assumes r: "reach (sys_init names) sys_step s" and dist: "distinct names" and dr: "drainer s = None"
    and dw: "drained names s w"
  shows "\<exists>out c'. print clock now window pool (coll s) = Some (out, c') \<and>
     render clock now window (start (coll s)) (length (workers (coll s))) pool (int (length w))
       (int (length (filter (\<lambda>(op, d, err). err \<noteq> None) w))) names (\<lambda>op. Some (window_stats w op)) = Some out \<and>
     reach (sys_init names) sys_step (s\<lparr>coll := c'\<rparr>) \<and> drained names (s\<lparr>coll := c'\<rparr>) [] \<and>
     start c' = start (coll s) \<and> length (workers c') = length (workers (coll s))"
proof -
  have ok: "sys_ok names s" using r dist by (rule reach_sys_ok)
  obtain c' m where d: "drain (coll s) now = Some (c', m)" and run: "sys_step\<^sup>*\<^sup>* s (s\<lparr>coll := c'\<rparr>)"
    using drain_run [OF ok dr dist] by blast
  note dm = drain_merged [OF ok dr dist d]
  obtain h where h: "history s = h @ w" and tot: "\<forall>op \<in> set names.
      count (stat_at (totals (coll s)) op) = occurrences op (\<lambda>d err. True) h \<and>
      errors (stat_at (totals (coll s)) op) = occurrences op (\<lambda>d err. err \<noteq> None) h \<and>
      (\<forall>us. mget (lat (stat_at (totals (coll s)) op)) us = occurrences op (\<lambda>d err. err = None \<and> us = to_micros d) h)"
    using dw by (auto simp: drained_def)
  have tot': "\<forall>op \<in> set names. count (stat_at (totals c') op) = occurrences op (\<lambda>d err. True) (history s) \<and>
      errors (stat_at (totals c') op) = occurrences op (\<lambda>d err. err \<noteq> None) (history s) \<and>
      (\<forall>us. mget (lat (stat_at (totals c') op)) us = occurrences op (\<lambda>d err. err = None \<and> us = to_micros d) (history s))"
    using Finalize_history [OF r dist dr, of now 0] d by (auto simp: Finalize_def)
  have t: "table_ok names (totals (coll s))" using ok by (simp add: sys_ok_def)
  have same: "same_stats (stat_at m op) (window_stats w op)" if "op \<in> set names" for op
    using tot tot' that dm(2) h by (intro drained_merge [OF t dm(1) that, of h]) auto
  have ws: "\<forall>(op, d, err) \<in> set w. op \<in> set names" using ok h by (auto simp: sys_ok_def)
  have cnt: "count (stat_at m op) = occurrences op (\<lambda>d err. True) w"
      "errors (stat_at m op) = occurrences op (\<lambda>d err. err \<noteq> None) w" if "op \<in> set names" for op
    using same [OF that] by (simp_all add: same_stats_def window_stats_ok)
  have sums: "foldl (\<lambda>n (op, s). n + count s) 0 m = int (length w)"
      "foldl (\<lambda>n (op, s). n + errors s) 0 m = int (length (filter (\<lambda>(op, d, err). err \<noteq> None) w))"
    using foldl_window [OF dm(1) dist, of count] foldl_window [OF dm(1) dist, of errors] cnt
      occurrences_all [OF ws dist, of "\<lambda>d err. True"] occurrences_all [OF ws dist, of "\<lambda>d err. err \<noteq> None"]
    by (simp_all add: window_sum_def split_def cong: map_cong)
  have "\<forall>op \<in> set names. \<exists>s s'. map_of m op = Some s \<and> Some (window_stats w op) = Some s' \<and> same_stats s s'"
    using same table_ok_Some(1) [OF dm(1)] by blast
  note R = render_cong [OF this]
  obtain out where out: "render clock now window (start (coll s)) (length (workers (coll s))) pool (int (length w))
      (int (length (filter (\<lambda>(op, d, err). err \<noteq> None) w))) names (map_of m) = Some out" using R(2) by blast
  have "print clock now window pool (coll s) = Some (out, c')"
    using d out by (simp add: print_def dm(3,4,5) sums)
  moreover have "drained names (s\<lparr>coll := c'\<rparr>) []" using tot' by (auto simp: drained_def)
  ultimately show ?thesis using out R(1) reach_rtranclp [OF r run] dm(4,5) by metis
qed

subsection \<open>The whole loop\<close>

definition calls_ok :: "nat \<Rightarrow> string list \<Rightarrow> (nat \<times> observation) list \<Rightarrow> bool" where
  "calls_ok n names rs = list_all (\<lambda>(i, op, d, err). i < n \<and> op \<in> set names) rs"

lemma record_calls_run:
  assumes "reach (sys_init names) sys_step s" "distinct names" "drainer s = None" "drained names s w"
    "calls_ok (length (workers (coll s))) names rs"
  shows "\<exists>s'. record_calls rs (coll s) = Some (coll s') \<and> reach (sys_init names) sys_step s' \<and> drainer s' = None \<and>
     drained names s' (w @ map snd rs) \<and> start (coll s') = start (coll s) \<and>
     length (workers (coll s')) = length (workers (coll s))"
  using assms
proof (induction rs arbitrary: s w)
  case Nil
  then show ?case by auto
next
  case (Cons x rs)
  obtain i op d err where x: "x = (i, op, d, err)" by (metis prod_cases4)
  have i: "i < length (workers (coll s))" "op \<in> set names" using Cons.prems(5) by (auto simp: calls_ok_def x)
  have ok: "sys_ok names s" using Cons.prems(1,2) by (rule reach_sys_ok)
  then have n: "ops (coll s) = names" and tw: "table_ok names (data (workers (coll s) ! i))"
    using i by (auto simp: sys_ok_def)
  obtain ws where ws: "Record (workers (coll s) ! i) op d err = Some ws" using Record_ok(1) [OF tw i(2)] by blast
  let ?s = "s\<lparr>coll := (coll s)\<lparr>workers := (workers (coll s))[i := ws]\<rparr>, history := history s @ [(op, d, err)]\<rparr>"
  have st: "sys_step s ?s" using record_call [OF i(1) _ ws] i(2) n by simp
  have "drained names ?s (w @ [(op, d, err)])" using Cons.prems(4) by (fastforce simp: drained_def)
  then have "\<exists>s'. record_calls rs (coll ?s) = Some (coll s') \<and> reach (sys_init names) sys_step s' \<and> drainer s' = None \<and>
     drained names s' ((w @ [(op, d, err)]) @ map snd rs) \<and> start (coll s') = start (coll ?s) \<and>
     length (workers (coll s')) = length (workers (coll ?s))"
    using Cons.prems reach.next_step [OF Cons.prems(1) st] by (intro Cons.IH) (simp_all add: calls_ok_def)
  then show ?case using i ws by (simp add: x)
qed

lemma summary_loop_run:
  assumes "reach (sys_init names) sys_step s" "distinct names" "drainer s = None" "drained names s []"
    "list_all (\<lambda>t. calls_ok (length (workers (coll s))) names (recorded t)) ts"
    "\<forall>t \<in> set ts. length (recorded t) \<le> 2 ^ 40"
  shows "\<exists>outs c'. summary_loop clock interval ts (coll s) = Some (outs, c') \<and>
     outs = map (summary_text clock interval (start (coll s)) (length (workers (coll s))) names)
       (takeWhile (\<lambda>t. \<not> ctx_done t) ts)"
  using assms
proof (induction ts arbitrary: s)
  case (Cons t ts)
  have c: "calls_ok (length (workers (coll s))) names (recorded t)" using Cons.prems(5) by simp
  obtain s1 where s1: "record_calls (recorded t) (coll s) = Some (coll s1)" "reach (sys_init names) sys_step s1"
      "drainer s1 = None" "drained names s1 (map snd (recorded t))" "start (coll s1) = start (coll s)"
      "length (workers (coll s1)) = length (workers (coll s))"
    using record_calls_run [OF Cons.prems(1-4) c] by auto
  show ?case
  proof (cases "ctx_done t")
    case True
    then show ?thesis using s1(1) by simp
  next
    case False
    obtain out c' where p: "print clock (fired t) interval (pool_stat t) (coll s1) = Some (out, c')"
        "summary_text clock interval (start (coll s)) (length (workers (coll s))) names t = out"
        "reach (sys_init names) sys_step (s1\<lparr>coll := c'\<rparr>)" "drained names (s1\<lparr>coll := c'\<rparr>) []"
        "start c' = start (coll s)" "length (workers c') = length (workers (coll s))"
      using print_window [OF s1(2) Cons.prems(2) s1(3,4), of clock "fired t" interval "pool_stat t"] s1(5,6) Cons.prems(6)
      render_window [of t clock interval "start (coll s)" "length (workers (coll s))" names]
      by auto
    have "\<exists>outs c''. summary_loop clock interval ts (coll (s1\<lparr>coll := c'\<rparr>)) = Some (outs, c'') \<and>
       outs = map (summary_text clock interval (start (coll (s1\<lparr>coll := c'\<rparr>))) (length (workers (coll (s1\<lparr>coll := c'\<rparr>)))) names)
         (takeWhile (\<lambda>t. \<not> ctx_done t) ts)"
      using Cons.prems s1(3) p by (intro Cons.IH) simp_all
    then show ?thesis using False s1(1) p by auto
  qed
qed simp

lemma started_collector_run:
  shows "reach (sys_init names) sys_step \<lparr>coll = started_collector now names n, drainer = None, history = []\<rparr> \<and>
     length (workers (started_collector now names n)) = n \<and> start (started_collector now names n) = now \<and>
     totals (started_collector now names n) = fresh_stats names"
proof (induction n)
  case 0
  have "sys_init names \<lparr>coll = NewStatsCollector now names, drainer = None, history = []\<rparr>" by (auto simp: sys_init_def)
  then show ?case by (auto simp: started_collector_def NewStatsCollector_def intro: reach.start)
next
  case (Suc n)
  let ?s = "\<lparr>coll = started_collector now names n, drainer = None, history = []\<rparr>"
  have "sys_step ?s (?s\<lparr>coll := NewWorkerStats (coll ?s)\<rparr>)" by (rule new_worker) simp
  then have "reach (sys_init names) sys_step (?s\<lparr>coll := NewWorkerStats (coll ?s)\<rparr>)"
    using Suc reach.next_step by metis
  then show ?case using Suc by (simp add: started_collector_def NewWorkerStats_def)
qed

section \<open>Properties\<close>

text \<open>
  C22: The console tells the truth. For any number of workers and whatever they record, up to \<open>2 ^ 40\<close>
  operations per window, the summary loop never panics and prints one summary per tick until
  the context is done. Each is, line by line, what the observations since the previous summary
  say: the total number of operations, its rate and the errors; and for every operation, in the
  order of the profile, its name, the number of its attempts, the number of its failures, its rate, and for
  50, 95 and 99 percent the latency of that nearest rank among its successes, in milliseconds
  with one decimal, or a dash if and only if no attempt of it succeeded. Windows, workers and
  merging leave no trace in the output.
\<close>

theorem summary_loop_faithful:
  assumes "0 < interval" and "distinct names" and "list_all (\<lambda>t. calls_ok n names (recorded t)) ts"
    and "\<forall>t \<in> set ts. length (recorded t) \<le> 2 ^ 40"
  shows "\<exists>outs c'. RunSummaryLoop clock interval ts (started_collector now names n) = Some (outs, c') \<and>
     outs = map (summary_text clock interval now n names) (takeWhile (\<lambda>t. \<not> ctx_done t) ts)"
proof -
  let ?s = "\<lparr>coll = started_collector now names n, drainer = None, history = []\<rparr>"
  note r = started_collector_run [of names now n]
  have "drained names ?s []"
    using r by (simp add: drained_def fresh_stats_ok(2)) (simp add: opStats_zero_def)
  then show ?thesis
    using summary_loop_run [of names ?s ts clock interval] r assms by (simp add: RunSummaryLoop_def)
qed

text \<open>One operation that failed, and one that succeeded after an eighth of a second.\<close>

definition demo_tick :: "bool \<Rightarrow> summary_tick" where
  "demo_tick stop = \<lparr>recorded = [(0, ''delete'', 1 / 8, Some ErrCanceled), (0, ''insert'', 1 / 8, None)], ctx_done = stop,
     fired = 1000000000, pool_stat = None\<rparr>"

lemma demo_micros: "to_micros (1 / 8) = 125000"
  by code_simp

lemma demo_cells: "successes (map snd (recorded (demo_tick False))) ''insert'' = [125000]"
    "successes (map snd (recorded (demo_tick False))) ''delete'' = []"
  by (simp_all add: successes_def demo_tick_def demo_micros)

lemma demo_counts: "attempts (map snd (recorded (demo_tick False))) ''insert'' = 1"
    "attempts (map snd (recorded (demo_tick False))) ''delete'' = 1"
    "failures (map snd (recorded (demo_tick False))) ''insert'' = 0"
    "failures (map snd (recorded (demo_tick False))) ''delete'' = 1"
  by (simp_all add: attempts_def failures_def demo_tick_def)

lemma demo_formats: "pad_left 6 (cell_text 50 [125000]) = '' 125.0''" "pad_left 6 (cell_text 95 [125000]) = '' 125.0''"
    "pad_left 6 (cell_text 99 [125000]) = '' 125.0''" "pad_left 7 (fixed1 (fdiv (f64_of_int 1) (seconds 1000000000))) = ''    1.0''"
    "pad_left 6 em_dash = ''     '' @ em_dash" "pad_left 6 (itoa 1) = ''     1''" "pad_left 6 (itoa 0) = ''     0''"
    "pad_right 12 ''insert'' = ''insert      ''" "pad_right 12 ''delete'' = ''delete      ''"
  by code_simp+

lemma demo_texts:
  "total_text 1000000000 (map snd (recorded (demo_tick False))) = ''  total       2 ops   2.0 ops/s   errors: 1''"
  "row_text 1000000000 (map snd (recorded (demo_tick False))) ''insert'' =
     table_line [''insert      '', ''     1'', ''     0'', ''    1.0'', '' 125.0'', '' 125.0'', '' 125.0'']"
  "row_text 1000000000 (map snd (recorded (demo_tick False))) ''delete'' =
     table_line [''delete      '', ''     1'', ''     1'', ''    1.0'',
       ''     '' @ em_dash, ''     '' @ em_dash, ''     '' @ em_dash]"
proof -
  have "cell_text k [] = em_dash" for k by (simp add: cell_text_def)
  then show "row_text 1000000000 (map snd (recorded (demo_tick False))) ''insert'' =
     table_line [''insert      '', ''     1'', ''     0'', ''    1.0'', '' 125.0'', '' 125.0'', '' 125.0'']"
    "row_text 1000000000 (map snd (recorded (demo_tick False))) ''delete'' =
     table_line [''delete      '', ''     1'', ''     1'', ''    1.0'',
       ''     '' @ em_dash, ''     '' @ em_dash, ''     '' @ em_dash]"
    unfolding row_text_def demo_counts demo_cells demo_formats by (simp_all only: demo_formats)
qed code_simp

theorem summary_loop_faithful_witness:
  "\<exists>out c'. RunSummaryLoop (\<lambda>t. ''12:00:01'') 1000000000 [demo_tick False, demo_tick True]
       (started_collector 0 [''insert'', ''delete''] 1) = Some ([out], c') \<and>
     out ! 3 = ''  total       2 ops   2.0 ops/s   errors: 1'' \<and>
     out ! 7 = table_line [''insert      '', ''     1'', ''     0'', ''    1.0'', '' 125.0'', '' 125.0'', '' 125.0''] \<and>
     out ! 8 = table_line [''delete      '', ''     1'', ''     1'', ''    1.0'',
       ''     '' @ em_dash, ''     '' @ em_dash, ''     '' @ em_dash]"
proof -
  let ?c = "\<lambda>t :: int. ''12:00:01''" and ?n = "[''insert'', ''delete'']"
  have calls: "list_all (\<lambda>t. calls_ok 1 ?n (recorded t)) [demo_tick False, demo_tick True]"
    by code_simp
  have tw: "takeWhile (\<lambda>t. \<not> ctx_done t) [demo_tick False, demo_tick True] = [demo_tick False]"
    by (simp add: demo_tick_def)
  have len: "\<forall>t \<in> set [demo_tick False, demo_tick True]. length (recorded t) \<le> 2 ^ 40" by (simp add: demo_tick_def)
  obtain c' where "RunSummaryLoop ?c 1000000000 [demo_tick False, demo_tick True] (started_collector 0 ?n 1) =
      Some ([summary_text ?c 1000000000 0 1 ?n (demo_tick False)], c')"
    using summary_loop_faithful [OF _ _ calls len, of 1000000000 ?c 0] unfolding tw by auto
  moreover have "(\<lambda>out. (out ! 3, out ! 7, out ! 8)) (summary_text ?c 1000000000 0 1 ?n (demo_tick False)) =
      (''  total       2 ops   2.0 ops/s   errors: 1'',
       table_line [''insert      '', ''     1'', ''     0'', ''    1.0'', '' 125.0'', '' 125.0'', '' 125.0''],
       table_line [''delete      '', ''     1'', ''     1'', ''    1.0'',
        ''     '' @ em_dash, ''     '' @ em_dash, ''     '' @ em_dash])"
    by (simp add: summary_text_def Let_def demo_texts)
  ultimately show ?thesis by simp
qed

end
