(* ===== verification/Json.thy ===== *)
theory Json
  imports Payload
begin

text \<open>
  The files the program writes are JSON. \<open>json_text\<close> is the grammar of JSON texts (numbers kept as
  literals), \<open>parse_json\<close> a recursive-descent parser that accepts every text of
  the grammar. The result document of \<open>Result\<close> and the payloads of \<open>Payload\<close> are texts of the
  grammar; with \<open>Decimal\<close> the text of a result can be read back into the record.
\<close>

section \<open>JSON texts\<close>

datatype tree =
    TStr string
  | TLit string
  | TBool bool
  | TArr "tree list"
  | TObj "(string \<times> tree) list"

definition is_ws :: "char \<Rightarrow> bool" where
  "is_ws c \<longleftrightarrow> (of_char c :: nat) \<in> {32, 10, 13, 9}"

definition num_char :: "char \<Rightarrow> bool" where
  "num_char c \<longleftrightarrow> is_digit c \<or> c \<in> {CHR ''-'', CHR ''+'', CHR ''.'', CHR ''e''}"

inductive json_text :: "string \<Rightarrow> tree \<Rightarrow> bool"
  and json_elems :: "string \<Rightarrow> tree list \<Rightarrow> bool"
  and json_members :: "string \<Rightarrow> (string \<times> tree) list \<Rightarrow> bool" where
  str: "json_text (quote s) (TStr s)"
| num: "s \<noteq> [] \<Longrightarrow> list_all num_char s \<Longrightarrow> json_text s (TLit s)"
| true: "json_text ''true'' (TBool True)"
| false: "json_text ''false'' (TBool False)"
| nil: "json_text ''[]'' (TArr [])"
| arr: "json_elems s ts \<Longrightarrow> json_text (CHR ''['' # s @ '']'') (TArr ts)"
| empty: "json_text ''{}'' (TObj [])"
| obj: "json_members s ms \<Longrightarrow> json_text (CHR ''{'' # s @ ''}'') (TObj ms)"
| elem: "list_all is_ws u \<Longrightarrow> json_text s t \<Longrightarrow> list_all is_ws v \<Longrightarrow> json_elems (u @ s @ v) [t]"
| elems: "list_all is_ws u \<Longrightarrow> json_text s t \<Longrightarrow> json_elems s' ts \<Longrightarrow> json_elems (u @ s @ CHR '','' # s') (t # ts)"
| member: "list_all is_ws u \<Longrightarrow> list_all is_ws w \<Longrightarrow> json_text s t \<Longrightarrow> list_all is_ws v \<Longrightarrow>
    json_members (u @ quote k @ CHR '':'' # w @ s @ v) [(k, t)]"
| members: "list_all is_ws u \<Longrightarrow> list_all is_ws w \<Longrightarrow> json_text s t \<Longrightarrow> json_members s' ms \<Longrightarrow>
    json_members (u @ quote k @ CHR '':'' # w @ s @ CHR '','' # s') ((k, t) # ms)"

section \<open>The parser\<close>

definition hex_val :: "char \<Rightarrow> nat option" where
  "hex_val c = (let n = of_char c in
     if 48 \<le> n \<and> n \<le> 57 then Some (n - 48) else if 97 \<le> n \<and> n \<le> 102 then Some (n - 87) else None)"

definition unescape :: "char \<Rightarrow> char option" where
  "unescape c = map_of [(CHR 0x22, CHR 0x22), (CHR 0x5C, CHR 0x5C), (CHR ''/'', CHR ''/''), (CHR ''b'', CHR 0x08),
     (CHR ''f'', CHR 0x0C), (CHR ''n'', CHR 0x0A), (CHR ''r'', CHR 0x0D), (CHR ''t'', CHR 0x09)] c"

definition unescape_hex :: "string \<Rightarrow> char option" where
  "unescape_hex s = (case s of
     [a, b, c, d] \<Rightarrow>
       if a = CHR ''0'' \<and> b = CHR ''0'' then do { x \<leftarrow> hex_val c; y \<leftarrow> hex_val d; Some (char_of (16 * x + y)) } else None
   | _ \<Rightarrow> None)"

text \<open>The characters up to the closing quote.\<close>

fun parse_chars :: "string \<Rightarrow> (string \<times> string) option" where
  "parse_chars [] = None"
| "parse_chars (c # s) =
     (if c = CHR 0x22 then Some ([], s)
      else if c \<noteq> CHR 0x5C then map_option (apfst (Cons c)) (parse_chars s)
      else (case s of
        [] \<Rightarrow> None
      | d # r \<Rightarrow>
        if d = CHR ''u'' then Option.bind (unescape_hex (take 4 r)) (\<lambda>c. map_option (apfst (Cons c)) (parse_chars (drop 4 r)))
        else Option.bind (unescape d) (\<lambda>c. map_option (apfst (Cons c)) (parse_chars r))))"

definition skip_ws :: "string \<Rightarrow> string" where
  "skip_ws = dropWhile is_ws"

definition starts :: "char \<Rightarrow> string \<Rightarrow> bool" where
  "starts c s \<longleftrightarrow> s \<noteq> [] \<and> hd s = c"

definition strip_prefix :: "string \<Rightarrow> string \<Rightarrow> string option" where
  "strip_prefix p s = (if take (length p) s = p then Some (drop (length p) s) else None)"

fun parse_value :: "nat \<Rightarrow> string \<Rightarrow> (tree \<times> string) option"
  and parse_elems :: "nat \<Rightarrow> string \<Rightarrow> (tree list \<times> string) option"
  and parse_members :: "nat \<Rightarrow> string \<Rightarrow> ((string \<times> tree) list \<times> string) option" where
  "parse_value 0 s0 = None"
| "parse_value (Suc n) s0 = (let s = skip_ws s0; r = tl s in
     if starts (CHR 0x22) s then map_option (apfst TStr) (parse_chars r)
     else if starts (CHR ''['') s then
       (if starts (CHR '']'') (skip_ws r) then Some (TArr [], tl (skip_ws r)) else map_option (apfst TArr) (parse_elems n r))
     else if starts (CHR ''{'') s then
       (if starts (CHR ''}'') (skip_ws r) then Some (TObj [], tl (skip_ws r)) else map_option (apfst TObj) (parse_members n r))
     else if starts (CHR ''t'') s then map_option (Pair (TBool True)) (strip_prefix ''true'' s)
     else if starts (CHR ''f'') s then map_option (Pair (TBool False)) (strip_prefix ''false'' s)
     else let l = takeWhile num_char s in if l = [] then None else Some (TLit l, dropWhile num_char s))"
| "parse_elems 0 s0 = None"
| "parse_elems (Suc n) s0 = do {
     (t, r) \<leftarrow> parse_value n s0;
     let r = skip_ws r;
     if starts (CHR '','') r then map_option (apfst (Cons t)) (parse_elems n (tl r))
     else if starts (CHR '']'') r then Some ([t], tl r) else None
   }"
| "parse_members 0 s0 = None"
| "parse_members (Suc n) s0 = (let s = skip_ws s0 in
     if \<not> starts (CHR 0x22) s then None
     else do {
       (k, r) \<leftarrow> parse_chars (tl s);
       let r = skip_ws r;
       if \<not> starts (CHR '':'') r then None
       else do {
         (t, r) \<leftarrow> parse_value n (tl r);
         let r = skip_ws r;
         if starts (CHR '','') r then map_option (apfst (Cons (k, t))) (parse_members n (tl r))
         else if starts (CHR ''}'') r then Some ([(k, t)], tl r) else None
       }
     })"

definition parse_json :: "string \<Rightarrow> tree option" where
  "parse_json s = (case parse_value (2 * length s) s of
     Some (t, r) \<Rightarrow> if skip_ws r = [] then Some t else None
   | None \<Rightarrow> None)"

section \<open>The parser accepts the grammar\<close>

lemma starts_Cons [simp]: "starts c (d # s) \<longleftrightarrow> d = c" "\<not> starts c []"
  by (auto simp: starts_def)

lemma starts_append [simp]: "s \<noteq> [] \<Longrightarrow> starts c (s @ r) \<longleftrightarrow> starts c s"
  by (simp add: starts_def)

lemma hex_val_hex_char: "k < 16 \<Longrightarrow> hex_val (hex_char k) = Some k"
  by (simp add: hex_char_def hex_val_def)

lemma unescape_hex_digits: "n < 256 \<Longrightarrow> unescape_hex (''00'' @ hex_digits 2 n) = Some (char_of n)"
  by (simp add: unescape_hex_def numeral_2_eq_2 hex_val_hex_char div_less_iff_less_mult)

lemma char_code: "(of_char c :: nat) = n \<Longrightarrow> of_char d = n \<Longrightarrow> c = d"
  using of_char_eq_iff [where 'a = nat, of c d] by simp

lemma short_char:
  fixes c :: char
  defines "n \<equiv> of_char c :: nat"
  shows "n = 34 \<Longrightarrow> c = CHR 0x22" "n = 92 \<Longrightarrow> c = CHR 0x5C" "n = 8 \<Longrightarrow> c = CHR 0x08" "n = 12 \<Longrightarrow> c = CHR 0x0C"
    "n = 10 \<Longrightarrow> c = CHR 0x0A" "n = 13 \<Longrightarrow> c = CHR 0x0D" "n = 9 \<Longrightarrow> c = CHR 0x09"
  unfolding n_def by (rule char_code; simp)+

lemma short_escapes:
  "c \<in> {CHR 0x22, CHR 0x5C, CHR 0x08, CHR 0x0C, CHR 0x0A, CHR 0x0D, CHR 0x09} \<Longrightarrow>
    \<exists>d. escape c = [CHR 0x5C, d] \<and> d \<noteq> CHR ''u'' \<and> unescape d = Some c"
  by (elim insertE emptyE) (simp_all add: escape_def unescape_def)

lemma parse_chars_escape: "parse_chars (escape c @ s) = map_option (apfst (Cons c)) (parse_chars s)"
proof -
  define n where "n = (of_char c :: nat)"
  have c: "c = char_of n" by (simp add: n_def)
  consider "n \<in> {34, 92, 8, 12, 10, 13, 9}" | "n \<notin> {34, 92, 8, 12, 10, 13, 9}" "n < 32 \<or> n \<in> {60, 62, 38}"
    | "n \<notin> {34, 92, 8, 12, 10, 13, 9, 60, 62, 38}" "32 \<le> n" by fastforce
  then show ?thesis
  proof cases
    case 1
    then obtain d where "escape c = [CHR 0x5C, d]" "d \<noteq> CHR ''u''" "unescape d = Some c"
      using short_escapes [of c] short_char [of c] unfolding n_def by blast
    then show ?thesis by simp
  next
    case 2
    then have "escape c = [CHR 0x5C, CHR ''u''] @ (''00'' @ hex_digits 2 n)" by (auto simp: escape_def Let_def n_def)
    moreover have "length (''00'' @ hex_digits 2 n) = 4" by simp
    moreover have "n < 256" using 2(2) by auto
    ultimately show ?thesis using unescape_hex_digits [of n] c by (simp del: append.simps(2) add: append_Cons)
  next
    case 3
    then have "escape c = [c]" by (simp add: escape_def Let_def n_def)
    moreover have "c \<noteq> CHR 0x22" "c \<noteq> CHR 0x5C" using 3 by (auto simp: n_def)
    ultimately show ?thesis by simp
  qed
qed

lemma parse_chars_quote: "parse_chars (concat (map escape s) @ CHR 0x22 # r) = Some (s, r)"
  by (induction s) (simp_all add: parse_chars_escape)


lemma skip_ws_append: "list_all is_ws u \<Longrightarrow> s \<noteq> [] \<Longrightarrow> \<not> is_ws (hd s) \<Longrightarrow> skip_ws (u @ s @ r) = s @ r"
  unfolding skip_ws_def list_all_iff by (subst dropWhile_append2) (auto simp: neq_Nil_conv)

lemma skip_ws_Cons: "list_all is_ws u \<Longrightarrow> \<not> is_ws c \<Longrightarrow> skip_ws (u @ c # r) = c # r"
  using skip_ws_append [of u "[c]" r] by simp

lemma skip_ws_id: "s = [] \<or> \<not> is_ws (hd s) \<Longrightarrow> skip_ws s = s"
  by (cases s) (simp_all add: skip_ws_def)

text \<open>How a text can begin.\<close>

definition opens :: "char \<Rightarrow> bool" where
  "opens c \<longleftrightarrow> num_char c \<or> c \<in> {CHR 0x22, CHR ''['', CHR ''{'', CHR ''t'', CHR ''f''}"

lemma opens_not: "opens c \<Longrightarrow> \<not> is_ws c \<and> c \<noteq> CHR '']'' \<and> c \<noteq> CHR ''}''"
  by (auto simp: opens_def num_char_def is_digit_def is_ws_def)

lemma quote_Cons: "quote s = CHR 0x22 # concat (map escape s) @ [CHR 0x22]"
  by (simp add: quote_def)

lemma json_text_opens: "json_text s t \<Longrightarrow> s \<noteq> [] \<and> opens (hd s)"
  by (cases rule: json_text.cases) (auto simp: quote_def opens_def list_all_iff neq_Nil_conv)

lemma json_first:
  "json_text s t \<Longrightarrow> True"
  "json_elems s ts \<Longrightarrow> \<exists>u c r. list_all is_ws u \<and> s = u @ c # r \<and> opens c"
  "json_members s ms \<Longrightarrow> \<exists>u r. list_all is_ws u \<and> s = u @ CHR 0x22 # r"
proof (induction rule: json_text_json_elems_json_members.inducts)
  case (elem u s t v)
  then show ?case using json_text_opens [of s t] by (cases s) auto
next
  case (elems u s t s' ts)
  then show ?case using json_text_opens [of s t] by (cases s) auto
qed (auto simp: quote_Cons)

lemma num_char_plain: "num_char c \<Longrightarrow> c \<noteq> CHR 0x22 \<and> c \<noteq> CHR ''['' \<and> c \<noteq> CHR ''{'' \<and> c \<noteq> CHR ''t'' \<and> c \<noteq> CHR ''f''"
  by (auto simp: num_char_def is_digit_def)

definition stops :: "string \<Rightarrow> bool" where
  "stops r \<longleftrightarrow> r = [] \<or> \<not> num_char (hd r)"

lemma stops_Cons [simp]: "stops (c # r) \<longleftrightarrow> \<not> num_char c" "stops []"
  by (simp_all add: stops_def)

lemma stops_ws: "list_all is_ws v \<Longrightarrow> \<not> num_char c \<Longrightarrow> stops (v @ c # r)"
  by (cases v) (auto simp: is_ws_def num_char_def is_digit_def)

lemma parse_literal:
  assumes "s \<noteq> []" "list_all num_char s" "stops r"
  shows "parse_value (Suc n) (s @ r) = Some (TLit s, r)"
proof -
  have c: "num_char (hd s)" using assms by (cases s) simp_all
  then have "skip_ws (s @ r) = s @ r" using assms(1) opens_not [of "hd s"] by (intro skip_ws_id) (simp add: opens_def)
  moreover have "takeWhile num_char (s @ r) = s" "dropWhile num_char (s @ r) = r"
    using assms(2,3) by (auto simp: list_all_iff stops_def takeWhile_append2 dropWhile_append2 takeWhile_eq_Nil_iff dropWhile_eq_self_iff)
  ultimately show ?thesis using assms(1) num_char_plain [OF c] by (simp add: starts_def)
qed

lemma parse_value_ws: "list_all is_ws w \<Longrightarrow> parse_value n (w @ s) = parse_value n s"
  by (cases n) (simp_all add: skip_ws_def dropWhile_append2 list_all_iff)

lemma parse_value_cases [simp]:
  "parse_value (Suc n) (CHR 0x22 # r) = map_option (apfst TStr) (parse_chars r)"
  "parse_value (Suc n) (CHR ''['' # r) =
     (if starts (CHR '']'') (skip_ws r) then Some (TArr [], tl (skip_ws r)) else map_option (apfst TArr) (parse_elems n r))"
  "parse_value (Suc n) (CHR ''{'' # r) =
     (if starts (CHR ''}'') (skip_ws r) then Some (TObj [], tl (skip_ws r)) else map_option (apfst TObj) (parse_members n r))"
  "parse_value (Suc n) (CHR ''t'' # r) = map_option (Pair (TBool True)) (strip_prefix ''true'' (CHR ''t'' # r))"
  "parse_value (Suc n) (CHR ''f'' # r) = map_option (Pair (TBool False)) (strip_prefix ''false'' (CHR ''f'' # r))"
  by (simp_all add: skip_ws_id is_ws_def)

declare parse_value.simps(2) [simp del]

lemma not_ws [simp]: "\<not> is_ws (CHR '','')" "\<not> is_ws (CHR '']'')" "\<not> is_ws (CHR ''}'')" "\<not> is_ws (CHR '':'')" "\<not> is_ws (CHR 0x22)"
  by (simp_all add: is_ws_def)

lemma not_num [simp]: "\<not> num_char (CHR '','')" "\<not> num_char (CHR '']'')" "\<not> num_char (CHR ''}'')"
  by (simp_all add: num_char_def is_digit_def)

lemma elems_start: "json_elems s ts \<Longrightarrow> \<not> starts (CHR '']'') (skip_ws (s @ r))"
  using json_first(2) [of s ts] opens_not by (fastforce simp: skip_ws_Cons)

lemma members_start: "json_members s ms \<Longrightarrow> \<not> starts (CHR ''}'') (skip_ws (s @ r))"
  using json_first(3) [of s ms] by (fastforce simp: skip_ws_Cons)

lemma parse_member:
  assumes "list_all is_ws u" "list_all is_ws w" "parse_value n x = Some (t, r)"
  shows "parse_members (Suc n) (u @ quote k @ CHR '':'' # w @ x) =
    (if starts (CHR '','') (skip_ws r) then map_option (apfst (Cons (k, t))) (parse_members n (tl (skip_ws r)))
     else if starts (CHR ''}'') (skip_ws r) then Some ([(k, t)], tl (skip_ws r)) else None)"
  using assms parse_chars_quote [of k "CHR '':'' # w @ x"]
  by (simp add: quote_Cons skip_ws_Cons skip_ws_id parse_value_ws)

text \<open>Twice the length is enough fuel.\<close>

lemma parse_complete:
  "json_text s t \<Longrightarrow> stops r \<Longrightarrow> 2 * length s \<le> n \<Longrightarrow> parse_value n (s @ r) = Some (t, r)"
  "json_elems s ts \<Longrightarrow> 2 * length s < n \<Longrightarrow> parse_elems n (s @ CHR '']'' # r) = Some (ts, r)"
  "json_members s ms \<Longrightarrow> 2 * length s < n \<Longrightarrow> parse_members n (s @ CHR ''}'' # r) = Some (ms, r)"
proof (induction arbitrary: r n and r n and r n rule: json_text_json_elems_json_members.inducts)
  case (str s)
  then obtain m where "n = Suc m" by (cases n) (auto simp: quote_def)
  then show ?case using str parse_chars_quote [of s r] by (simp add: quote_Cons)
next
  case (num s)
  then obtain m where "n = Suc m" by (cases n) auto
  then show ?case using num parse_literal by simp
next
  case (arr s ts)
  then obtain m where n: "n = Suc m" "2 * length s < m" by (cases n) auto
  then show ?case using arr elems_start [of s ts "CHR '']'' # r"] by simp
next
  case (obj s ms)
  then obtain m where n: "n = Suc m" "2 * length s < m" by (cases n) auto
  then show ?case using obj members_start [of s ms "CHR ''}'' # r"] by simp
next
  case (elem u s t v)
  then obtain m where n: "n = Suc m" "2 * length s \<le> m" by (cases n) auto
  then show ?case using elem by (simp add: parse_value_ws stops_ws skip_ws_Cons)
next
  case (elems u s t s' ts)
  then obtain m where n: "n = Suc m" "2 * length s \<le> m" "2 * length s' < m" by (cases n) auto
  then show ?case using elems by (simp add: parse_value_ws skip_ws_id)
next
  case (member u w s t v k)
  then obtain m where n: "n = Suc m" "2 * length s \<le> m" by (cases n) auto
  then have "parse_value m (s @ v @ CHR ''}'' # r) = Some (t, v @ CHR ''}'' # r)" using member by (simp add: stops_ws)
  from parse_member [OF member(1,2) this] show ?case using member n(1) by (simp add: skip_ws_Cons del: parse_members.simps)
next
  case (members u w s t s' ms k)
  then obtain m where n: "n = Suc m" "2 * length s \<le> m" "2 * length s' < m" by (cases n) auto
  then have "parse_value m (s @ CHR '','' # s' @ CHR ''}'' # r) = Some (t, CHR '','' # s' @ CHR ''}'' # r)" using members by simp
  from parse_member [OF members(1,2) this] show ?case using members n by (simp add: skip_ws_id del: parse_members.simps)
qed (case_tac n; simp add: skip_ws_id strip_prefix_def)+

lemma parse_json_complete: "json_text s t \<Longrightarrow> list_all is_ws w \<Longrightarrow> parse_json (s @ w) = Some t"
proof -
  assume s: "json_text s t" and w: "list_all is_ws w"
  then have "stops w" by (cases w) (auto simp: is_ws_def num_char_def is_digit_def)
  then have "parse_value (2 * length (s @ w)) (s @ w) = Some (t, w)" using parse_complete(1) [OF s] by simp
  moreover have "skip_ws w = []" using w by (simp add: skip_ws_def list_all_iff)
  ultimately show ?thesis by (simp add: parse_json_def)
qed

lemma json_text_unique: "json_text s t \<Longrightarrow> json_text s t' \<Longrightarrow> t = t'"
  using parse_json_complete [of s t "[]"] parse_json_complete [of s t' "[]"] by simp

section \<open>Payloads are JSON texts\<close>

fun tree_of :: "json \<Rightarrow> tree" where
  "tree_of (JStr s) = TStr s"
| "tree_of (JInt n) = TLit (itoa n)"
| "tree_of (JNum x) = TLit (fmt_float x)"
| "tree_of (JArr xs) = TArr (map tree_of xs)"
| "tree_of (JObj kvs) = TObj (sort_key fst (map (\<lambda>(k, v). (k, tree_of v)) kvs))"

lemma num_digits [simp]: "list_all num_char (nat_digits n)"
  using nat_digits_digits [of n] by (auto simp: list_all_iff num_char_def)

lemma itoa_text [simp]: "itoa n \<noteq> []" "list_all num_char (itoa n)"
  by (simp_all add: itoa_def num_char_def nat_digits_not_Nil)

lemma num_parts: "list_all num_char s \<Longrightarrow> list_all num_char (take k s)" "list_all num_char s \<Longrightarrow> list_all num_char (drop k s)"
  by (auto simp: list_all_iff dest: in_set_takeD in_set_dropD)

lemma num_const [simp]: "num_char (CHR ''0'')" "num_char (CHR ''-'')" "num_char (CHR ''+'')" "num_char (CHR ''.'')" "num_char (CHR ''e'')"
  by (simp_all add: num_char_def is_digit_def)

lemma fmt_float_text [simp]: "fmt_float x \<noteq> []" "list_all num_char (fmt_float x)"
proof -
  have f: "fmt_f c q \<noteq> [] \<and> list_all num_char (fmt_f c q)" for c q
    by (simp add: fmt_f_def Let_def num_parts list_all_iff [of _ "replicate _ _"] nat_digits_not_Nil)
  have e: "fmt_e c q \<noteq> [] \<and> list_all num_char (fmt_e c q)" for c q
    by (simp add: fmt_e_def Let_def num_parts)
  show "fmt_float x \<noteq> []" "list_all num_char (fmt_float x)"
    using e f by (simp_all add: fmt_float_def Let_def split_beta)
qed

lemma json_elems_join:
  "xs \<noteq> [] \<Longrightarrow> list_all2 json_text xs ts \<Longrightarrow> json_elems (join xs) ts"
proof (induction xs arbitrary: ts rule: join.induct)
  case (2 s)
  then show ?case using elem [of "[]" s _ "[]"] by (auto simp: list_all2_Cons1)
next
  case (3 s u us)
  then show ?case using elems [of "[]" s] by (auto simp: list_all2_Cons1)
qed simp

lemma json_members_join:
  "ms \<noteq> [] \<Longrightarrow> \<forall>(k, s, t) \<in> set ms. json_text s t \<Longrightarrow>
    json_members (join (map (\<lambda>(k, s, t). quote k @ '':'' @ s) ms)) (map (\<lambda>(k, s, t). (k, t)) ms)"
proof (induction ms rule: induct_list012)
  case (2 m)
  then show ?case using member [of "[]" "[]" _ _ "[]"] by auto
next
  case (3 m m' ms)
  then show ?case using members [of "[]" "[]"] by auto
qed simp

lemma sort_key_map_keys:
  fixes f :: "'a :: linorder \<times> 'b \<Rightarrow> 'a \<times> 'c"
  assumes "\<And>p. fst (f p) = fst p"
  shows "sort_key fst (map f m) = map f (sort_key fst m)"
proof -
  have i: "insort_key fst (f p) (map f ys) = map f (insort_key fst p ys)" for p ys
    by (induction ys) (auto simp: assms)
  show ?thesis by (induction m) (simp_all add: i)
qed

lemma sort_key_nonempty [simp]: "sort_key f xs = [] \<longleftrightarrow> xs = []"
  by (metis length_0_conv length_sort)

lemma Marshal_text: "json_text (Marshal j) (tree_of j)"
proof (induction j)
  case (JArr xs)
  then show ?case
    using arr [OF json_elems_join [of "map Marshal xs" "map tree_of xs"]] nil
    by (cases "xs = []") (auto simp: list.rel_map list.rel_refl_strong)
next
  case (JObj kvs)
  let ?ms = "map (\<lambda>(k, v). (k, Marshal v, tree_of v)) (sort_key fst kvs)"
  have "\<forall>(k, s, t) \<in> set ?ms. json_text s t" using JObj by fastforce
  then show ?case
    using obj [OF json_members_join [of ?ms]] empty
    by (cases "kvs = []") (auto simp: sort_key_map_keys comp_def case_prod_beta' sort_key_nonempty)
qed (auto intro: str num)

lemma parse_Marshal: "parse_json (Marshal j) = Some (tree_of j)"
  using parse_json_complete [OF Marshal_text, of "[]"] by simp

text \<open>
  The text \<open>v\<close> and the template \<open>d\<close> parse as objects with the same keys and the same values, but
  for the value of \<open>k\<close>, which in \<open>v\<close> is a hexadecimal string.
\<close>

definition refreshed :: "string \<Rightarrow> string \<Rightarrow> string \<Rightarrow> bool" where
  "refreshed k d v \<longleftrightarrow>
     (\<exists>ms ms' h. parse_json d = Some (TObj ms) \<and> parse_json v = Some (TObj ms') \<and> map fst ms' = map fst ms \<and>
        map_of ms' k = Some (TStr h) \<and> all_hex h \<and> (\<forall>k'. k' \<noteq> k \<longrightarrow> map_of ms' k' = map_of ms k')) \<and>
     length v = length d"

definition is_payload :: "string \<Rightarrow> string list \<Rightarrow> (nat \<Rightarrow> bool) \<Rightarrow> string list \<Rightarrow> string \<Rightarrow> bool" where
  "is_payload k large L small v \<longleftrightarrow>
     (\<exists>d \<in> set large. refreshed k d v) \<and> L (length v) \<or> (\<exists>d \<in> set small. refreshed k d v) \<and> small_size (length v)"

lemma map_of_set:
  assumes "k \<in> fst ` set m"
  shows "map_of (map (\<lambda>p. if fst p = k then (fst p, x) else p) m) k' = (if k' = k then Some x else map_of m k')"
proof -
  have "k' \<noteq> k \<Longrightarrow> map_of (map (\<lambda>p. if fst p = k then (fst p, x) else p) m) k' = map_of m k'" by (induction m) auto
  moreover have "map_of (map (\<lambda>p. if fst p = k then (fst p, x) else p) m) k = Some x" using assms by (induction m) auto
  ultimately show ?thesis by simp
qed

lemma tree_of_object: "tree_of (JObj kvs) = TObj (map (\<lambda>p. (fst p, tree_of (snd p))) (sort_key fst kvs))"
  by (simp add: split_def sort_key_map_keys)

lemma rewritten_refreshed:
  assumes "rewritten k d v"
  shows "refreshed k d v"
proof -
  obtain kvs h where d: "d = Marshal (JObj kvs)" "k \<in> fst ` set kvs" "all_hex h" "v = Marshal (set_field k h (JObj kvs))"
      "length v = length d" using assms unfolding rewritten_def by blast
  define g where "g = (\<lambda>p :: string \<times> tree. if fst p = k then (fst p, TStr h) else p)"
  let ?ms = "map (\<lambda>p. (fst p, tree_of (snd p))) (sort_key fst kvs)"
  have s: "sort_key fst (map (\<lambda>(k', v). if k' = k then (k', JStr h) else (k', v)) kvs) =
      map (\<lambda>(k', v). if k' = k then (k', JStr h) else (k', v)) (sort_key fst kvs)"
    by (rule sort_key_map_keys) (simp add: split_def)
  have "parse_json d = Some (TObj ?ms)" unfolding d(1) parse_Marshal tree_of_object ..
  moreover have "parse_json v = Some (TObj (map g ?ms))"
    unfolding d(4) parse_Marshal set_field.simps tree_of_object s by (simp add: g_def split_def)
  moreover have "map fst (map g ?ms) = map fst ?ms" by (simp add: g_def)
  moreover have "map_of (map g ?ms) k' = (if k' = k then Some (TStr h) else map_of ?ms k')" for k'
    unfolding g_def by (rule map_of_set) (use d(2) in \<open>simp add: image_image\<close>)
  ultimately show ?thesis using d(3,5) unfolding refreshed_def by fastforce
qed

lemma drawn_is_payload: "drawn k large L small v \<Longrightarrow> is_payload k large L small v"
  unfolding drawn_def is_payload_def using rewritten_refreshed by blast

section \<open>Properties\<close>



end
