(* ===== verification/Decimal.thy ===== *)
theory Decimal
  imports Payload
begin

text \<open>
  Printed doubles read back. \<open>encoding/json\<close> prints a double with the shortest decimal that
  reads back as the same double; \<open>fmt_float\<close> of \<open>Payload\<close> searches for it with at most 17 digits.
  Here it is shown that 17 digits are always enough, for every finite double, and that reading
  the printed text (\<open>ParseFloat\<close>, which rounds the exact value of the decimal) gives back the double.
\<close>

section \<open>Reading a decimal\<close>

text \<open>The exact value of a JSON number.\<close>

definition parse_exponent :: "string \<Rightarrow> int option" where
  "parse_exponent s = (case s of
     [] \<Rightarrow> Some 0
   | c # t \<Rightarrow>
     if c \<noteq> CHR ''e'' then None
     else (case t of
       [] \<Rightarrow> None
     | d # u \<Rightarrow>
       if d = CHR ''-'' then map_option (\<lambda>n. - int n) (parse_uint u)
       else if d = CHR ''+'' then map_option int (parse_uint u) else None))"

definition parse_unsigned :: "string \<Rightarrow> rat option" where
  "parse_unsigned s = (let ip = takeWhile is_digit s; r = dropWhile is_digit s;
       (fp, r) = (if r \<noteq> [] \<and> hd r = CHR ''.'' then (takeWhile is_digit (tl r), dropWhile is_digit (tl r)) else ([], r))
     in do {
       e \<leftarrow> parse_exponent r;
       m \<leftarrow> parse_uint (ip @ fp);
       Some (of_nat m * 10 powi (e - int (length fp)))
     })"

definition parse_decimal :: "string \<Rightarrow> rat option" where
  "parse_decimal s = (if s \<noteq> [] \<and> hd s = CHR ''-'' then map_option uminus (parse_unsigned (tl s)) else parse_unsigned s)"

definition ParseFloat :: "string \<Rightarrow> float64 option" where
  "ParseFloat s = map_option rne (parse_decimal s)"

text \<open>A finite double.\<close>

definition finite_f64 :: "float64 \<Rightarrow> bool" where
  "finite_f64 x \<longleftrightarrow> is_f64 x \<and> \<bar>x\<bar> < 2 ^ 1024"

section \<open>Rounding near a double\<close>

lemma rnd_even_unique: "\<bar>z - of_int m\<bar> < 1 / 2 \<Longrightarrow> rnd_even z = m"
  using rnd_even_near [of z] by linarith

lemma rne_on_grid:
  assumes "y \<noteq> 0" "x = of_int k * 2 powi ulp_exp y" "\<bar>y - x\<bar> < 2 powi ulp_exp y / 2"
  shows "rne y = x"
proof -
  let ?u = "2 powi ulp_exp y :: rat"
  have "y / ?u - of_int k = (y - x) / ?u" by (simp add: assms(2) diff_divide_distrib)
  then have "\<bar>y / ?u - of_int k\<bar> = \<bar>y - x\<bar> / ?u" by simp
  also have "\<dots> < 1 / 2" using assms(3) by (simp add: divide_less_eq)
  finally have "rnd_even (y / ?u) = k" by (rule rnd_even_unique)
  then show ?thesis using assms(1,2) by (simp add: rne_def)
qed

lemma rne_near:
  assumes x: "0 < x" "rne x = x" and half: "\<bar>y - x\<bar> < 2 powi ulp_exp x / 2"
    and low: "2 powi ilog2 x \<le> y \<or> \<bar>y - x\<bar> < 2 powi ulp_exp x / 4"
  shows "rne y = x"
proof -
  define E u where Eu: "E = ilog2 x" "u = ulp_exp x"
  note half = half [folded Eu] and low = low [folded Eu]
  define m where "m = rnd_even (x / 2 powi u)"
  have xm: "x = of_int m * 2 powi u" using x by (simp add: rne_def m_def Eu split: if_splits)
  then have "0 < rat_of_int m * 2 powi u" using x(1) by metis
  then have "0 < rat_of_int m" using powi_pos by (rule zero_less_mult_pos2)
  then have m: "1 \<le> m" by simp
  then have xu: "2 powi u \<le> x" by (simp add: xm)
  note b = ilog2_bounds [OF x(1), folded Eu]
  have uE: "u \<le> E" using xu b(2) powi_less_iff [of u "E + 1"] by linarith
  have "2 powi u / 2 < (2 :: rat) powi u" by simp
  then have y: "0 < y" using half xu by linarith
  show ?thesis
  proof (cases "2 powi E \<le> y")
    case True
    obtain k where k: "(2 :: rat) powi (E + 1) = of_int k * 2 powi u"
      using powi_multiple [of u "E + 1"] uE by auto
    have "m + 1 \<le> k" using b(2) unfolding k xm by simp
    then have "rat_of_int (m + 1) \<le> of_int k" by (simp only: of_int_le_iff)
    then have "rat_of_int (m + 1) * 2 powi u \<le> of_int k * 2 powi u" by (rule mult_right_mono) simp
    then have "x + 2 powi u \<le> 2 powi (E + 1)" unfolding k xm by (simp add: distrib_right)
    then have "y < 2 powi (E + 1)" using half powi_pos [of u] by linarith
    then have "ilog2 y = E" using True y by (intro ilog2_unique)
    then have "ulp_exp y = u" using x(1) y by (simp add: ulp_exp_def Eu)
    then show ?thesis using rne_on_grid [of y x m] xm half y by simp
  next
    case False
    then have q: "\<bar>y - x\<bar> < 2 powi u / 4" using low by blast
    have "(2 :: rat) powi u \<le> 2 powi E" using uE by simp
    moreover have e: "(2 :: rat) powi (E - 1) = 2 powi E / 2" by (simp add: power_int_diff)
    ultimately have "2 powi (E - 1) \<le> y" using q b(1) by linarith
    then have l: "ilog2 y = E - 1" using False y by (intro ilog2_unique) simp_all
    have v: "ulp_exp y \<le> u" "u - 1 \<le> ulp_exp y" using x(1) y l by (auto simp: ulp_exp_def Eu)
    obtain k where "(2 :: rat) powi u = of_int k * 2 powi ulp_exp y" using powi_multiple [OF v(1)] by blast
    then have g: "x = of_int (m * k) * 2 powi ulp_exp y" by (simp add: xm)
    have "(2 :: rat) powi (u - 1) \<le> 2 powi ulp_exp y" using v(2) by simp
    then have "\<bar>y - x\<bar> < 2 powi ulp_exp y / 2" using q by (simp add: power_int_diff)
    then show ?thesis using rne_on_grid [OF _ g] y by simp
  qed
qed

section \<open>Seventeen digits are enough\<close>

lemma scale10_bounds:
  assumes "10 powi (- int n - 1) \<le> x" "x < 10 powi int n"
  shows "10 powi (scale10 n x e - e - 1) \<le> x \<and> x < 10 powi (scale10 n x e - e)"
  using assms
proof (induction n arbitrary: x e)
  case 0
  then show ?case by (simp add: power_int_minus)
next
  case (Suc n)
  have p: "(10 :: rat) powi (k + 1) = 10 * 10 powi k" "(10 :: rat) powi (k - 1) = 10 powi k / 10" for k
    by (simp_all add: power_int_add power_int_diff)
  have n: "1 \<le> (10 :: rat) powi int n" "(10 :: rat) powi (- int n - 1) \<le> 1 / 10"
    using one_le_power [of "10 :: rat" n] by (simp_all add: power_int_def nat_add_distrib field_simps)
  consider "1 \<le> x" | "x < 1 / 10" | "1 / 10 \<le> x" "x < 1" by linarith
  then show ?case
  proof cases
    case 1
    have "10 powi (- int n - 1) \<le> x / 10" using 1 n(2) by simp
    moreover have "x / 10 < 10 powi int n" using Suc.prems(2) p(1) [of "int n"] by (simp add: add.commute mult.commute)
    ultimately show ?thesis
      using Suc.IH [of "x / 10" "e + 1"] 1 p(1) [of "scale10 n (x / 10) (e + 1) - e - 1"]
        p(1) [of "scale10 n (x / 10) (e + 1) - e - 2"]
      by (simp add: algebra_simps)
  next
    case 2
    have "10 powi (- int n - 1) \<le> x * 10" using Suc.prems(1) p(2) [of "- int n - 1"] by (simp add: algebra_simps)
    moreover have "x * 10 < 10 powi int n" using 2 n(1) by linarith
    ultimately show ?thesis
      using Suc.IH [of "x * 10" "e - 1"] 2 p(1) [of "scale10 n (x * 10) (e - 1) - e"]
        p(1) [of "scale10 n (x * 10) (e - 1) - e - 1"]
      by (simp add: algebra_simps)
  next
    case 3
    then show ?thesis by (simp add: power_int_minus)
  qed
qed

lemma decimal_near:
  assumes x: "0 < x" "rne x = x" and dp: "10 powi (dp - 1) \<le> x" and d: "\<bar>y - x\<bar> \<le> 10 powi (dp - 17) / 2"
  shows "rne y = x"
proof -
  define E u where Eu: "E = ilog2 x" "u = ulp_exp x"
  note b = ilog2_bounds [OF x(1), folded Eu]
  have "(10 :: rat) powi (dp - 17) = 10 powi (dp - 1) / 10 ^ 16" by (simp add: power_int_diff)
  then have r: "20000000000000000 * \<bar>y - x\<bar> \<le> x" using d dp by simp
  have E2: "(2 :: rat) powi (E + 1) = 2 * 2 powi E" by (rule powi_Suc)
  have "E - 52 \<le> u" using x(1) by (simp add: ulp_exp_def Eu)
  then have "(2 :: rat) powi (E - 52) \<le> 2 powi u" by simp
  then have u: "2 powi E \<le> 4503599627370496 * (2 :: rat) powi u" by (simp add: power_int_diff)
  have half: "\<bar>y - x\<bar> < 2 powi u / 2"
  proof -
    define d where "d = \<bar>y - x\<bar>"
    have "20000000000000000 * d < 2 * 2 powi E" using r b(2) unfolding E2 d_def by linarith
    then have "20000000000000000 * d < 9007199254740992 * 2 powi u" using u by linarith
    then show ?thesis using powi_pos [of u] unfolding d_def [symmetric] by linarith
  qed
  have low: "2 powi E \<le> y \<or> \<bar>y - x\<bar> < 2 powi u / 4"
  proof (cases "2 powi E \<le> y")
    case False
    define m where "m = rnd_even (x / 2 powi u)"
    have xm: "x = of_int m * 2 powi u" using x by (simp add: rne_def m_def Eu split: if_splits)
    have "2 powi u \<le> x \<or> x \<le> 0"
    proof (cases "1 \<le> m")
      case True
      then have "1 * 2 powi u \<le> rat_of_int m * 2 powi u" by (intro mult_right_mono) simp_all
      then show ?thesis using xm by simp
    next
      case False
      then have "rat_of_int m * 2 powi u \<le> 0" by (simp add: mult_le_0_iff)
      then show ?thesis using xm by simp
    qed
    then have "u \<le> E" using x(1) b(2) powi_less_iff [of u "E + 1"] by linarith
    then obtain k where k: "(2 :: rat) powi E = of_int k * 2 powi u" using powi_multiple by blast
    have "x - 2 powi E = of_int (m - k) * 2 powi u" using xm k by (simp add: left_diff_distrib)
    moreover have "x - 2 powi E < 1 * 2 powi u" using False half powi_pos [of u] by linarith
    ultimately have "rat_of_int (m - k) < 1" by (metis mult_less_cancel_right_pos powi_pos)
    then have "m \<le> k" by simp
    then have "rat_of_int m * 2 powi u \<le> of_int k * 2 powi u" by (intro mult_right_mono) simp_all
    then have "x = 2 powi E" using xm k b(1) by simp
    then have "20000000000000000 * \<bar>y - x\<bar> \<le> 2 powi E" using r by simp
    moreover define d where "d = \<bar>y - x\<bar>"
    ultimately have "20000000000000000 * d \<le> 4503599627370496 * 2 powi u" using u by (simp only: order_trans)
    then have "d < 2 powi u / 4" using powi_pos [of u] by linarith
    then show ?thesis by (simp add: d_def)
  qed simp
  show ?thesis using x half [unfolded Eu] low [unfolded Eu] by (rule rne_near)
qed

lemma floor_or_ceiling: "\<bar>of_int \<lfloor>z\<rfloor> - z\<bar> \<le> 1 / 2 \<or> \<bar>of_int \<lceil>z\<rceil> - z\<bar> \<le> 1 / 2" for z :: rat
proof (cases "z - of_int \<lfloor>z\<rfloor> \<le> 1 / 2")
  case False
  have "\<lceil>z\<rceil> \<le> \<lfloor>z\<rfloor> + 1" by linarith
  then have "rat_of_int \<lceil>z\<rceil> \<le> of_int (\<lfloor>z\<rfloor> + 1)" by (simp only: of_int_le_iff)
  then show ?thesis using False by simp
qed (simp add: abs_le_iff)

lemma seventeen_digits:
  assumes x: "0 < x" "rne x = x" and dp: "10 powi (dp - 1) \<le> x"
  shows "reads_back x \<lfloor>x * 10 powi (17 - dp)\<rfloor> (dp - 17) \<or> reads_back x \<lceil>x * 10 powi (17 - dp)\<rceil> (dp - 17)"
proof -
  let ?y = "x * 10 powi (17 - dp)" and ?s = "10 powi (dp - 17) :: rat"
  have s: "0 < ?s" by simp
  have "?y * ?s = x * (10 powi (17 - dp) * ?s)" by (simp only: mult.assoc)
  also have "\<dots> = x" by (simp flip: power_int_add)
  finally have y: "?y * ?s = x" .
  have near: "reads_back x c (dp - 17)" if "\<bar>of_int c - ?y\<bar> \<le> 1 / 2" for c
  proof -
    have "of_int c * ?s - x = (of_int c - ?y) * ?s" using y by (simp add: left_diff_distrib)
    then have "\<bar>of_int c * ?s - x\<bar> = \<bar>of_int c - ?y\<bar> * ?s" using s by (simp add: abs_mult)
    also have "\<dots> \<le> 1 / 2 * ?s" using that s by (intro mult_right_mono) simp_all
    also have "\<dots> = ?s / 2" by simp
    finally show ?thesis unfolding reads_back_def by (rule decimal_near [OF x dp])
  qed
  show ?thesis using near floor_or_ceiling [of ?y] by blast
qed

lemma shortest_reads_back:
  assumes x: "0 < x" "rne x = x" and dp: "10 powi (dp - 1) \<le> x" and "p \<le> 17" "17 < n + p"
    and "shortest n p x dp = (c, q)"
  shows "reads_back x c q \<and> 0 \<le> c"
  using assms(4-6)
proof (induction n arbitrary: p)
  case (Suc n)
  let ?y = "x * 10 powi (int p - dp)"
  have y: "0 \<le> ?y" using x(1) by simp
  show ?case
  proof (cases "reads_back x \<lfloor>?y\<rfloor> (dp - int p) \<or> reads_back x \<lceil>?y\<rceil> (dp - int p)")
    case True
    then show ?thesis using Suc.prems(3) y by (auto simp: Let_def split: if_splits)
  next
    case False
    then have "p \<noteq> 17" using seventeen_digits [OF x dp] by auto
    then show ?thesis using False Suc.prems by (intro Suc.IH [of "Suc p"]) (auto simp: Let_def)
  qed
qed simp

section \<open>Reading the printed digits\<close>

lemma strip_zeros_value:
  "strip_zeros n c q = (c', q') \<Longrightarrow> (of_nat c' * 10 powi q' :: rat) = of_nat c * 10 powi q"
proof (induction n arbitrary: c q)
  case (Suc n)
  show ?case
  proof (cases "c \<noteq> 0 \<and> c mod 10 = 0")
    case True
    then have "c div 10 * 10 = c" using div_mult_mod_eq [of c 10] by simp
    then have "(of_nat c :: rat) = of_nat (c div 10) * 10" by (metis of_nat_mult of_nat_numeral)
    then have "(of_nat c * 10 powi q :: rat) = of_nat (c div 10) * 10 powi (q + 1)" by (simp add: power_int_add)
    then show ?thesis using Suc True by simp
  next
    case False
    then show ?thesis using Suc.prems by auto
  qed
qed auto

lemma parse_zeros: "parse_digits a (replicate n (CHR ''0'')) = Some (a * 10 ^ n)"
  by (induction n arbitrary: a) (simp_all add: is_digit_def)

lemma parse_leading: "parse_digits 0 (replicate n (CHR ''0'') @ s) = parse_digits 0 s"
  by (induction n) (simp_all add: is_digit_def)

definition all_digits :: "string \<Rightarrow> bool" where
  "all_digits s = list_all is_digit s"

lemma all_digits_simps [simp]:
  "all_digits []" "all_digits (c # s) \<longleftrightarrow> is_digit c \<and> all_digits s" "all_digits (s @ t) \<longleftrightarrow> all_digits s \<and> all_digits t"
  "all_digits (replicate n (CHR ''0''))" "all_digits (nat_digits k)"
  "all_digits s \<Longrightarrow> all_digits (take n s)" "all_digits s \<Longrightarrow> all_digits (drop n s)"
  using nat_digits_digits [of k]
  by (auto simp: all_digits_def list_all_iff is_digit_def dest: in_set_takeD in_set_dropD)

lemma takeWhile_digits:
  assumes "all_digits s" "r = [] \<or> \<not> is_digit (hd r)"
  shows "takeWhile is_digit (s @ r) = s" "dropWhile is_digit (s @ r) = r"
proof -
  have "takeWhile is_digit (s @ r) = s \<and> dropWhile is_digit (s @ r) = r"
    using assms by (induction s) (cases r; auto)+
  then show "takeWhile is_digit (s @ r) = s" "dropWhile is_digit (s @ r) = r" by auto
qed

definition expo :: "string \<Rightarrow> bool" where
  "expo r \<longleftrightarrow> r = [] \<or> hd r = CHR ''e''"

lemma expo_end: "expo r \<Longrightarrow> r = [] \<or> \<not> is_digit (hd r) \<and> hd r \<noteq> CHR ''.''"
  by (auto simp: expo_def is_digit_def)

lemma parse_plain:
  assumes "all_digits A" "expo r"
  shows "parse_unsigned (A @ r) = do {
    e \<leftarrow> parse_exponent r;
    m \<leftarrow> parse_uint A;
    Some (of_nat m * 10 powi e)
  }"
proof -
  have r: "r = [] \<or> \<not> is_digit (hd r)" "\<not> (r \<noteq> [] \<and> hd r = CHR ''.'')" using expo_end [OF assms(2)] by auto
  show ?thesis
    unfolding parse_unsigned_def takeWhile_digits [OF assms(1) r(1)] Let_def if_not_P [OF r(2)] by simp
qed

lemma parse_point:
  assumes "all_digits A" "all_digits B" "expo r"
  shows "parse_unsigned (A @ CHR ''.'' # B @ r) = do {
    e \<leftarrow> parse_exponent r;
    m \<leftarrow> parse_uint (A @ B);
    Some (of_nat m * 10 powi (e - int (length B)))
  }"
proof -
  have r: "r = [] \<or> \<not> is_digit (hd r)" using expo_end [OF assms(3)] by auto
  have "CHR ''.'' # B @ r = [] \<or> \<not> is_digit (hd (CHR ''.'' # B @ r))" by (simp add: is_digit_def)
  from takeWhile_digits [OF assms(1) this] show ?thesis
    unfolding parse_unsigned_def Let_def by (simp add: takeWhile_digits [OF assms(2) r])
qed

lemma parse_exponent_printed:
  "parse_exponent (CHR ''e'' # (if e < 0 then CHR ''-'' else CHR ''+'') # nat_digits (nat \<bar>e\<bar>)) = Some e"
  by (auto simp: parse_exponent_def parse_uint_def parse_nat_digits)

lemma parse_fmt_e: "parse_unsigned (fmt_e c q) = Some (of_nat c * 10 powi q)"
proof -
  let ?ds = "nat_digits c" let ?e = "q + int (length ?ds) - 1"
  let ?r = "CHR ''e'' # (if ?e < 0 then CHR ''-'' else CHR ''+'') # nat_digits (nat \<bar>?e\<bar>)"
  have r: "expo ?r" by (simp add: expo_def)
  obtain d ds where ds: "?ds = d # ds" using nat_digits_not_Nil by (meson neq_Nil_conv)
  have dg: "all_digits [d]" "all_digits ds" using all_digits_simps(5) [of c] by (simp_all add: ds)
  have u: "parse_uint (d # ds) = Some c" using parse_nat_digits [of c] by (simp add: parse_uint_def ds)
  show ?thesis
  proof (cases "ds = []")
    case True
    then have "fmt_e c q = [d] @ ?r" by (simp add: fmt_e_def ds Let_def)
    then show ?thesis using parse_plain [OF dg(1) r] parse_exponent_printed [of ?e] u True by (simp add: ds)
  next
    case False
    then have "fmt_e c q = [d] @ CHR ''.'' # ds @ ?r" by (simp add: fmt_e_def ds Let_def)
    then show ?thesis using parse_point [OF dg r] parse_exponent_printed [of ?e] u by (simp add: ds)
  qed
qed

lemma parse_fmt_f: "parse_unsigned (fmt_f c q) = Some (of_nat c * 10 powi q)"
proof -
  let ?ds = "nat_digits c" let ?k = "nat (- q)"
  have p: "parse_digits 0 ?ds = Some c" by (rule parse_nat_digits)
  have nil: "expo []" "parse_exponent [] = Some 0" by (simp_all add: expo_def parse_exponent_def)
  consider "0 \<le> q" | "q < 0" "?k < length ?ds" | "q < 0" "length ?ds \<le> ?k" by linarith
  then show ?thesis
  proof cases
    case 1
    then have f: "fmt_f c q = ?ds @ replicate (nat q) (CHR ''0'')" by (simp add: fmt_f_def)
    have "parse_digits 0 (?ds @ replicate (nat q) (CHR ''0'')) = Some (c * 10 ^ nat q)"
      using nat_digits_digits p parse_zeros by (simp add: parse_digits_append)
    then show ?thesis
      using parse_plain [of "?ds @ replicate (nat q) (CHR ''0'')" "[]"] nil 1
      by (simp add: f parse_uint_def power_int_def)
  next
    case 2
    let ?A = "take (length ?ds - ?k) ?ds" let ?B = "drop (length ?ds - ?k) ?ds"
    have "fmt_f c q = ?A @ CHR ''.'' # ?B @ []" using 2 by (simp add: fmt_f_def Let_def)
    moreover have "parse_uint (?A @ ?B) = Some c" using p by (simp add: parse_uint_def)
    moreover have "int (length ?B) = - q" using 2 by simp
    ultimately show ?thesis using parse_point [of ?A ?B "[]"] nil 2(1) by simp
  next
    case 3
    let ?B = "replicate (?k - length ?ds) (CHR ''0'') @ ?ds"
    have f: "fmt_f c q = ''0'' @ CHR ''.'' # ?B @ []" using 3 by (simp add: fmt_f_def Let_def)
    have "parse_uint (''0'' @ ?B) = Some c"
      using p parse_leading [of "Suc (?k - length ?ds)" ?ds] by (simp add: parse_uint_def is_digit_def)
    moreover have "int (length ?B) = - q" using 3 by simp
    ultimately show ?thesis using parse_point [of "''0''" ?B "[]"] nil unfolding f by (simp add: is_digit_def)
  qed
qed

section \<open>Printed doubles read back\<close>

lemma rnd_even_minus: "rnd_even (- z) = - rnd_even z"
proof (cases "z - of_int \<lfloor>z\<rfloor> = 1 / 2")
  case True
  define f where "f = \<lfloor>z\<rfloor>"
  then have z: "z = of_int f + 1 / 2" using True by simp
  have "\<lfloor>- z\<rfloor> = - f - 1" by (rule floor_unique) (simp_all add: z)
  then have "rnd_even (- z) = (if even f then - f else - f - 1)" by (simp add: rnd_even_def Let_def z)
  moreover have "rnd_even z = (if even f then f else f + 1)" unfolding rnd_even_def f_def [symmetric] Let_def by (simp add: z)
  ultimately show ?thesis by simp
next
  case False
  have near: "\<bar>of_int (rnd_even z) - z\<bar> < 1 / 2"
  proof (cases "z - of_int \<lfloor>z\<rfloor> < 1 / 2")
    case True
    then have "rnd_even z = \<lfloor>z\<rfloor>" by (simp add: rnd_even_def Let_def)
    then show ?thesis using True of_int_floor_le [of z] by (simp add: abs_less_iff)
  next
    case big: False
    then have "rnd_even z = \<lfloor>z\<rfloor> + 1" using False by (simp add: rnd_even_def Let_def)
    then show ?thesis using big False floor_correct [of z] by (simp add: abs_less_iff)
  qed
  then have "\<bar>- z - of_int (- rnd_even z)\<bar> < 1 / 2" by (simp add: abs_minus_commute)
  then show ?thesis by (rule rnd_even_unique)
qed

lemma rne_minus: "rne (- x) = - rne x"
  by (simp add: rne_def ulp_exp_def rnd_even_minus)

lemma is_f64_abs: "is_f64 x \<Longrightarrow> is_f64 \<bar>x\<bar>"
proof -
  assume "is_f64 x"
  then obtain m e where "x = of_int m * 2 powi e" "\<bar>m\<bar> \<le> 2 ^ 53" "- 1074 \<le> e" by (auto simp: is_f64_def)
  then have "\<bar>x\<bar> = of_int \<bar>m\<bar> * 2 powi e \<and> \<bar>\<bar>m\<bar>\<bar> \<le> 2 ^ 53 \<and> - 1074 \<le> e"
    by (simp add: abs_mult abs_of_pos [OF powi_pos])
  then show ?thesis unfolding is_f64_def by blast
qed

lemma is_f64_min: "is_f64 x \<Longrightarrow> 0 < x \<Longrightarrow> 2 powi (- 1074) \<le> x"
proof -
  assume "is_f64 x" "0 < x"
  then obtain m e where x: "x = of_int m * 2 powi e" and e: "- 1074 \<le> e" by (auto simp: is_f64_def)
  have "0 < rat_of_int m" using \<open>0 < x\<close> powi_pos unfolding x by (rule zero_less_mult_pos2)
  then have "1 \<le> rat_of_int m" by simp
  then have "1 * 2 powi e \<le> rat_of_int m * 2 powi e" by (rule mult_right_mono) simp
  moreover have "(2 :: rat) powi (- 1074) \<le> 2 powi e" using e by (simp only: powi_le_iff)
  ultimately show ?thesis unfolding x by linarith
qed

lemma double_range:
  assumes "finite_f64 x" "0 < x"
  shows "10 powi (- int 400 - 1) \<le> x" "x < 10 powi int 400"
proof -
  have low: "(2 :: rat) ^ 1074 \<le> 10 ^ 401" and high: "(2 :: rat) ^ 1024 \<le> 10 ^ 400" by simp_all
  have n: "c powi (- int k) = 1 / c ^ k" for c :: rat and k by (simp add: power_int_minus_divide)
  have "- int 400 - 1 = - int 401" "(- 1074 :: int) = - int 1074" by simp_all
  then have p: "(10 :: rat) powi (- int 400 - 1) = 1 / 10 ^ 401" "(2 :: rat) powi (- 1074) = 1 / 2 ^ 1074"
      "(10 :: rat) powi int 400 = 10 ^ 400" by (simp_all only: n power_int_of_nat)
  have "0 < a \<Longrightarrow> a \<le> b \<Longrightarrow> 1 / b \<le> 1 / a" for a b :: rat by (simp add: divide_left_mono)
  from this [OF _ low] have "1 / 10 ^ 401 \<le> 1 / (2 :: rat) ^ 1074" by (simp only: zero_less_power zero_less_numeral)
  moreover have "2 powi (- 1074) \<le> x" using assms by (intro is_f64_min) (simp_all only: finite_f64_def)
  ultimately show "10 powi (- int 400 - 1) \<le> x" unfolding p by (rule order_trans)
  have "x < 2 ^ 1024" using assms abs_ge_self [of x] unfolding finite_f64_def by linarith
  then show "x < 10 powi int 400" unfolding p using high by (rule less_le_trans)
qed

lemma fmt_digits:
  assumes "finite_f64 x" "0 < x" "shortest 17 1 x (scale10 400 x 0) = (c, q)" "strip_zeros 20 (nat c) q = (c', q')"
  shows "rne (of_nat c' * 10 powi q') = x"
proof -
  have "rne x = x" using assms(1) by (intro rne_exact) (simp add: finite_f64_def)
  moreover have "10 powi (scale10 400 x 0 - 1) \<le> x" using scale10_bounds [OF double_range [OF assms(1,2)], of 0] by simp
  ultimately have "reads_back x c q \<and> 0 \<le> c" using assms(2,3) by (intro shortest_reads_back [of x _ 1 17]) simp_all
  moreover have "(of_nat c' * 10 powi q' :: rat) = of_nat (nat c) * 10 powi q" using strip_zeros_value [OF assms(4)] .
  ultimately show ?thesis by (simp add: reads_back_def)
qed

lemma fmt_head: "fmt_f c q \<noteq> [] \<and> hd (fmt_f c q) \<noteq> CHR ''-''" "fmt_e c q \<noteq> [] \<and> hd (fmt_e c q) \<noteq> CHR ''-''"
proof -
  obtain d ds where ds: "nat_digits c = d # ds" using nat_digits_not_Nil [of c] by (cases "nat_digits c") simp_all
  have "\<not> is_digit (CHR ''-'')" by (simp add: is_digit_def)
  then have "d \<noteq> CHR ''-''" using nat_digits_hd [of c] ds by auto
  with ds show "fmt_f c q \<noteq> [] \<and> hd (fmt_f c q) \<noteq> CHR ''-''" "fmt_e c q \<noteq> [] \<and> hd (fmt_e c q) \<noteq> CHR ''-''"
    by (auto simp: fmt_f_def fmt_e_def Let_def hd_append)
qed

lemma ParseFloat_fmt_float: "finite_f64 x \<Longrightarrow> ParseFloat (fmt_float x) = Some x"
proof (cases "x = 0")
  case True
  then show ?thesis
    by (simp add: fmt_float_def ParseFloat_def parse_decimal_def parse_unsigned_def parse_exponent_def parse_uint_def is_digit_def)
next
  case False
  assume f: "finite_f64 x"
  obtain c q c' q' where d: "shortest 17 1 \<bar>x\<bar> (scale10 400 \<bar>x\<bar> 0) = (c, q)" "strip_zeros 20 (nat c) q = (c', q')"
    by (metis surj_pair)
  define s where "s = (if \<bar>x\<bar> < 1 / 10 ^ 6 \<or> 10 ^ 21 \<le> \<bar>x\<bar> then fmt_e c' q' else fmt_f c' q')"
  have t: "fmt_float x = (if x < 0 then ''-'' else []) @ s" using False d by (simp add: fmt_float_def Let_def s_def)
  have p: "parse_unsigned s = Some (of_nat c' * 10 powi q')" by (simp add: parse_fmt_e parse_fmt_f s_def)
  have h: "s \<noteq> []" "hd s \<noteq> CHR ''-''" using fmt_head by (auto simp: s_def)
  have "finite_f64 \<bar>x\<bar>" using f is_f64_abs by (simp add: finite_f64_def)
  then have "rne (of_nat c' * 10 powi q') = \<bar>x\<bar>" using False d by (intro fmt_digits) simp_all
  then show ?thesis using p h by (simp add: t ParseFloat_def parse_decimal_def rne_minus)
qed

end
