(* ===== verification/Ranges.thy ===== *)
theory Ranges
  imports Decimal
begin

text \<open>
  No arithmetic of the program leaves the finite doubles: rounding gives a double and keeps
  bounds that are powers of two, numbers of seconds are multiples of \<open>2 powi (- 82)\<close>, and so is
  every positive difference of two of them, which bounds the rates.
\<close>

section \<open>Finite results of the arithmetic\<close>

lemma rne_is_f64: "is_f64 (rne x)"
proof (cases "x = 0")
  case True
  then show ?thesis using is_f64_of_int [of 0] by simp
next
  case False
  let ?u = "2 powi ulp_exp x :: rat" and ?m = "rnd_even (x / 2 powi ulp_exp x)"
  have b: "\<bar>x\<bar> < 2 powi (ilog2 \<bar>x\<bar> + 1)" using ilog2_bounds [of "\<bar>x\<bar>"] False by simp
  have "(2 :: rat) powi (ilog2 \<bar>x\<bar> + 1) \<le> 2 powi (53 + ulp_exp x)" by (simp add: ulp_exp_def)
  also have "\<dots> = 2 ^ 53 * ?u" by (simp add: power_int_add)
  finally have "\<bar>x\<bar> / ?u \<le> 2 ^ 53" using b by (simp add: divide_le_eq)
  then have "\<bar>x / ?u\<bar> \<le> 2 ^ 53" by (simp add: abs_divide)
  then have "- (2 ^ 53) \<le> x / ?u" "x / ?u \<le> 2 ^ 53" by (simp_all only: abs_le_iff) linarith
  then have "rnd_even (of_int (- (2 ^ 53))) \<le> ?m" "?m \<le> rnd_even (of_int (2 ^ 53))"
    by (intro rnd_even_mono; simp)+
  then have "\<bar>?m\<bar> \<le> 2 ^ 53" by (simp only: rnd_even_of_int abs_le_iff) simp
  then show ?thesis unfolding is_f64_def using False by (intro exI [of _ ?m] exI [of _ "ulp_exp x"]) (simp add: rne_def ulp_exp_def)
qed

lemma rne_abs: "\<bar>rne x\<bar> = rne \<bar>x\<bar>"
  using rne_nonneg [of x] rne_nonneg [of "- x"] by (cases "0 \<le> x") (simp_all add: rne_minus)

lemma rne_bound: "\<bar>x\<bar> \<le> 2 ^ k \<Longrightarrow> \<bar>rne x\<bar> \<le> 2 ^ k"
proof -
  assume x: "\<bar>x\<bar> \<le> 2 ^ k"
  have "is_f64 (2 ^ k)" unfolding is_f64_def by (intro exI [of _ 1] exI [of _ "int k"]) simp
  then have "rne (2 ^ k) = 2 ^ k" by (rule rne_exact)
  then show ?thesis using rne_mono [OF _ x] by (simp add: rne_abs)
qed

lemma finite_rne: "\<bar>x\<bar> \<le> 2 ^ 1000 \<Longrightarrow> finite_f64 (rne x)"
proof -
  assume "\<bar>x\<bar> \<le> 2 ^ 1000"
  then have "\<bar>rne x\<bar> \<le> 2 ^ 1000" by (rule rne_bound)
  also have "(2 :: rat) ^ 1000 < 2 ^ 1024" by (rule power_strict_increasing) simp_all
  finally show ?thesis using rne_is_f64 [of x] by (simp add: finite_f64_def)
qed

text \<open>Multiples of \<open>2 powi g\<close> stay such multiples when they are rounded.\<close>

definition on_grid :: "int \<Rightarrow> rat \<Rightarrow> bool" where
  "on_grid g x \<longleftrightarrow> (\<exists>k. x = of_int k * 2 powi g)"

lemma on_grid_add: "on_grid g x \<Longrightarrow> on_grid g y \<Longrightarrow> on_grid g (x + y)"
  unfolding on_grid_def by (metis distrib_right of_int_add)

lemma on_grid_minus: "on_grid g x \<Longrightarrow> on_grid g (- x)"
  unfolding on_grid_def by (metis mult_minus_left of_int_minus)

lemma on_grid_coarser: "on_grid h x \<Longrightarrow> g \<le> h \<Longrightarrow> on_grid g x"
  unfolding on_grid_def using powi_multiple [of g h] by (metis mult.assoc of_int_mult)

lemma on_grid_int: "g \<le> 0 \<Longrightarrow> on_grid g (of_int n)"
  by (rule on_grid_coarser [of 0]) (auto simp: on_grid_def)

lemma on_grid_rne_ulp: "on_grid (ulp_exp x) (rne x)"
  unfolding on_grid_def rne_def by (metis mult_zero_left of_int_0)

lemma on_grid_rne:
  assumes "on_grid g x"
  shows "on_grid g (rne x)"
proof (cases "g \<le> ulp_exp x")
  case True
  then show ?thesis using on_grid_rne_ulp on_grid_coarser by blast
next
  case False
  then obtain k where k: "x = of_int k * 2 powi ulp_exp x"
    using on_grid_coarser [OF assms, of "ulp_exp x"] by (auto simp: on_grid_def)
  then have "x / 2 powi ulp_exp x = of_int k" by (metis nonzero_mult_div_cancel_right powi_pos less_irrefl)
  then have "rne x = x" using k by (simp add: rne_def)
  then show ?thesis using assms by simp
qed

lemma on_grid_pos: "on_grid g x \<Longrightarrow> 0 < x \<Longrightarrow> 2 powi g \<le> x"
proof -
  assume "on_grid g x" "0 < x"
  then obtain k where x: "x = of_int k * 2 powi g" by (auto simp: on_grid_def)
  have "0 < rat_of_int k" using \<open>0 < x\<close> powi_pos unfolding x by (rule zero_less_mult_pos2)
  then have "1 \<le> rat_of_int k" by simp
  then have "1 * 2 powi g \<le> rat_of_int k * 2 powi g" by (rule mult_right_mono) simp
  then show ?thesis using x by simp
qed

text \<open>A number of seconds is a multiple of \<open>2 powi (- 82)\<close>.\<close>

abbreviation secs_grid :: "rat \<Rightarrow> bool" where
  "secs_grid \<equiv> on_grid (- 82)"

lemma nanos_grid: "secs_grid (fdiv (f64_of_int r) (f64_of_int 1000000000))"
proof (cases "r = 0")
  case True
  then show ?thesis using on_grid_int [of "- 82" 0] by (simp add: fdiv_def)
next
  case False
  let ?y = "f64_of_int r / 1000000000"
  have "rne 1 \<le> rne \<bar>of_int r\<bar>" using False by (intro rne_mono) (simp_all flip: of_int_abs)
  then have "1 \<le> \<bar>f64_of_int r\<bar>" using f64_of_int_exact [of 1] by (simp add: f64_of_int_def rne_abs)
  then have y: "1 / 2 ^ 30 \<le> \<bar>?y\<bar>" by (simp add: abs_divide field_simps)
  then have "(2 :: rat) powi (- 30) \<le> \<bar>?y\<bar>" by (simp add: power_int_minus_divide)
  moreover have "\<bar>?y\<bar> < 2 powi (ilog2 \<bar>?y\<bar> + 1)" using y by (intro ilog2_bounds(2)) simp
  ultimately have "(2 :: rat) powi (- 30) < 2 powi (ilog2 \<bar>?y\<bar> + 1)" by linarith
  then have "- 30 < ilog2 \<bar>?y\<bar> + 1" by (simp only: powi_less_iff)
  then have "- 82 \<le> ulp_exp ?y" by (simp add: ulp_exp_def)
  then show ?thesis using on_grid_coarser [OF on_grid_rne_ulp [of ?y]] by (simp add: fdiv_def)
qed

lemma seconds_grid: "secs_grid (seconds d)"
  unfolding seconds_def fadd_def
  by (intro on_grid_rne on_grid_add nanos_grid) (simp add: f64_of_int_def on_grid_rne on_grid_int)

lemma fsub_grid: "on_grid g a \<Longrightarrow> on_grid g b \<Longrightarrow> on_grid g (fsub a b)"
  unfolding fsub_def using on_grid_add [of g a "- b"] on_grid_minus by (auto intro: on_grid_rne)

lemma f64_of_int_bound: "\<bar>n\<bar> \<le> 2 ^ k \<Longrightarrow> \<bar>f64_of_int n\<bar> \<le> 2 ^ k"
  unfolding f64_of_int_def by (rule rne_bound) (metis of_int_abs of_int_le_iff of_int_numeral of_int_power)

lemma finite_0 [simp]: "finite_f64 0"
  using finite_rne [of 0] by simp

lemma finite_seconds: "\<bar>d\<bar> \<le> 2 ^ 63 \<Longrightarrow> finite_f64 (seconds d)"
proof -
  assume d: "\<bar>d\<bar> \<le> 2 ^ 63"
  define q where "q = quot d 1000000000"
  have "\<bar>q\<bar> \<le> \<bar>d\<bar>" "\<bar>d - q * 1000000000\<bar> \<le> \<bar>d\<bar>" unfolding q_def quot_def by (auto simp: sgn_if abs_if)
  then have q: "\<bar>q\<bar> \<le> 2 ^ 63" "\<bar>d - q * 1000000000\<bar> \<le> 2 ^ 63" using d by linarith+
  have "\<bar>f64_of_int q\<bar> \<le> 2 ^ 63" using q(1) by (rule f64_of_int_bound)
  moreover have "\<bar>fdiv (f64_of_int (d - q * 1000000000)) (f64_of_int 1000000000)\<bar> \<le> 2 ^ 63"
    unfolding fdiv_def using f64_of_int_bound [OF q(2)] by (intro rne_bound) (simp add: abs_divide)
  ultimately have "\<bar>f64_of_int q + fdiv (f64_of_int (d - q * 1000000000)) (f64_of_int 1000000000)\<bar> \<le> 2 ^ 64" by simp
  also have "\<dots> \<le> 2 ^ 1000" by (rule power_increasing) simp_all
  finally show ?thesis unfolding seconds_def fadd_def q_def [symmetric] by (rule finite_rne)
qed

text \<open>A rate: a count of at most \<open>N\<close> over a positive span on the grid.\<close>

definition rate_of :: "int \<Rightarrow> float64 \<Rightarrow> bool" where
  "rate_of N x \<longleftrightarrow> (\<exists>n spn. 0 \<le> n \<and> n \<le> N \<and> 0 < spn \<and> secs_grid spn \<and> x = fdiv (f64_of_int n) spn)"

lemma rate_of_mono: "rate_of N x \<Longrightarrow> N \<le> M \<Longrightarrow> rate_of M x"
  unfolding rate_of_def using order_trans by blast

lemma rate_of_0 [simp]: "0 \<le> N \<Longrightarrow> rate_of N 0"
  unfolding rate_of_def by (intro exI [of _ 0] exI [of _ 1]) (use on_grid_int [of "- 82" 1] in \<open>simp add: fdiv_def\<close>)

lemma finite_rate:
  assumes "rate_of N x" "N < 2 ^ 63"
  shows "finite_f64 x"
proof -
  obtain n spn where n: "0 \<le> n" "n \<le> N" "0 < spn" "secs_grid spn" "x = fdiv (f64_of_int n) spn"
    using assms(1) by (auto simp: rate_of_def)
  have "\<bar>f64_of_int n\<bar> \<le> 2 ^ 63" using n(1,2) assms(2) by (intro f64_of_int_bound) simp
  moreover have "2 powi (- 82) \<le> spn" using on_grid_pos n(3,4) by blast
  then have "1 / 2 ^ 82 \<le> spn" unfolding power_int_minus_divide by simp
  ultimately have "\<bar>f64_of_int n\<bar> / spn \<le> 2 ^ 63 / (1 / 2 ^ 82)" using n(3) by (intro frac_le) simp_all
  also have "\<dots> = 2 ^ 145" by simp
  also have "\<dots> \<le> 2 ^ 1000" by (rule power_increasing) simp_all
  finally show ?thesis unfolding n(5) fdiv_def using n(3) by (intro finite_rne) (simp add: abs_divide)
qed

lemma fdiv_bound:
  assumes "\<bar>a\<bar> \<le> 2 ^ k" "1 \<le> b"
  shows "\<bar>fdiv a b\<bar> \<le> 2 ^ k"
proof -
  have "\<bar>a\<bar> / b \<le> \<bar>a\<bar> / 1" using assms(2) by (intro divide_left_mono) simp_all
  then show ?thesis unfolding fdiv_def using assms by (intro rne_bound) (simp add: abs_divide)
qed

lemma finite_fdiv: "\<bar>a\<bar> \<le> 2 ^ k \<Longrightarrow> 1 \<le> b \<Longrightarrow> k \<le> 1000 \<Longrightarrow> finite_f64 (fdiv a b)"
proof -
  assume "\<bar>a\<bar> \<le> 2 ^ k" "1 \<le> b" "k \<le> 1000"
  then have "\<bar>fdiv a b\<bar> \<le> 2 ^ k" by (intro fdiv_bound)
  also have "\<dots> \<le> 2 ^ 1000" using \<open>k \<le> 1000\<close> by (rule power_increasing) simp
  finally have "finite_f64 (rne (fdiv a b))" by (rule finite_rne)
  then show ?thesis by (simp add: fdiv_def rne_exact rne_is_f64)
qed

lemma f64_of_int_ge_1: "1 \<le> n \<Longrightarrow> 1 \<le> f64_of_int n"
  using rne_mono [of 1 "of_int n"] f64_of_int_exact [of 1] by (simp add: f64_of_int_def)

end
