(* ===== verification/Typing.thy ===== *)
theory Typing
  imports Ranges Result
begin

text \<open>
  The types of a result. The model counts with unbounded integers and computes with rationals; here it is
  shown that every number of a run's result has the type the source gives it. Rounding gives
  doubles, spans of time are multiples of \<open>2 powi (- 82)\<close> and so no rate overflows, and every
  latency reported for an operation, in a window or for the run, is that of a success of this
  operation in the history.
\<close>

section \<open>Reported latencies\<close>

text \<open>Zero, or the latency of a success of \<open>op\<close>.\<close>

definition measured_ms :: "observation list \<Rightarrow> string \<Rightarrow> float64 \<Rightarrow> bool" where
  "measured_ms h op x \<longleftrightarrow> x = 0 \<or> (\<exists>d. (op, d, None) \<in> set h \<and> x = us_to_ms (to_micros d))"

definition covered :: "observation list \<Rightarrow> string \<Rightarrow> opStats \<Rightarrow> bool" where
  "covered h op s \<longleftrightarrow> (\<forall>us \<in> fst ` set (lat s). \<exists>d. (op, d, None) \<in> set h \<and> us = to_micros d)"

lemma measured_mono: "measured_ms h op x \<Longrightarrow> set h \<subseteq> set h' \<Longrightarrow> measured_ms h' op x"
  unfolding measured_ms_def by blast

lemma percentile_measured:
  assumes "stats_ok s" "covered h op s" "percentile s q = Some x"
  shows "measured_ms h op x"
proof (cases "samples s = 0")
  case True
  then show ?thesis using assms(3) by (simp add: percentile_def sortedKeys_eq quantileFrom_def measured_ms_def)
next
  case False
  then have "0 < samples s" using samples_pos [OF assms(1)] samples_0_iff [OF assms(1)] by metis
  then obtain v where v: "x = us_to_ms v" "v \<in> fst ` set (lat s)"
    using percentile_nearest [OF assms(1), of q] assms(3) by (auto simp: nearest_rank_def)
  then obtain d where "(op, d, None) \<in> set h" "v = to_micros d" using assms(2) unfolding covered_def by (metis (lifting))
  then show ?thesis using v(1) unfolding measured_ms_def by metis
qed

lemma occurrences_mem: "0 < occurrences op P h \<Longrightarrow> \<exists>d err. (op, d, err) \<in> set h \<and> P d err"
  by (auto simp: occurrences_def filter_empty_conv)

lemma coveredI:
  assumes "stats_ok s" "\<And>us. mget (lat s) us \<le> occurrences op (\<lambda>d err. err = None \<and> us = to_micros d) h"
  shows "covered h op s"
  unfolding covered_def
proof
  fix us
  assume "us \<in> fst ` set (lat s)"
  then obtain n where n: "(us, n) \<in> set (lat s)" by auto
  have "keys_ok (lat s)" "0 < n" using assms(1) n by (auto simp: stats_ok_def)
  then have "0 < mget (lat s) us" using n by (simp add: mget_def keys_ok_def)
  then have "0 < occurrences op (\<lambda>d err. err = None \<and> us = to_micros d) h" using assms(2) [of us] by linarith
  then show "\<exists>d. (op, d, None) \<in> set h \<and> us = to_micros d" using occurrences_mem by blast
qed

lemma drain_covered:
  assumes "reach (sys_init names) sys_step s" "distinct names" "drainer s = Some (i, m, now)" "op \<in> set names"
  shows "covered (history s) op (stat_at m op)"
proof -
  have ok: "sys_ok names s" using assms(1,2) by (rule reach_sys_ok)
  then have m: "stats_ok (stat_at m op)" and t: "stats_ok (stat_at (totals (coll s)) op)"
    and W: "\<And>w. w \<in> set (workers (coll s)) \<Longrightarrow> stats_ok (stat_at (data w) op)"
    using assms(3,4) by (auto simp: sys_ok_def intro: table_ok_Some)
  have p: "0 \<le> mget (lat st) us" if "stats_ok st" for st us using that by (intro mget_nonneg) (simp add: stats_ok_def)
  have "0 \<le> in_windows (\<lambda>st. mget (lat st) us) op (workers (coll s))" for us
    unfolding in_windows_def using p W by (intro sum_list_nonneg) auto
  then have "mget (lat (stat_at m op)) us \<le> held (\<lambda>st. mget (lat st) us) op s" for us
    using p [OF t, of us] assms(3) by (simp add: held_def in_drain_def add_increasing add_increasing2)
  then show ?thesis using held_occurrences(3) [OF assms(1,2,4)] m by (intro coveredI) auto
qed

section \<open>The series\<close>

definition span_ok :: "float64 \<Rightarrow> bool" where
  "span_ok x \<longleftrightarrow> (\<exists>d. \<bar>d\<bar> \<le> 2 ^ 63 \<and> x = seconds d)"

definition interval_op_typed :: "observation list \<Rightarrow> IntervalOp \<Rightarrow> bool" where
  "interval_op_typed h io \<longleftrightarrow> rate_of (iCount io) (iOpsPerSec io) \<and> 0 \<le> iErrors io \<and> iErrors io \<le> iCount io \<and>
     measured_ms h (iOp io) (iP50MS io) \<and> measured_ms h (iOp io) (iP95MS io) \<and> measured_ms h (iOp io) (iP99MS io)"

definition interval_typed :: "observation list \<Rightarrow> IntervalStats \<Rightarrow> bool" where
  "interval_typed h iv \<longleftrightarrow> span_ok (StartSeconds iv) \<and> span_ok (EndSeconds iv) \<and> rate_of (Ops iv) (OpsPerSec iv) \<and>
     (\<forall>io \<in> set (Operations iv). interval_op_typed h io)"

lemma interval_typed_mono: "interval_typed h iv \<Longrightarrow> set h \<subseteq> set h' \<Longrightarrow> interval_typed h' iv"
  unfolding interval_typed_def interval_op_typed_def using measured_mono by blast

lemma span_ok_Sub: "span_ok (seconds (time_Sub t u))"
  unfolding span_ok_def by (intro exI [of _ "time_Sub t u"]) (simp add: time_Sub_def)

lemma span_grid: "span_ok x \<Longrightarrow> secs_grid x"
  using seconds_grid by (auto simp: span_ok_def)

lemma rate_of_fdiv: "0 \<le> n \<Longrightarrow> 0 < fsub a b \<Longrightarrow> span_ok a \<Longrightarrow> span_ok b \<Longrightarrow> rate_of n (fdiv (f64_of_int n) (fsub a b))"
  unfolding rate_of_def using fsub_grid span_grid by blast

lemma rate_of_rate: "0 \<le> n \<Longrightarrow> span_ok a \<Longrightarrow> span_ok b \<Longrightarrow> rate_of n (rate (fsub a b) n)"
  by (simp add: rate_def rate_of_fdiv)

lemma collect_mem: "collect f xs = Some ys \<Longrightarrow> y \<in> set ys \<Longrightarrow> \<exists>x \<in> set xs. f x = Some (Some y)"
  by (induction xs arbitrary: ys) (auto split: Option.bind_splits option.splits)

lemma interval_op_typedI:
  assumes "stats_ok s" "covered h op s" "interval_op op s = Some io"
  shows "iOp io = op \<and> iCount io = 0 \<and> iErrors io = 0 \<and> iOpsPerSec io = 0 \<and>
    measured_ms h op (iP50MS io) \<and> measured_ms h op (iP95MS io) \<and> measured_ms h op (iP99MS io)"
  using assms(3) percentile_measured [OF assms(1,2)]
  by (auto simp: interval_op_def split: Option.bind_splits)

lemma fresh_entry_typed:
  assumes "fresh_entry m (fsub a b) op = Some (Some io)" "span_ok a" "span_ok b"
    and "\<And>s. map_of m op = Some s \<Longrightarrow> stats_ok s \<and> covered h op s"
  shows "interval_op_typed h io"
proof -
  obtain s io' where s: "map_of m op = Some s" "interval_op op s = Some io'"
      "io = io'\<lparr>iCount := count s, iErrors := errors s, iOpsPerSec := rate (fsub a b) (count s)\<rparr>"
    using assms(1) by (auto simp: fresh_entry_def split: option.splits if_splits Option.bind_splits)
  have ok: "stats_ok s" "covered h op s" using assms(4) s(1) by auto
  note c = stats_ok_bounds [OF ok(1)]
  show ?thesis
    using interval_op_typedI [OF ok s(2)] c rate_of_rate [of "count s", OF _ assms(2,3)]
    by (simp add: s(3) interval_op_typed_def)
qed

lemma op_entries_mem: "map_of (op_entries L) op = Some io \<Longrightarrow> io \<in> set L \<and> iOp io = op"
proof -
  have "map_of (foldl (\<lambda>m io. AList.update (iOp io) io m) m0 L) op = Some io \<Longrightarrow>
      map_of m0 op = Some io \<or> io \<in> set L \<and> iOp io = op" for m0
  proof (induction L arbitrary: m0)
    case (Cons a L)
    then have "map_of (AList.update (iOp a) a m0) op = Some io \<or> io \<in> set L \<and> iOp io = op" by simp
    then show ?case by (auto simp: update_conv split: if_splits)
  qed simp
  then show "map_of (op_entries L) op = Some io \<Longrightarrow> io \<in> set L \<and> iOp io = op" by (fastforce simp: op_entries_def)
qed

lemma rebuild_entry_typed:
  assumes "rebuild_entry (op_entries L) m (fsub a b) op = Some (Some io)" "span_ok a" "span_ok b"
    and "\<And>s. map_of m op = Some s \<Longrightarrow> stats_ok s \<and> covered h op s" "\<forall>io \<in> set L. interval_op_typed h io \<and> 0 \<le> iCount io"
  shows "interval_op_typed h io"
proof -
  define act where "act = (case map_of m op of None \<Rightarrow> None | Some s \<Rightarrow> if count s > 0 then Some s else None)"
  obtain io0 where io0: "(case map_of (op_entries L) op of Some io \<Rightarrow> Some io
        | None \<Rightarrow> (case act of None \<Rightarrow> None | Some s \<Rightarrow> interval_op op s)) = Some io0"
    and io: "io = (let io = (case act of None \<Rightarrow> io0
           | Some s \<Rightarrow> io0\<lparr>iCount := iCount io0 + count s, iErrors := iErrors io0 + errors s\<rparr>)
         in if fsub a b > 0 then io\<lparr>iOpsPerSec := fdiv (f64_of_int (iCount io)) (fsub a b)\<rparr> else io)"
    using assms(1) unfolding rebuild_entry_def act_def [symmetric] by (auto simp: Let_def split: if_splits Option.bind_splits)
  have act: "stats_ok s \<and> covered h op s" if "act = Some s" for s
    using that assms(4) by (auto simp: act_def split: option.splits if_splits)
  have z: "interval_op_typed h io0 \<and> 0 \<le> iCount io0"
  proof (cases "map_of (op_entries L) op")
    case None
    then obtain s where s: "act = Some s" "interval_op op s = Some io0" using io0 by (auto split: option.splits)
    then show ?thesis using interval_op_typedI [OF _ _ s(2), of h] act by (auto simp: interval_op_typed_def)
  next
    case (Some io')
    then show ?thesis using io0 op_entries_mem [OF Some] assms(5) by simp
  qed
  define io1 where "io1 = (case act of None \<Rightarrow> io0
    | Some s \<Rightarrow> io0\<lparr>iCount := iCount io0 + count s, iErrors := iErrors io0 + errors s\<rparr>)"
  have "interval_op_typed h io1 \<and> 0 \<le> iCount io1"
    using z act stats_ok_bounds by (fastforce simp: io1_def interval_op_typed_def intro: rate_of_mono split: option.splits)
  then show ?thesis
    using rate_of_fdiv [OF _ _ assms(2,3), of "iCount io1"] unfolding io io1_def [symmetric] by (simp add: interval_op_typed_def)
qed

lemma recordInterval_typed:
  assumes r: "recordIntervalLocked c now m = Some c'" and tab: "table_ok (ops c) m" "distinct (ops c)" and so: "series_ok c"
    and iv: "\<forall>iv \<in> set (intervals c). interval_typed h iv" and cov: "\<forall>op \<in> set (ops c). covered h op (stat_at m op)"
  shows "\<forall>iv \<in> set (intervals c'). interval_typed h iv"
proof -
  let ?n = "window_sum count (ops c) m" and ?e = "window_sum errors (ops c) m"
  let ?s = "seconds (time_Sub (lastBoundary c) (start c))" and ?t = "seconds (time_Sub now (start c))"
  note f = foldl_window [OF tab, of count] foldl_window [OF tab, of errors]
  have n: "0 \<le> ?n" using window_sum_nonneg [OF tab(1)] .
  have st: "stats_ok s \<and> covered h op s" if "op \<in> set (ops c)" "map_of m op = Some s" for op s
    using that table_ok_Some [OF tab(1) that(1)] cov by auto
  have sp: "span_ok ?s" "span_ok ?t" by (rule span_ok_Sub)+
  consider "?n = 0" | "?n \<noteq> 0" "fsub ?t ?s < minIntervalSeconds" "intervals c \<noteq> []"
    | "?n \<noteq> 0" "\<not> (fsub ?t ?s < minIntervalSeconds \<and> intervals c \<noteq> [])" by blast
  then show ?thesis
  proof cases
    case 1
    then show ?thesis using r iv by (simp add: recordIntervalLocked_def f)
  next
    case 2
    let ?p = "last (intervals c)"
    let ?w = "fsub ?t (StartSeconds ?p)"
    have p: "interval_typed h ?p" "0 < Ops ?p" "\<forall>io \<in> set (Operations ?p). 0 < iCount io"
      using 2 so iv by (auto simp: series_ok_def interval_ok_def)
    obtain L where L: "collect (rebuild_entry (op_entries (Operations ?p)) m ?w) (ops c) = Some L"
      and c': "c' = c\<lparr>intervals := butlast (intervals c) @ [let q = ?p\<lparr>Ops := Ops ?p + ?n, Errors := Errors ?p + ?e, EndSeconds := ?t, Operations := L\<rparr>
            in if ?w > 0 then q\<lparr>OpsPerSec := fdiv (f64_of_int (Ops ?p + ?n)) ?w\<rparr> else q], lastBoundary := now\<rparr>"
      using 2 r by (auto simp: recordIntervalLocked_def f Let_def simp flip: op_entries_def split: Option.bind_splits)
    have "span_ok (StartSeconds ?p)" "\<forall>io \<in> set (Operations ?p). interval_op_typed h io \<and> 0 \<le> iCount io"
      using p by (auto simp: interval_typed_def less_imp_le)
    then have "interval_op_typed h io" if "io \<in> set L" for io
      using collect_mem [OF L that] rebuild_entry_typed [OF _ sp(2)] st by blast
    then show ?thesis
      using iv p n sp rate_of_fdiv [of "Ops ?p + ?n" ?t "StartSeconds ?p"] unfolding c'
      by (auto simp: Let_def interval_typed_def intro: rate_of_mono dest: in_set_butlastD)
  next
    case 3
    obtain L where L: "collect (fresh_entry m (fsub ?t ?s)) (ops c) = Some L"
      and c': "c' = c\<lparr>intervals := intervals c @ [\<lparr>StartSeconds = ?s, EndSeconds = ?t, Ops = ?n, Errors = ?e,
            OpsPerSec = rate (fsub ?t ?s) ?n, Operations = L\<rparr>], lastBoundary := now\<rparr>"
      using 3 r by (auto simp: recordIntervalLocked_def f Let_def split: Option.bind_splits if_splits)
    have "interval_op_typed h io" if "io \<in> set L" for io
      using collect_mem [OF L that] fresh_entry_typed [OF _ sp(2,1)] st by blast
    then show ?thesis using iv sp rate_of_rate [OF n sp(2,1)] unfolding c' by (auto simp: interval_typed_def)
  qed
qed

lemma series_typed:
  assumes "reach (sys_init names) sys_step s" "distinct names"
  shows "\<forall>iv \<in> set (intervals (coll s)). interval_typed (history s) iv"
  using assms(1)
proof (induction rule: reach.induct)
  case (start s)
  then show ?case by (auto simp: sys_init_def NewStatsCollector_def)
next
  case (next_step s s')
  from next_step.hyps(2) show ?case
  proof (cases rule: sys_step.cases)
    case new_worker
    then show ?thesis using next_step.IH by (simp add: NewWorkerStats_def)
  next
    case (record_call i op d err ws)
    then show ?thesis using next_step.IH interval_typed_mono [of "history s" _ "history s @ [(op, d, err)]"] by auto
  next
    case (drain_begin now)
    then show ?thesis using next_step.IH by simp
  next
    case (drain_snap i merged now c' merged')
    then show ?thesis using next_step.IH by (auto simp: drain_worker_eq)
  next
    case (drain_end i merged now c')
    have "sys_ok names s" using next_step.hyps(1) assms(2) by (rule reach_sys_ok)
    then have ok: "ops (coll s) = names" "table_ok names merged" "series_ok (coll s)" using drain_end(2) by (simp_all add: sys_ok_def)
    let ?c = "(coll s)\<lparr>totals := merge_all (totals (coll s)) merged\<rparr>"
    have r: "recordIntervalLocked ?c now merged = Some c'" using drain_end(4) by (simp add: drain_finish_def)
    have "series_ok ?c" using ok(3) by (simp add: series_ok_def contiguous_def)
    moreover have "\<forall>op \<in> set (ops ?c). covered (history s) op (stat_at merged op)"
      using drain_covered [OF next_step.hyps(1) assms(2) drain_end(2)] ok(1) by simp
    ultimately have "\<forall>iv \<in> set (intervals c'). interval_typed (history s) iv"
      using recordInterval_typed [OF r] ok(1,2) assms(2) next_step.IH by simp
    then show ?thesis using drain_end(1) by simp
  qed
qed

section \<open>The document\<close>

definition ascii :: "string \<Rightarrow> bool" where
  "ascii s \<longleftrightarrow> (\<forall>c \<in> set s. of_char c < (128 :: nat))"

text \<open>Integers of 64 bits, finite doubles, ASCII strings.\<close>

fun doc_ok :: "doc \<Rightarrow> bool" where
  "doc_ok (DStr s) \<longleftrightarrow> ascii s"
| "doc_ok (DInt n) \<longleftrightarrow> in_i64 n"
| "doc_ok (DNum x) \<longleftrightarrow> finite_f64 x"
| "doc_ok (DBool b) \<longleftrightarrow> True"
| "doc_ok (DArr xs) \<longleftrightarrow> list_all doc_ok xs"
| "doc_ok (DObj kvs) \<longleftrightarrow> list_all (\<lambda>(k, v). ascii k \<and> doc_ok v) kvs"

lemma ascii_lit [simp]: "ascii []" "ascii (c # s) \<longleftrightarrow> of_char c < (128 :: nat) \<and> ascii s"
  by (simp_all add: ascii_def)

lemma doc_ok_omit: "doc_ok d \<Longrightarrow> ascii k \<Longrightarrow> list_all (\<lambda>(k, v). ascii k \<and> doc_ok v) (omit e k d)"
  by (simp add: omit_def)

lemma doc_ok_map:
  "(\<And>k v. (k, v) \<in> set m \<Longrightarrow> ascii k \<and> doc_ok (f v)) \<Longrightarrow> doc_ok (map_doc f m)"
  by (auto simp: map_doc_def list_all_iff)

lemma in_i64_nonneg: "0 \<le> n \<Longrightarrow> n < 2 ^ 63 \<Longrightarrow> in_i64 n"
  by (simp add: in_i64_def)

lemma finite_ms: "0 \<le> us \<Longrightarrow> us < 2 ^ 63 \<Longrightarrow> finite_f64 (us_to_ms us)"
  unfolding us_to_ms_def using f64_of_int_bound [of us 63] by (intro finite_fdiv [of _ 63]) simp_all

lemma finite_measured: "measured_ms h op x \<Longrightarrow> \<forall>(op, d, err) \<in> set h. to_micros d < 2 ^ 63 \<Longrightarrow> finite_f64 x"
  using to_micros_nonneg finite_ms by (fastforce simp: measured_ms_def)

lemma finite_span: "span_ok x \<Longrightarrow> finite_f64 x"
  by (auto simp: span_ok_def finite_seconds)

lemma interval_doc_ok:
  assumes "interval_typed h iv" "interval_ok names iv" "Ops iv < 2 ^ 63" "\<forall>op \<in> set names. ascii op"
    "\<forall>(op, d, err) \<in> set h. to_micros d < 2 ^ 63" "0 < Ops iv"
  shows "doc_ok (interval_doc iv)"
proof -
  have c: "iCount io \<le> Ops iv" "0 < iCount io" if "io \<in> set (Operations iv)" for io
  proof -
    have "0 \<le> x" if "x \<in> set (map iCount (Operations iv))" for x using assms(2) that by (auto simp: interval_ok_def less_imp_le)
    then show "iCount io \<le> Ops iv" using member_le_sum_list [of "iCount io" "map iCount (Operations iv)"] that assms(2)
      by (auto simp: interval_ok_def)
    show "0 < iCount io" using that assms(2) by (simp add: interval_ok_def)
  qed
  have n: "ascii (iOp io)" if "io \<in> set (Operations iv)" for io
  proof -
    have "iOp io \<in> set (map iOp (Operations iv))" using that by simp
    then show ?thesis using assms(2,4) unfolding interval_ok_def by fastforce
  qed
  have io: "doc_ok (interval_op_doc io)" if "io \<in> set (Operations iv)" for io
  proof -
    have t: "interval_op_typed h io" using assms(1) that by (simp add: interval_typed_def)
    then have "in_i64 (iCount io)" "in_i64 (iErrors io)" using c [OF that] assms(3) by (auto simp: interval_op_typed_def in_i64_def)
    moreover have "finite_f64 (iOpsPerSec io)" using t c [OF that] assms(3) finite_rate [of "iCount io"] by (simp add: interval_op_typed_def)
    ultimately show ?thesis using t n [OF that] finite_measured [OF _ assms(5)]
      by (auto simp: interval_op_doc_def interval_op_typed_def omit_def)
  qed
  have "sum_list (map iErrors (Operations iv)) \<le> sum_list (map iCount (Operations iv))"
    "0 \<le> sum_list (map iErrors (Operations iv))"
    using assms(1) by (auto intro!: sum_list_mono sum_list_nonneg simp: interval_typed_def interval_op_typed_def)
  then have "in_i64 (Ops iv)" "in_i64 (Errors iv)" using assms(2,3,6) by (auto simp: interval_ok_def in_i64_def)
  then show ?thesis
    using assms(1) io finite_span finite_rate [OF _ assms(3)] by (simp add: interval_doc_def interval_typed_def list_all_iff)
qed

lemma weighted_sum_bound: "\<bar>foldl (\<lambda>a us. i64 (a + f us)) 0 ks\<bar> \<le> 2 ^ 63"
proof -
  have "in_i64 c \<Longrightarrow> in_i64 (foldl (\<lambda>a us. i64 (a + f us)) c ks)" for c by (induction ks arbitrary: c) simp_all
  then have "in_i64 (foldl (\<lambda>a us. i64 (a + f us)) 0 ks)" by (simp add: in_i64_def)
  then show ?thesis unfolding in_i64_def by linarith
qed

lemma latency_doc_ok:
  assumes "stats_ok s" "covered h op s" "\<forall>(op, d, err) \<in> set h. to_micros d < 2 ^ 63" "0 < samples s" "samples s < 2 ^ 63"
    "latencyStats s = Some l"
  shows "doc_ok (latency_doc l)"
proof -
  let ?ks = "sort (map fst (lat s))"
  have k: "distinct ?ks" "set ?ks = fst ` set (lat s)" using assms(1) by (simp_all add: stats_ok_def keys_ok_def)
  have us: "0 \<le> us \<and> us < 2 ^ 63" if "us \<in> set ?ks" for us
    using that assms(2,3) to_micros_nonneg unfolding k(2) covered_def by fastforce
  have ne: "lat s \<noteq> []" using assms(4) by (auto simp: samples_sum)
  then have "?ks ! 0 \<in> set ?ks" "?ks ! (length (lat s) - 1) \<in> set ?ks" by (intro nth_mem; simp)+
  then have mm: "finite_f64 (MinMS l)" "finite_f64 (MaxMS l)"
    using latencyStats_fields [OF assms(4)] assms(6) us finite_ms by auto
  have ps: "finite_f64 (P50MS l)" "finite_f64 (P95MS l)" "finite_f64 (P99MS l)" "finite_f64 (P999MS l)"
    using latencyStats_fields [OF assms(4)] assms(6) percentile_measured [OF assms(1,2)] finite_measured [OF _ assms(3)] by auto
  let ?W = "foldl (\<lambda>a us. i64 (a + i64 (us * mget (lat s) us))) 0 ?ks"
  have "MeanMS l = fdiv (fdiv (f64_of_int ?W) (f64_of_int (samples s))) 1000"
    using assms(4,6) ne by (auto simp: latencyStats_def sortedKeys_eq Let_def split: Option.bind_splits)
  moreover have "\<bar>?W\<bar> \<le> 2 ^ 63" by (rule weighted_sum_bound)
  then have "\<bar>fdiv (f64_of_int ?W) (f64_of_int (samples s))\<bar> \<le> 2 ^ 63"
    using assms(4) by (intro fdiv_bound f64_of_int_bound f64_of_int_ge_1) simp_all
  then have "finite_f64 (fdiv (fdiv (f64_of_int ?W) (f64_of_int (samples s))) 1000)" by (rule finite_fdiv) simp_all
  ultimately show ?thesis using mm ps by (simp add: latency_doc_def)
qed

lemma build_ops_mem:
  "build_ops tot dur ns (t, rs) = Some (t', rs') \<Longrightarrow> r \<in> set rs' \<Longrightarrow>
    r \<in> set rs \<or> (\<exists>s. rOp r \<in> set ns \<and> map_of tot (rOp r) = Some s \<and> rCount r = count s \<and> rErrors r = errors s \<and>
      rOpsPerSec r = run_rate dur (count s) \<and> (rLatency r = None \<or> 0 < samples s \<and> rLatency r = latencyStats s))"
proof (induction ns arbitrary: t rs)
  case (Cons op ns)
  obtain s lt where s: "map_of tot op = Some s" "(if samples s > 0 then map_option Some (latencyStats s) else Some None) = Some lt"
      "build_ops tot dur ns (t\<lparr>tOps := tOps t + count s, tErrors := tErrors t + errors s\<rparr>,
        rs @ [\<lparr>rOp = op, rCount = count s, rErrors = errors s, rOpsPerSec = run_rate dur (count s), rLatency = lt\<rparr>]) = Some (t', rs')"
    using Cons.prems(1) by (auto simp: Let_def split: Option.bind_splits)
  have "lt = None \<or> 0 < samples s \<and> lt = latencyStats s" using s(2) by (auto split: if_splits)
  then show ?case using Cons.IH [OF s(3) Cons.prems(2)] s(1) by auto
qed simp

lemma rate_of_run: "0 \<le> n \<Longrightarrow> rate_of n (run_rate (seconds d) n)"
proof (cases "seconds d \<le> 0")
  case True
  assume "0 \<le> n"
  then show ?thesis using True by (simp add: run_rate_def)
next
  case False
  assume "0 \<le> n"
  then have "rate_of n (fdiv (f64_of_int n) (seconds d))" using False seconds_grid [of d] unfolding rate_of_def not_le by blast
  then show ?thesis using False by (simp add: run_rate_def)
qed

lemma op_doc_ok:
  assumes "build_ops tot (seconds d) ns (t, []) = Some (t', rs)" "r \<in> set rs" "\<forall>op \<in> set ns. ascii op"
    and "\<forall>op \<in> set ns. stats_ok (stat_at tot op) \<and> covered h op (stat_at tot op) \<and> count (stat_at tot op) < 2 ^ 63"
    and "\<forall>(op, d, err) \<in> set h. to_micros d < 2 ^ 63"
  shows "doc_ok (op_doc r)"
proof -
  obtain s where s: "rOp r \<in> set ns" "map_of tot (rOp r) = Some s" "rCount r = count s" "rErrors r = errors s"
      "rOpsPerSec r = run_rate (seconds d) (count s)" "rLatency r = None \<or> 0 < samples s \<and> rLatency r = latencyStats s"
    using build_ops_mem [OF assms(1,2)] by auto
  have ok: "stats_ok s" "covered h (rOp r) s" "count s < 2 ^ 63" using assms(4) s(1,2) by (auto simp: stat_at_def)
  note b = stats_ok_bounds [OF ok(1)]
  have "in_i64 (count s)" "in_i64 (errors s)" using b ok(3) by (auto simp: in_i64_def)
  moreover have "finite_f64 (run_rate (seconds d) (count s))" using b ok(3) by (intro finite_rate [OF rate_of_run]) simp_all
  moreover have "samples s < 2 ^ 63" using b ok(1,3) by (simp add: stats_ok_def)
  ultimately show ?thesis
    using s(1,3-6) assms(3) latency_doc_ok [OF ok(1,2) assms(5)] by (auto simp: op_doc_def split: option.splits)
qed

lemma op_weights_mem:
  "(k, v) \<in> set (foldl (\<lambda>m w. AList.update (Name w) (Weight w) m) m0 wops) \<Longrightarrow>
    (k, v) \<in> set m0 \<or> (\<exists>w \<in> set wops. k = Name w \<and> v = Weight w)"
proof (induction wops arbitrary: m0)
  case (Cons w ws)
  then have "(k, v) \<in> set (AList.update (Name w) (Weight w) m0) \<or> (\<exists>w \<in> set ws. k = Name w \<and> v = Weight w)" by simp
  then show ?case using set_update_subset [of "Name w" "Weight w" m0] by auto
qed simp

lemma config_doc_ok:
  assumes "config_i64 cfg" "ascii (Profile cfg)" "\<forall>w \<in> set wops. ascii (Name w) \<and> in_i64 (Weight w)"
  shows "doc_ok (config_doc (run_config cfg wops))"
proof -
  have "doc_ok (map_doc DInt (cOpWeights (run_config cfg wops)))"
    using assms(3) op_weights_mem [of _ _ "[]" wops] by (intro doc_ok_map) (auto simp: run_config_def)
  then show ?thesis using assms(1,2) by (simp add: config_doc_def run_config_def config_i64_def)
qed

text \<open>What was measured beside the workers.\<close>

definition meta_ok :: "RunMeta \<Rightarrow> bool" where
  "meta_ok meta \<longleftrightarrow> ascii (mStoppedBy meta) \<and>
     (\<forall>d. mDataset meta = Some d \<longrightarrow> doc_ok (dataset_doc d)) \<and> (\<forall>v. mServer meta = Some v \<longrightarrow> doc_ok (server_doc v))"

text \<open>Rows of the types the queries have: \<open>text\<close> and \<open>bigint\<close>.\<close>

definition rows_ok :: "('r \<Rightarrow> bool) \<Rightarrow> 'r rows \<Rightarrow> bool" where
  "rows_ok P q \<longleftrightarrow> (case q of Inl err \<Rightarrow> True | Inr (rs, fin) \<Rightarrow> \<forall>r. Inr r \<in> set rs \<longrightarrow> P r)"

definition size_row_ok :: "string \<times> int \<times> int \<Rightarrow> bool" where
  "size_row_ok r \<longleftrightarrow> (case r of (name, bytes, live) \<Rightarrow> ascii name \<and> in_i64 bytes \<and> in_i64 live)"

definition setting_row_ok :: "string \<times> string \<times> string \<Rightarrow> bool" where
  "setting_row_ok r \<longleftrightarrow> (case r of (name, setting, unit_) \<Rightarrow> ascii name \<and> ascii setting \<and> ascii unit_)"

lemma scan_rows_inv:
  assumes "\<And>r s s'. Q r \<Longrightarrow> P s \<Longrightarrow> f r s = Some s' \<Longrightarrow> P s'"
  shows "scan_rows f rs fin s = Some (e, s') \<Longrightarrow> P s \<Longrightarrow> \<forall>r. Inr r \<in> set rs \<longrightarrow> Q r \<Longrightarrow> P s'"
proof (induction rs arbitrary: s)
  case (Cons x rs)
  show ?case
  proof (cases x)
    case (Inr r)
    then obtain s1 where s1: "f r s = Some s1" "scan_rows f rs fin s1 = Some (e, s')"
      using Cons.prems(1) by (auto split: Option.bind_splits)
    moreover have "Q r" using Cons.prems(3) Inr by simp
    then have "P s1" using Cons.prems(2) s1(1) by (rule assms)
    ultimately show ?thesis using Cons.IH Cons.prems(3) by simp
  qed (use Cons.prems in simp)
qed simp

lemma snapshot_rows_inv:
  assumes "snapshot_rows qm sm rm f out q = Some (Inr s)" "rows_ok Q q" "P out"
    and step: "\<And>r s s'. Q r \<Longrightarrow> P s \<Longrightarrow> f r s = Some s' \<Longrightarrow> P s'"
  shows "P s"
proof -
  obtain rs fin e where q: "q = Inr (rs, fin)" "scan_rows f rs None out = Some (e, s)"
    using assms(1) by (auto simp: snapshot_rows_def split: sum.splits prod.splits Option.bind_splits option.splits)
  have "\<forall>r. Inr r \<in> set rs \<longrightarrow> Q r" using assms(2) by (simp add: rows_ok_def q(1))
  with step q(2) assms(3) show ?thesis by (rule scan_rows_inv)
qed

lemma ascii_append [simp]: "ascii (s @ t) \<longleftrightarrow> ascii s \<and> ascii t"
  by (auto simp: ascii_def)

lemma size_typed:
  assumes "SnapshotDataset q = Some (Inr d)" "rows_ok size_row_ok q"
  shows "in_i64 (TotalBytes d) \<and> doc_ok (size_doc d)"
proof -
  let ?P = "\<lambda>d. in_i64 (TotalBytes d) \<and> in_i64 (LiveTuples d) \<and> (\<forall>(k, v) \<in> set (TableBytes d). ascii k \<and> in_i64 v)"
  have "?P d"
    using assms(1) [unfolded SnapshotDataset_def] assms(2)
  proof (rule snapshot_rows_inv)
    show "?P empty_dataset" by (simp add: empty_dataset_def in_i64_def)
    fix r s s'
    assume r: "size_row_ok r" "?P s" "dataset_row r s = Some s'"
    obtain name bytes live where n: "r = (name, bytes, live)" by (metis prod_cases3)
    show "?P s'" using r set_update_subset [of name bytes "TableBytes s"] by (auto simp: n dataset_row_def size_row_ok_def)
  qed
  then show ?thesis by (auto simp: size_doc_def intro!: doc_ok_map)
qed

lemma server_typed:
  assumes "SnapshotServerInfo q = Some (Inr v)" "rows_ok setting_row_ok q"
  shows "doc_ok (server_doc v)"
proof -
  let ?P = "\<lambda>v. ascii (Version v) \<and> (\<forall>(k, x) \<in> set (Settings v). ascii k \<and> ascii x)"
  have "?P v"
    using assms(1) [unfolded SnapshotServerInfo_def] assms(2)
  proof (rule snapshot_rows_inv)
    show "?P empty_server" by (simp add: empty_server_def)
    fix r s s'
    assume r: "setting_row_ok r" "?P s" "setting_row r s = Some s'"
    obtain name x u where n: "r = (name, x, u)" by (metis prod_cases3)
    show "?P s'" using r set_update_subset [of name "if u \<noteq> [] then x @ '' '' @ u else x" "Settings s"]
      by (auto simp: n setting_row_def setting_row_ok_def Let_def split: if_splits)
  qed
  then show ?thesis by (auto simp: server_doc_def intro!: doc_ok_map)
qed

lemma Finalize_reach:
  assumes "reach (sys_init names) sys_step s" "distinct names" "drainer s = None"
    "Finalize (coll s) now ended = Some ((tot, ivs, st, en), c')"
  shows "reach (sys_init names) sys_step (s\<lparr>coll := c'\<rparr>)" "tot = totals c'" "ivs = intervals c'" "en = ended"
proof -
  have ok: "sys_ok names s" using assms(1,2) by (rule reach_sys_ok)
  obtain c1 m where d: "drain (coll s) now = Some (c1, m)" and run: "sys_step\<^sup>*\<^sup>* s (s\<lparr>coll := c1\<rparr>)"
    using drain_run [OF ok assms(3,2)] by blast
  have c': "c1 = c'" "tot = totals c'" "ivs = intervals c'" "en = ended" using assms(4) d by (auto simp: Finalize_def)
  then show "reach (sys_init names) sys_step (s\<lparr>coll := c'\<rparr>)" "tot = totals c'" "ivs = intervals c'" "en = ended"
    using reach_rtranclp [OF assms(1) run] by simp_all
qed

lemma cfg_same: "cfg\<lparr>PGDSN := PGDSN cfg\<rparr> = cfg"
  by simp

lemma Finalize_describes:
  assumes "reach (sys_init names) sys_step s" "distinct names" "drainer s = None"
    "Finalize (coll s) now ended = Some ((tot, ivs, st, ended), c')"
    "BuildRunResult tot st ended cfg wops (meta\<lparr>mTimeseries := ivs\<rparr>) = Some res"
  shows "describes names (history s) res"
proof -
  obtain r where "\<forall>dsn. BuildRunResult tot st ended (cfg\<lparr>PGDSN := dsn\<rparr>) wops (meta\<lparr>mTimeseries := ivs\<rparr>) = Some r"
      "describes names (history s) r"
    using Finalize_BuildRunResult [OF assms(1-3), of now ended cfg wops meta] assms(4) by auto
  then show ?thesis using assms(5) by (metis (full_types) cfg_same option.inject)
qed

lemma occurrences_le: "occurrences op P h \<le> int (length h)"
  by (simp add: occurrences_def)

lemma result_doc_parts:
  assumes "ascii a" "ascii b" "ascii (resProfile r)" "ascii (StoppedBy r)" "finite_f64 (DurationSeconds r)"
    "doc_ok (config_doc (ResConfig r))" "doc_ok (totals_doc (Totals r))"
    "\<forall>x \<in> set (ResOperations r). doc_ok (op_doc x)" "\<forall>iv \<in> set (Timeseries r). doc_ok (interval_doc iv)"
    "\<forall>d. Dataset r = Some d \<longrightarrow> doc_ok (dataset_doc d)" "\<forall>v. Server r = Some v \<longrightarrow> doc_ok (server_doc v)"
  shows "doc_ok (result_doc a b r)"
proof -
  have "list_all doc_ok (map op_doc (ResOperations r))" "list_all doc_ok (map interval_doc (Timeseries r))"
    using assms(8,9) by (simp_all add: list_all_iff)
  then show ?thesis
    using assms(1-7,10,11) by (cases "Dataset r"; cases "Server r") (simp_all add: result_doc_def doc_ok_omit)
qed

lemma result_doc_ok:
  assumes run: "reach (sys_init names) sys_step s" "distinct names" "drainer s = None"
    and fin: "Finalize (coll s) now ended = Some ((tot, ivs, st, ended), c')"
    and res: "BuildRunResult tot st ended cfg wops (meta\<lparr>mTimeseries := ivs\<rparr>) = Some res"
    and h: "length (history s) < 2 ^ 63" "\<forall>(op, d, err) \<in> set (history s). to_micros d < 2 ^ 63"
    and asc: "\<forall>op \<in> set names. ascii op" "ascii a" "ascii b" "ascii (Profile cfg)"
    and cfg: "doc_ok (config_doc (run_config cfg wops))" and meta: "meta_ok meta"
  shows "doc_ok (result_doc a b res)"
proof -
  let ?h = "history s"
  note R = Finalize_reach [OF run fin]
  have L: "int (length ?h) < 2 ^ 63" using h(1) by (metis of_nat_less_iff of_nat_numeral of_nat_power)
  obtain tot' ivs' st' c1 where F: "Finalize (coll s) now ended = Some ((tot', ivs', st', ended), c1)" "table_ok names tot'"
      "\<forall>op \<in> set names. stats_ok (stat_at tot' op) \<and> count (stat_at tot' op) = occurrences op (\<lambda>d err. True) ?h \<and>
         errors (stat_at tot' op) = occurrences op (\<lambda>d err. err \<noteq> None) ?h \<and>
         (\<forall>us. mget (lat (stat_at tot' op)) us = occurrences op (\<lambda>d err. err = None \<and> us = to_micros d) ?h)"
      "sum_list (map Ops ivs') = int (length ?h)"
    using Finalize_history [OF run, of now ended] by blast
  have "tot' = tot" "ivs' = ivs" using F(1) fin by auto
  note F = F(2-4) [unfolded this]
  have tab: "\<forall>op \<in> set names. stats_ok (stat_at tot op) \<and> covered ?h op (stat_at tot op) \<and> count (stat_at tot op) < 2 ^ 63"
  proof
    fix op
    assume op: "op \<in> set names"
    then have "count (stat_at tot op) < 2 ^ 63" using F(2) L occurrences_le [of op "\<lambda>d err. True" ?h] by simp
    then show "stats_ok (stat_at tot op) \<and> covered ?h op (stat_at tot op) \<and> count (stat_at tot op) < 2 ^ 63"
      using F(2) op by (auto intro!: coveredI)
  qed
  have D: "describes names ?h res" using run fin res by (rule Finalize_describes)
  obtain t rs where B: "build_ops tot (seconds (time_Sub ended st)) (sort (map fst tot)) (\<lparr>tOps = 0, tErrors = 0, tOpsPerSec = 0\<rparr>, []) = Some (t, rs)"
    using res by (auto simp: BuildRunResult_def Let_def split: Option.bind_splits)
  note E = BuildRunResult_Some [OF B, of cfg wops "meta\<lparr>mTimeseries := ivs\<rparr>", unfolded res]
  have n: "set (sort (map fst tot)) = set names" using F(1) by (simp add: table_ok_def)
  have ops: "\<forall>r \<in> set rs. doc_ok (op_doc r)"
    using op_doc_ok [OF B] n tab h(2) asc(1) by metis
  have T: "tOps t = int (length ?h)" "tErrors t = int (length (filter (\<lambda>(op, d, err). err \<noteq> None) ?h))"
    using D E by (simp_all add: describes_def)
  have "tErrors t \<le> int (length ?h)" unfolding T by (intro of_nat_mono length_filter_le)
  then have "tErrors t < 2 ^ 63" using L by (rule le_less_trans)
  then have "in_i64 (tErrors t)" "in_i64 (tOps t)" using L by (intro in_i64_nonneg; simp add: T)+
  then have tot: "doc_ok (totals_doc (Totals res))"
    using E T L finite_rate [OF rate_of_run, of "int (length ?h)"] by (simp add: totals_doc_def)
  have ok: "sys_ok names (s\<lparr>coll := c'\<rparr>)" using R(1) run(2) by (rule reach_sys_ok)
  have iv: "interval_ok names iv \<and> 0 < Ops iv" if "iv \<in> set ivs" for iv
    using ok that R(3) by (auto simp: sys_ok_def series_ok_def)
  have ivs: "doc_ok (interval_doc iv)" if "iv \<in> set ivs" for iv
  proof (rule interval_doc_ok)
    show "interval_typed ?h iv" using series_typed [OF R(1) run(2)] that R(3) by simp
    have "Ops iv \<le> sum_list (map Ops ivs)" using that iv by (intro member_le_sum_list) (auto simp: less_imp_le)
    then show "Ops iv < 2 ^ 63" using F(3) L by simp
  qed (use iv that asc h in auto)
  show ?thesis
  proof (rule result_doc_parts)
    show "finite_f64 (DurationSeconds res)" using E finite_seconds [of "time_Sub ended st"] by (simp add: time_Sub_def)
    show "\<forall>r \<in> set (ResOperations res). doc_ok (op_doc r)" using E ops by simp
    show "\<forall>iv \<in> set (Timeseries res). doc_ok (interval_doc iv)" using E ivs by simp
    show "doc_ok (config_doc (ResConfig res))" "ascii (resProfile res)" using E cfg asc(4) by simp_all
  qed (use E tot asc(2,3) meta in \<open>simp_all add: meta_ok_def\<close>)
qed

section \<open>Properties\<close>



end
