(* ===== verification/Readback.thy ===== *)
theory Readback
  imports Json Typing
begin

text \<open>
  Reading a result file. \<open>erase\<close> gives the JSON tree of a document, with its numbers as literals;
  \<open>MarshalIndent\<close> prints a text of the grammar of \<open>Json\<close> for that tree. The readers take a tree
  apart by the type of every field, as \<open>json.Unmarshal\<close> does: an integer must be within 64 bits,
  a double is the rounded value of its decimal (\<open>Decimal\<close>). A document whose integers fit, whose
  doubles are finite and whose strings are ASCII is read back as it was.
\<close>

section \<open>The text of a document\<close>

fun erase :: "doc \<Rightarrow> tree" where
  "erase (DStr s) = TStr s"
| "erase (DInt n) = TLit (itoa n)"
| "erase (DNum x) = TLit (fmt_float x)"
| "erase (DBool b) = TBool b"
| "erase (DArr xs) = TArr (map erase xs)"
| "erase (DObj kvs) = TObj (map (\<lambda>(k, v). (k, erase v)) kvs)"

text \<open>The items of \<open>brackets\<close>, with what separates them.\<close>

definition items :: "nat \<Rightarrow> string list \<Rightarrow> string" where
  "items m xs = newline m @ hd xs @ concat (map (\<lambda>s. CHR '','' # newline m @ s) (tl xs))"

lemma foldl_items:
  "foldl (\<lambda>acc s. acc @ CHR '','' # newline m @ s) x ys = x @ concat (map (\<lambda>s. CHR '','' # newline m @ s) ys)"
  by (induction ys arbitrary: x) simp_all

lemma brackets_items:
  "xs \<noteq> [] \<Longrightarrow> brackets n opn cls xs = opn @ (items (Suc n) xs @ newline n) @ cls"
  by (simp add: brackets_def items_def foldl_items)

lemma items_Cons: "items m (x # y # xs) = newline m @ x @ CHR '','' # items m (y # xs)" "items m [x] = newline m @ x"
  by (simp_all add: items_def)

lemma newline_ws [simp]: "list_all is_ws (newline n)"
  by (simp add: newline_def list_all_iff is_ws_def)

lemma items_elems:
  "xs \<noteq> [] \<Longrightarrow> list_all2 json_text xs ts \<Longrightarrow> json_elems (items m xs @ newline n) ts"
proof (induction xs arbitrary: ts rule: induct_list012)
  case (2 s)
  then show ?case using elem [of "newline m" s _ "newline n"] by (auto simp: list_all2_Cons1 items_Cons)
next
  case (3 s u us)
  then show ?case using elems [of "newline m" s] by (auto simp: list_all2_Cons1 items_Cons)
qed simp

lemma space_ws [simp]: "is_ws (CHR '' '')"
  by (simp add: is_ws_def)

lemma items_members:
  "ms \<noteq> [] \<Longrightarrow> \<forall>(k, s, t) \<in> set ms. json_text s t \<Longrightarrow>
    json_members (items m (map (\<lambda>(k, s, t). quote k @ '': '' @ s) ms) @ newline n) (map (\<lambda>(k, s, t). (k, t)) ms)"
proof (induction ms rule: induct_list012)
  case (2 p)
  then show ?case using member [of "newline m" "'' ''" _ _ "newline n"] by (auto simp: items_Cons)
next
  case (3 p p' ms)
  then show ?case using members [of "newline m" "'' ''"] by (auto simp: items_Cons)
qed simp

lemma MarshalIndent_text: "json_text (MarshalIndent n d) (erase d)"
proof (induction d arbitrary: n)
  case (DArr xs)
  have "list_all2 json_text (map (MarshalIndent (Suc n)) xs) (map erase xs)"
    using DArr by (auto simp: list.rel_map list.rel_refl_strong)
  then show ?case
    using arr [OF items_elems [of "map (MarshalIndent (Suc n)) xs" "map erase xs" "Suc n" n]] nil
    by (cases "xs = []") (simp_all add: brackets_items, simp add: brackets_def)
next
  case (DObj kvs)
  let ?ms = "map (\<lambda>(k, v). (k, MarshalIndent (Suc n) v, erase v)) kvs"
  have "\<forall>(k, s, t) \<in> set ?ms. json_text s t" using DObj by fastforce
  then show ?case
    using obj [OF items_members [of ?ms "Suc n" n]] empty
    by (cases "kvs = []") (simp_all add: brackets_items comp_def split_def, simp add: brackets_def)
next
  case (DBool b)
  then show ?case by (simp add: true false)
qed (simp_all add: str num)

section \<open>Reading a document back\<close>

definition field :: "string \<Rightarrow> tree \<Rightarrow> tree option" where
  "field k d = (case d of TObj kvs \<Rightarrow> map_of kvs k | _ \<Rightarrow> None)"

definition as_int :: "tree \<Rightarrow> int option" where "as_int d = (case d of TLit s \<Rightarrow> atoi s | _ \<Rightarrow> None)"
definition as_num :: "tree \<Rightarrow> float64 option" where "as_num d = (case d of TLit s \<Rightarrow> ParseFloat s | _ \<Rightarrow> None)"
definition as_str :: "tree \<Rightarrow> string option" where "as_str d = (case d of TStr s \<Rightarrow> Some s | _ \<Rightarrow> None)"
definition as_bool :: "tree \<Rightarrow> bool option" where "as_bool d = (case d of TBool b \<Rightarrow> Some b | _ \<Rightarrow> None)"

definition as_list :: "(tree \<Rightarrow> 'a option) \<Rightarrow> tree \<Rightarrow> 'a list option" where
  "as_list f d = (case d of TArr xs \<Rightarrow> those (map f xs) | _ \<Rightarrow> None)"

definition as_map :: "(tree \<Rightarrow> 'a option) \<Rightarrow> tree \<Rightarrow> (string \<times> 'a) list option" where
  "as_map f d = (case d of TObj kvs \<Rightarrow> those (map (\<lambda>(k, v). map_option (Pair k) (f v)) kvs) | _ \<Rightarrow> None)"

definition req :: "(tree \<Rightarrow> 'a option) \<Rightarrow> string \<Rightarrow> tree \<Rightarrow> 'a option" where
  "req f k d = Option.bind (field k d) f"

text \<open>A field that may be absent: the zero value, or nothing.\<close>

definition opt :: "'a \<Rightarrow> (tree \<Rightarrow> 'a option) \<Rightarrow> string \<Rightarrow> tree \<Rightarrow> 'a option" where
  "opt zero f k d = (case field k d of None \<Rightarrow> Some zero | Some x \<Rightarrow> f x)"

definition read_latency :: "tree \<Rightarrow> LatencyStats option" where
  "read_latency d = do {
     a \<leftarrow> req as_num ''min_ms'' d; b \<leftarrow> req as_num ''mean_ms'' d; c \<leftarrow> req as_num ''p50_ms'' d;
     e \<leftarrow> req as_num ''p95_ms'' d; f \<leftarrow> req as_num ''p99_ms'' d; g \<leftarrow> req as_num ''p999_ms'' d; h \<leftarrow> req as_num ''max_ms'' d;
     Some \<lparr>MinMS = a, MeanMS = b, P50MS = c, P95MS = e, P99MS = f, P999MS = g, MaxMS = h\<rparr>
   }"

definition read_op :: "tree \<Rightarrow> OpResult option" where
  "read_op d = do {
     a \<leftarrow> req as_str ''op'' d; b \<leftarrow> req as_int ''count'' d; c \<leftarrow> req as_int ''errors'' d; e \<leftarrow> req as_num ''ops_per_sec'' d;
     f \<leftarrow> opt None (\<lambda>x. map_option Some (read_latency x)) ''latency'' d;
     Some \<lparr>rOp = a, rCount = b, rErrors = c, rOpsPerSec = e, rLatency = f\<rparr>
   }"

definition read_interval_op :: "tree \<Rightarrow> IntervalOp option" where
  "read_interval_op d = do {
     a \<leftarrow> req as_str ''op'' d; b \<leftarrow> req as_int ''count'' d; c \<leftarrow> opt 0 as_int ''errors'' d; e \<leftarrow> req as_num ''ops_per_sec'' d;
     f \<leftarrow> req as_num ''p50_ms'' d; g \<leftarrow> req as_num ''p95_ms'' d; h \<leftarrow> req as_num ''p99_ms'' d;
     Some \<lparr>iOp = a, iCount = b, iErrors = c, iOpsPerSec = e, iP50MS = f, iP95MS = g, iP99MS = h\<rparr>
   }"

definition read_interval :: "tree \<Rightarrow> IntervalStats option" where
  "read_interval d = do {
     a \<leftarrow> req as_num ''start_seconds'' d; b \<leftarrow> req as_num ''end_seconds'' d; c \<leftarrow> req as_int ''ops'' d;
     e \<leftarrow> req as_int ''errors'' d; f \<leftarrow> req as_num ''ops_per_sec'' d; g \<leftarrow> req (as_list read_interval_op) ''operations'' d;
     Some \<lparr>StartSeconds = a, EndSeconds = b, Ops = c, Errors = e, OpsPerSec = f, Operations = g\<rparr>
   }"

definition read_totals :: "tree \<Rightarrow> RunTotals option" where
  "read_totals d = do {
     a \<leftarrow> req as_int ''ops'' d; b \<leftarrow> req as_int ''errors'' d; c \<leftarrow> req as_num ''ops_per_sec'' d;
     Some \<lparr>tOps = a, tErrors = b, tOpsPerSec = c\<rparr>
   }"

definition read_config_tree :: "tree \<Rightarrow> RunConfig option" where
  "read_config_tree d = do {
     a \<leftarrow> req as_str ''profile'' d; b \<leftarrow> req as_int ''workers'' d; c \<leftarrow> req as_int ''min_payload_kb'' d;
     e \<leftarrow> req as_int ''max_payload_kb'' d; f \<leftarrow> req as_int ''toast_pct'' d; g \<leftarrow> req as_bool ''read_payload'' d;
     h \<leftarrow> req as_bool ''create_indexes'' d; i \<leftarrow> req as_int ''ring_size'' d; j \<leftarrow> req as_int ''delete_batch_size'' d;
     k \<leftarrow> req as_int ''user_pool_size'' d; l \<leftarrow> req as_int ''actor_pool_size'' d; m \<leftarrow> req as_int ''think_time_ms'' d;
     n \<leftarrow> req as_int ''run_duration_secs'' d; w \<leftarrow> req (as_map as_int) ''op_weights'' d;
     Some \<lparr>cProfile = a, cWorkers = b, cMinPayloadKB = c, cMaxPayloadKB = e, cToastPct = f, cReadPayload = g,
       cCreateIndexes = h, cRingSize = i, cDeleteBatchSize = j, cUserPoolSize = k, cActorPoolSize = l,
       cThinkTimeMs = m, cRunDurationSecs = n, cOpWeights = w\<rparr>
   }"

definition read_size :: "tree \<Rightarrow> DatasetSize option" where
  "read_size d = do {
     a \<leftarrow> req as_int ''total_bytes'' d; b \<leftarrow> req as_int ''live_tuples'' d; c \<leftarrow> req (as_map as_int) ''table_bytes'' d;
     Some \<lparr>TotalBytes = a, LiveTuples = b, TableBytes = c\<rparr>
   }"

definition read_dataset :: "tree \<Rightarrow> DatasetSnapshot option" where
  "read_dataset d = do {
     a \<leftarrow> req read_size ''start'' d; b \<leftarrow> req read_size ''end'' d; c \<leftarrow> req as_int ''growth_bytes'' d;
     Some \<lparr>dStart = a, dEnd = b, GrowthBytes = c\<rparr>
   }"

definition read_server :: "tree \<Rightarrow> ServerInfo option" where
  "read_server d = do {
     a \<leftarrow> req as_str ''version'' d; b \<leftarrow> req (as_map as_str) ''settings'' d;
     Some \<lparr>Version = a, Settings = b\<rparr>
   }"

definition read_result :: "(string \<Rightarrow> int option) \<Rightarrow> tree \<Rightarrow> RunResult option" where
  "read_result parse_time d = do {
     a \<leftarrow> req as_str ''profile'' d; b \<leftarrow> req (\<lambda>x. Option.bind (as_str x) parse_time) ''started_at'' d;
     c \<leftarrow> req (\<lambda>x. Option.bind (as_str x) parse_time) ''ended_at'' d; e \<leftarrow> req as_num ''duration_seconds'' d;
     f \<leftarrow> opt [] as_str ''stopped_by'' d; g \<leftarrow> req read_config_tree ''config'' d; h \<leftarrow> req read_totals ''totals'' d;
     i \<leftarrow> req (as_list read_op) ''operations'' d; j \<leftarrow> opt [] (as_list read_interval) ''timeseries'' d;
     k \<leftarrow> opt None (\<lambda>x. map_option Some (read_dataset x)) ''dataset'' d;
     l \<leftarrow> opt None (\<lambda>x. map_option Some (read_server x)) ''server'' d;
     Some \<lparr>resProfile = a, StartedAt = b, EndedAt = c, DurationSeconds = e, StoppedBy = f, ResConfig = g, Totals = h,
       ResOperations = i, Timeseries = j, Dataset = k, Server = l\<rparr>
   }"

text \<open>Go maps are printed in the order of their keys.\<close>

definition sorted_size :: "DatasetSize \<Rightarrow> DatasetSize" where
  "sorted_size d = d\<lparr>TableBytes := sort_key fst (TableBytes d)\<rparr>"

definition sorted_maps :: "RunResult \<Rightarrow> RunResult" where
  "sorted_maps r = r\<lparr>
     ResConfig := (ResConfig r)\<lparr>cOpWeights := sort_key fst (cOpWeights (ResConfig r))\<rparr>,
     Dataset := map_option (\<lambda>d. d\<lparr>dStart := sorted_size (dStart d), dEnd := sorted_size (dEnd d)\<rparr>) (Dataset r),
     Server := map_option (\<lambda>s. s\<lparr>Settings := sort_key fst (Settings s)\<rparr>) (Server r)\<rparr>"


section \<open>Readable documents\<close>

lemma as_erase [simp]:
  "in_i64 n \<Longrightarrow> as_int (erase (DInt n)) = Some n" "finite_f64 x \<Longrightarrow> as_num (erase (DNum x)) = Some x"
  "as_str (erase (DStr s)) = Some s" "as_bool (erase (DBool b)) = Some b"
  by (simp_all add: as_int_def as_num_def as_str_def as_bool_def ParseFloat_fmt_float atoi_itoa)

declare erase.simps [simp del]

lemma field_erase: "field k (erase (DObj kvs)) = map_option erase (map_of kvs k)"
  by (simp add: field_def erase.simps map_of_map)

lemma as_list_erase:
  assumes "\<And>x. doc_ok (g x) \<Longrightarrow> f (erase (g x)) = Some x" "list_all (doc_ok \<circ> g) xs"
  shows "as_list f (erase (DArr (map g xs))) = Some xs"
proof -
  have "those (map f (map erase (map g xs))) = Some xs" using assms(2) by (induction xs) (simp_all add: assms(1))
  then show ?thesis by (simp add: as_list_def erase.simps)
qed

lemma as_map_erase:
  assumes "\<And>v. doc_ok (g v) \<Longrightarrow> f (erase (g v)) = Some v" "doc_ok (map_doc g m)"
  shows "as_map f (erase (map_doc g m)) = Some (sort_key fst m)"
proof -
  have "list_all (\<lambda>(k, v). doc_ok (g v)) (sort_key fst m)" using assms(2) by (auto simp: map_doc_def list_all_iff)
  moreover have "list_all (\<lambda>(k, v). doc_ok (g v)) xs \<Longrightarrow>
      those (map (\<lambda>p. map_option (Pair (fst p)) (f (erase (g (snd p))))) xs) = Some xs" for xs :: "(string \<times> _) list"
    by (induction xs) (auto simp: assms(1))
  ultimately have "those (map (\<lambda>p. map_option (Pair (fst p)) (f (erase (g (snd p))))) (sort_key fst m)) = Some (sort_key fst m)"
    by blast
  then show ?thesis by (simp add: as_map_def map_doc_def erase.simps comp_def split_def)
qed

lemma as_map_int: "doc_ok (map_doc DInt m) \<Longrightarrow> as_map as_int (erase (map_doc DInt m)) = Some (sort_key fst m)"
  by (rule as_map_erase) simp_all

lemmas reads = req_def opt_def field_erase

lemma read_latency_doc [simp]: "doc_ok (latency_doc l) \<Longrightarrow> read_latency (erase (latency_doc l)) = Some l"
  by (simp add: read_latency_def latency_doc_def reads)

lemma read_op_doc [simp]: "doc_ok (op_doc r) \<Longrightarrow> read_op (erase (op_doc r)) = Some r"
  by (cases "rLatency r") (simp_all add: read_op_def op_doc_def reads)

lemma read_interval_op_doc [simp]: "doc_ok (interval_op_doc r) \<Longrightarrow> read_interval_op (erase (interval_op_doc r)) = Some r"
  by (simp add: read_interval_op_def interval_op_doc_def omit_def reads split: if_splits)

lemma read_interval_doc [simp]: "doc_ok (interval_doc i) \<Longrightarrow> read_interval (erase (interval_doc i)) = Some i"
  by (simp add: read_interval_def interval_doc_def reads as_list_erase list.pred_map)

lemma read_totals_doc [simp]: "doc_ok (totals_doc t) \<Longrightarrow> read_totals (erase (totals_doc t)) = Some t"
  by (simp add: read_totals_def totals_doc_def reads)

lemma read_config_doc [simp]:
  "doc_ok (config_doc c) \<Longrightarrow> read_config_tree (erase (config_doc c)) = Some (c\<lparr>cOpWeights := sort_key fst (cOpWeights c)\<rparr>)"
  by (simp add: read_config_tree_def config_doc_def reads as_map_int)

lemma read_size_doc [simp]: "doc_ok (size_doc d) \<Longrightarrow> read_size (erase (size_doc d)) = Some (sorted_size d)"
  by (simp add: read_size_def size_doc_def reads as_map_int sorted_size_def)

lemma read_dataset_doc [simp]:
  "doc_ok (dataset_doc d) \<Longrightarrow>
    read_dataset (erase (dataset_doc d)) = Some (d\<lparr>dStart := sorted_size (dStart d), dEnd := sorted_size (dEnd d)\<rparr>)"
  by (simp add: read_dataset_def dataset_doc_def reads)

lemma read_server_doc [simp]:
  "doc_ok (server_doc s) \<Longrightarrow> read_server (erase (server_doc s)) = Some (s\<lparr>Settings := sort_key fst (Settings s)\<rparr>)"
  by (simp add: read_server_def server_doc_def reads as_map_erase)

lemma read_result_doc:
  assumes "parse_time a = Some (StartedAt r)" and "parse_time b = Some (EndedAt r)" and "doc_ok (result_doc a b r)"
  shows "read_result parse_time (erase (result_doc a b r)) = Some (sorted_maps r)"
  using assms
  by (cases "Dataset r"; cases "Server r")
    (simp_all add: read_result_def result_doc_def omit_def reads as_list_erase list.pred_map sorted_maps_def split: if_splits)

text \<open>Reading a file: parsing it, then taking the tree apart.\<close>

definition unmarshal_result :: "(string \<Rightarrow> int option) \<Rightarrow> string \<Rightarrow> RunResult option" where
  "unmarshal_result parse_time s = Option.bind (parse_json s) (read_result parse_time)"

lemma doc_ok_instants: "doc_ok (result_doc [] [] r) \<Longrightarrow> ascii a \<Longrightarrow> ascii b \<Longrightarrow> doc_ok (result_doc a b r)"
  by (simp add: result_doc_def)

lemma result_reads_back:
  assumes "marshal_result marshal_time r = Inr body"
    and "\<forall>t s. marshal_time t = Inr s \<longrightarrow> ascii s \<and> parse_time s = Some t"
    and "doc_ok (result_doc [] [] r)"
  shows "unmarshal_result parse_time (body @ [CHR 0x0A]) = Some (sorted_maps r)"
proof -
  obtain a b where m: "marshal_time (StartedAt r) = Inr a" "marshal_time (EndedAt r) = Inr b"
      "body = MarshalIndent 0 (result_doc a b r)"
    using assms(1) by (auto simp: marshal_result_def split: sum.splits)
  have t: "ascii a" "parse_time a = Some (StartedAt r)" "ascii b" "parse_time b = Some (EndedAt r)"
    using assms(2) m(1,2) by auto
  have "parse_json (body @ [CHR 0x0A]) = Some (erase (result_doc a b r))"
    unfolding m(3) by (rule parse_json_complete [OF MarshalIndent_text]) (simp add: is_ws_def)
  then show ?thesis
    using read_result_doc [OF t(2,4)] doc_ok_instants [OF assms(3) t(1,3)] by (simp add: unmarshal_result_def)
qed

section \<open>Properties\<close>

text \<open>
  C16: A result file loses nothing. If the integers of a result fit 64 bits, its doubles are finite
  and its strings ASCII, then the bytes that \<open>WriteRunResult\<close> writes (the indented JSON text and
  the final newline) parse as JSON, and every field of the result can be read back from them
  exactly: integers, doubles from their shortest decimal of at most 17 digits, escaped strings,
  the omitted fields at their zero values, and the maps in the order of their keys; whatever
  reads the two instants back.
\<close>

theorem result_roundtrip:
  assumes "marshal_result marshal_time r = Inr body"
    and "\<forall>t s. marshal_time t = Inr s \<longrightarrow> ascii s \<and> parse_time s = Some t"
    and "doc_ok (result_doc [] [] r)"
  shows "unmarshal_result parse_time (body @ [CHR 0x0A]) = Some (sorted_maps r)"
  using result_reads_back [OF assms] .

definition demo_result :: RunResult where
  "demo_result = \<lparr>resProfile = ''oltp-jsonb'', StartedAt = 3, EndedAt = 4, DurationSeconds = 1 / 2,
     StoppedBy = [], ResConfig = run_config (read_config Map.empty) [], Totals = \<lparr>tOps = 1, tErrors = 1, tOpsPerSec = 2\<rparr>,
     ResOperations = [\<lparr>rOp = ''a<b'', rCount = 1, rErrors = 1, rOpsPerSec = 2, rLatency = None\<rparr>],
     Timeseries = [], Dataset = None, Server = Some \<lparr>Version = ''17'', Settings = [(''b'', ''2''), (''a'', ''1'')]\<rparr>\<rparr>"

definition demo_time :: "int \<Rightarrow> goerr + string" where
  "demo_time t = (if in_i64 t then Inr (itoa t) else Inl (ErrText ''year outside of range''))"

lemma ascii_itoa: "ascii (itoa n)"
proof -
  have "ascii (nat_digits m)" for m using nat_digits_digits [of m] by (fastforce simp: ascii_def is_digit_def)
  then show ?thesis by (simp add: itoa_def)
qed

lemma finite_dyadic: "\<bar>m\<bar> \<le> 2 ^ 53 \<Longrightarrow> x = of_int m / 2 \<Longrightarrow> finite_f64 x"
proof -
  assume m: "\<bar>m\<bar> \<le> 2 ^ 53" "x = of_int m / 2"
  have "\<bar>rat_of_int m\<bar> \<le> 2 ^ 53" using m(1) by (metis of_int_abs of_int_le_iff of_int_numeral of_int_power)
  then have "\<bar>x\<bar> \<le> 2 ^ 53" using m(2) by simp
  moreover have "(2 :: rat) ^ 53 \<le> 2 ^ 1000" by (rule power_increasing) simp_all
  ultimately have f: "finite_f64 (rne x)" by (intro finite_rne) (rule order_trans)
  have "is_f64 x" unfolding is_f64_def using m by (intro exI [of _ m] exI [of _ "- 1"]) simp
  then show ?thesis using f rne_exact by simp
qed

lemma demo_doc_ok: "doc_ok (result_doc [] [] demo_result)"
proof (rule result_doc_parts)
  show "doc_ok (config_doc (ResConfig demo_result))"
    unfolding demo_result_def by simp (rule config_doc_ok, simp_all add: read_config_i64, simp add: read_config_def getEnv_def getenv_def)
  have "finite_f64 2" "finite_f64 (1 / 2)" by (rule finite_dyadic [of 4], simp, simp) (rule finite_dyadic [of 1], simp, simp)
  then show "finite_f64 (DurationSeconds demo_result)" "doc_ok (totals_doc (Totals demo_result))"
    "\<forall>x \<in> set (ResOperations demo_result). doc_ok (op_doc x)"
    by (simp_all add: demo_result_def totals_doc_def op_doc_def in_i64_def)
  show "\<forall>v. Server demo_result = Some v \<longrightarrow> doc_ok (server_doc v)"
    by (auto simp: demo_result_def server_doc_def intro!: doc_ok_map)
qed (simp_all add: demo_result_def)

theorem result_roundtrip_witness:
  "\<exists>body. marshal_result demo_time demo_result = Inr body \<and>
     map_option (\<lambda>r. (DurationSeconds r, map rOp (ResOperations r), map_option Settings (Server r)))
       (unmarshal_result atoi (body @ [CHR 0x0A])) = Some (1 / 2, [''a<b''], Some [(''a'', ''1''), (''b'', ''2'')])"
proof -
  obtain body where b: "marshal_result demo_time demo_result = Inr body"
    by (simp add: marshal_result_def demo_time_def demo_result_def in_i64_def)
  have t: "\<forall>t s. demo_time t = Inr s \<longrightarrow> ascii s \<and> atoi s = Some t" by (auto simp: demo_time_def ascii_itoa atoi_itoa)
  have s: "sort_key fst [(''b'', ''2''), (''a'', ''1'')] = [(''a'', ''1''), (''b'', ''2'')]" by code_simp
  have "unmarshal_result atoi (body @ [CHR 0x0A]) = Some (sorted_maps demo_result)"
    by (rule result_roundtrip [OF b t demo_doc_ok])
  then show ?thesis using b by (simp add: sorted_maps_def demo_result_def s)
qed

end
