(* ===== verification/Program.thy ===== *)
theory Program
  imports Worker Exporter Schema Result
begin

text \<open>
  The program: \<open>main.go\<close>.

  Start-up is a function of the environment and of what the packages outside the repository
  answer: it ends with \<open>log.Fatalf\<close>, with a panic, or with everything the workers need. \<open>start_loops\<close>,
  \<open>run_timeout\<close> and \<open>shutdown_timeout\<close> are the timers main sets from the configuration. The run is a step
  relation of the process: the main goroutine launches the workers, waits for a signal or for the
  end of the run, waits for the workers and finalizes; the workers record and return; the summary
  loop drains. A step of the collector is a step of \<open>Conservation\<close>, so that the process refines
  the system whose conservation is proved there. \<open>write_result\<close> is what main does
  with the report.

  A signal before \<open>signal.Notify\<close> kills the process, as the operating system does by default.
  Log output and the HTTP server, apart from the readiness it reports, are not represented.
\<close>

section \<open>Definitions\<close>

subsection \<open>Start-up\<close>

record profile =
  prof_Ops :: "OpDef list"
  prof_Schema :: Schema

definition OLTPProfile :: profile where
  "OLTPProfile = \<lparr>prof_Ops = oltp_Ops, prof_Schema = oltpSchema\<rparr>"

text \<open>The registry after the \<open>init\<close> functions of the package.\<close>

definition profiles :: "profile Weights.registry" where
  "profiles = RegisterProfile ProfileOLTP (\<lambda>_. OLTPProfile) []"

text \<open>What start-up asks: the driver, the server during the migration, the seeds and the entropy of
  the random sources, the Prometheus registry and the measurements of the server.\<close>

record ('c, 'p) deps =
  parse_dsn :: "string \<Rightarrow> goerr + 'c PoolConfig"
  create_pool :: "'c PoolConfig \<Rightarrow> goerr + 'p"
  ping :: "'p \<Rightarrow> goerr option"
  replies :: "nat \<Rightarrow> mcall \<Rightarrow> mreply"
  polls :: nat
  seeds :: "int \<Rightarrow> rng"
  entropy0 :: entropy
  registered :: Exporter.registry
  size_rows :: "(string \<times> int \<times> int) rows"
  setting_rows :: "(string \<times> string \<times> string) rows"

datatype fatal =
    LoadConfig string
  | SelectProfile profile_error
  | ResolveOpWeights string
  | CreatePool goerr
  | Migrate goerr

datatype 'a startup = Exit fatal | Blocked | Panicked | Up 'a

record 'p running =
  run_cfg :: Config
  run_profile :: profile
  run_ops :: "WeightedOp list"
  run_pool :: 'p
  run_ring :: SessionRing
  run_env :: exec_env
  run_registry :: Exporter.registry
  run_size :: "DatasetSize option"
  run_server :: "ServerInfo option"

text \<open>The package initialisation of the payloads, then \<open>profile.Init\<close>, whose error is always nil.\<close>

definition init_profile :: "('c, 'p) deps \<Rightarrow> Config \<Rightarrow> (SessionRing \<times> exec_env) option" where
  "init_profile D cfg = do {
     t \<leftarrow> payload_init (seeds D);
     (re, _) \<leftarrow> Init (seeds D) cfg t (entropy0 D);
     Some re
   }"

text \<open>A measurement is kept only if a result will be written and it succeeded.\<close>

definition measured :: "Config \<Rightarrow> (goerr + 'a) option \<Rightarrow> 'a option" where
  "measured cfg m = (if ResultJSONPath cfg = [] then None else (case m of Some (Inr x) \<Rightarrow> Some x | _ \<Rightarrow> None))"

text \<open>What follows the migration.\<close>

definition prepare :: "('c, 'p) deps \<Rightarrow> Config \<Rightarrow> profile \<Rightarrow> WeightedOp list \<Rightarrow> 'p \<Rightarrow> 'p running startup" where
  "prepare D cfg p wops pool = (case init_profile D cfg of
     None \<Rightarrow> Panicked
   | Some (r, en) \<Rightarrow>
     (case register_all (Config.CreateIndexes cfg) (registered D) of
        None \<Rightarrow> Panicked
      | Some reg \<Rightarrow>
        Up \<lparr>run_cfg = cfg, run_profile = p, run_ops = wops, run_pool = pool, run_ring = r, run_env = en,
            run_registry = reg, run_size = measured cfg (SnapshotDataset (size_rows D)),
            run_server = measured cfg (SnapshotServerInfo (setting_rows D))\<rparr>))"

text \<open>\<open>godotenv.Load\<close>: the variables of the file, if it can be read, where the process has none.\<close>

definition load_dotenv :: "goerr + env \<Rightarrow> env \<Rightarrow> env" where
  "load_dotenv file e = (case file of Inl err \<Rightarrow> e | Inr f \<Rightarrow> (\<lambda>k. case e k of Some v \<Rightarrow> Some v | None \<Rightarrow> f k))"

definition start_up :: "env \<Rightarrow> ('c, 'p) deps \<Rightarrow> 'p running startup" where
  "start_up e D = (case Load e of
     Inl msg \<Rightarrow> Exit (LoadConfig msg)
   | Inr cfg \<Rightarrow>
     (case GetProfile (Profile cfg) profiles of
        Inl err \<Rightarrow> Exit (SelectProfile err)
      | Inr p \<Rightarrow>
        (case ResolveWeights e (prof_Ops p) of
           Inl msg \<Rightarrow> Exit (ResolveOpWeights msg)
         | Inr wops \<Rightarrow>
           (case fst (NewPool (parse_dsn D) (create_pool D) (ping D) cfg) of
              Inl err \<Rightarrow> Exit (CreatePool err)
            | Inr pool \<Rightarrow>
              (case fst (run_io (MigrateWithLock (polls D) cfg (prof_Schema p)) (replies D) 0) of
                 Polling \<Rightarrow> Blocked
               | Returned (Some err) \<Rightarrow> Exit (Migrate err)
               | Returned None \<Rightarrow> prepare D cfg p wops pool)))))"

subsection \<open>Timers\<close>

text \<open>Periods and timeouts in nanoseconds. The loops are goroutines, each of which creates its ticker
  first; \<open>time.NewTicker\<close> panics on a period that is not positive, and a panic in any goroutine
  ends the process.\<close>

datatype background = SummaryLoop | TableStatsLoop | PGStatsLoop | IndexStatsLoop

definition NewTicker :: "int \<Rightarrow> int option" where
  "NewTicker interval = (if interval \<le> 0 then None else Some interval)"

definition background_loops :: "Config \<Rightarrow> (background \<times> int) list" where
  "background_loops cfg =
     (let summaryInterval = duration (SummaryIntervalSecs cfg) Second;
          indexStatsInterval = duration (IndexStatsIntervalSecs cfg) Second
      in [(SummaryLoop, summaryInterval), (TableStatsLoop, indexStatsInterval), (PGStatsLoop, indexStatsInterval)] @
         (if Config.CreateIndexes cfg then [(IndexStatsLoop, indexStatsInterval)] else []))"

definition start_loops :: "Config \<Rightarrow> (background \<times> int) list option" where
  "start_loops cfg = those (map (\<lambda>(l, interval). map_option (Pair l) (NewTicker interval)) (background_loops cfg))"

text \<open>The timeout of the run's context, if it has one, and of the server's shutdown.\<close>

definition run_timeout :: "Config \<Rightarrow> int option" where
  "run_timeout cfg = (if RunDurationSecs cfg > 0 then Some (duration (RunDurationSecs cfg) Second) else None)"

definition shutdown_timeout :: "Config \<Rightarrow> int" where
  "shutdown_timeout cfg = duration (ShutdownTimeoutSecs cfg) Second"

subsection \<open>The run\<close>

text \<open>\<open>Launching k\<close>: the loop that starts the workers has started \<open>k\<close>. \<open>Launched\<close>: ready, but
  signals are not yet caught. \<open>Serving\<close>: in the select. \<open>Waiting\<close>: in \<open>wg.Wait\<close>.\<close>

datatype phase = Launching nat | Launched | Serving | Waiting | Finishing | Finished | Killed

type_synonym report = "(string, opStats) gomap \<times> IntervalStats list \<times> int \<times> int"

record proc =
  phase :: phase
  psys :: sys
  alive :: "nat list"
  cancelled :: bool
  ready_flag :: bool
  stoppedBy :: string
  report :: "report option"

definition main_init :: "string list \<Rightarrow> proc \<Rightarrow> bool" where
  "main_init names p \<longleftrightarrow> (\<exists>s. sys_init names s \<and>
     p = \<lparr>phase = Launching 0, psys = s, alive = [], cancelled = False, ready_flag = False, stoppedBy = StoppedBySignal,
          report = None\<rparr>)"

inductive main_step :: "Config \<Rightarrow> proc \<Rightarrow> proc \<Rightarrow> bool" for cfg where
  launch: "phase p = Launching k \<Longrightarrow> int k < Workers cfg \<Longrightarrow> drainer (psys p) = None \<Longrightarrow>
     main_step cfg p (p\<lparr>phase := Launching (Suc k), psys := (psys p)\<lparr>coll := NewWorkerStats (coll (psys p))\<rparr>,
       alive := alive p @ [k]\<rparr>)"
| launched: "phase p = Launching k \<Longrightarrow> Workers cfg \<le> int k \<Longrightarrow>
     main_step cfg p (p\<lparr>phase := Launched, ready_flag := True\<rparr>)"
| notify: "phase p = Launched \<Longrightarrow> main_step cfg p (p\<lparr>phase := Serving\<rparr>)"
| kill: "phase p = Launching k \<or> phase p = Launched \<Longrightarrow>
     main_step cfg p (p\<lparr>phase := Killed, alive := []\<rparr>)"
| deadline: "0 < RunDurationSecs cfg \<Longrightarrow> main_step cfg p (p\<lparr>cancelled := True\<rparr>)"
| caught: "phase p = Serving \<Longrightarrow> main_step cfg p (p\<lparr>phase := Waiting, cancelled := True\<rparr>)"
| ctx_done: "phase p = Serving \<Longrightarrow> cancelled p \<Longrightarrow>
     main_step cfg p (p\<lparr>phase := Waiting, stoppedBy := StoppedByDuration\<rparr>)"
| records: "i \<in> set (alive p) \<Longrightarrow> i < length (workers (coll (psys p))) \<Longrightarrow> op \<in> set (ops (coll (psys p))) \<Longrightarrow>
     Record (workers (coll (psys p)) ! i) op d err = Some ws \<Longrightarrow>
     main_step cfg p (p\<lparr>psys := (psys p)\<lparr>coll := (coll (psys p))\<lparr>workers := (workers (coll (psys p)))[i := ws]\<rparr>,
       history := history (psys p) @ [(op, d, err)]\<rparr>\<rparr>)"
| returns: "i \<in> set (alive p) \<Longrightarrow> cancelled p \<Longrightarrow> main_step cfg p (p\<lparr>alive := remove1 i (alive p)\<rparr>)"
| summary: "phase p \<noteq> Killed \<Longrightarrow> drain_step (psys p) s' \<Longrightarrow> main_step cfg p (p\<lparr>psys := s'\<rparr>)"
| waited: "phase p = Waiting \<Longrightarrow> alive p = [] \<Longrightarrow> main_step cfg p (p\<lparr>phase := Finishing\<rparr>)"
| no_result: "phase p = Finishing \<Longrightarrow> ResultJSONPath cfg = [] \<Longrightarrow> main_step cfg p (p\<lparr>phase := Finished\<rparr>)"
| finalize: "phase p = Finishing \<Longrightarrow> ResultJSONPath cfg \<noteq> [] \<Longrightarrow> drainer (psys p) = None \<Longrightarrow>
     Finalize (coll (psys p)) now ended = Some (rep, c') \<Longrightarrow>
     main_step cfg p (p\<lparr>phase := Finished, psys := (psys p)\<lparr>coll := c'\<rparr>, report := Some rep\<rparr>)"

inductive_cases main_stepE: "main_step cfg p p'"

text \<open>The handler of \<open>/readyz\<close>.\<close>

definition readyz :: "proc \<Rightarrow> int" where
  "readyz p = (if ready_flag p then 200 else 503)"

text \<open>The routes of the HTTP server; \<open>metrics\<close> is the status of the Prometheus handler.\<close>

definition http_status :: "int \<Rightarrow> proc \<Rightarrow> string \<Rightarrow> int" where
  "http_status metrics p path =
     (if path = ''/metrics'' then metrics
      else if path = ''/healthz'' then 200
      else if path = ''/readyz'' then readyz p
      else 404)"

subsection \<open>The result\<close>

definition dataset_of :: "DatasetSize option \<Rightarrow> (goerr + DatasetSize) option \<Rightarrow> DatasetSnapshot option" where
  "dataset_of datasetStart datasetEnd = (case datasetStart of
     None \<Rightarrow> None
   | Some ds \<Rightarrow>
     (case datasetEnd of
        Some (Inr de) \<Rightarrow> Some \<lparr>dStart = ds, dEnd = de, GrowthBytes = i64 (TotalBytes de - TotalBytes ds)\<rparr>
      | _ \<Rightarrow> None))"

text \<open>\<open>None\<close> is a panic of \<open>BuildRunResult\<close>; without a path nothing is written. The result is returned
  with what \<open>WriteRunResult\<close> does.\<close>

definition write_result ::
  "(int \<Rightarrow> goerr + string) \<Rightarrow> (string \<Rightarrow> string) \<Rightarrow> fs_env \<Rightarrow> 'p running \<Rightarrow> (string \<times> int \<times> int) rows \<Rightarrow> string \<Rightarrow>
   report \<Rightarrow> fs \<Rightarrow> (RunResult \<times> goerr option \<times> fs list) option" where
  "write_result marshal_time filepath_Dir fe R end_rows stopped rep f0 = (case rep of (tot, ivs, started, ended) \<Rightarrow> do {
     let meta = \<lparr>mDataset = dataset_of (run_size R) (SnapshotDataset end_rows), mServer = run_server R,
                 mStoppedBy = stopped, mTimeseries = ivs\<rparr>;
     res \<leftarrow> BuildRunResult tot started ended (run_cfg R) (run_ops R) meta;
     (err, fss) \<leftarrow> Some (WriteRunResult marshal_time filepath_Dir fe (ResultJSONPath (run_cfg R)) res f0);
     Some (res, err, fss)
   })"

section \<open>Lemmas\<close>

subsection \<open>Start-up\<close>

lemma GetProfile_profiles: "GetProfile n profiles = Inr p \<longleftrightarrow> n = ProfileOLTP \<and> p = OLTPProfile"
  by (auto simp: GetProfile_def profiles_def RegisterProfile_def split: option.splits if_splits)

lemma oltp_names: "distinct (OpNames (resolved e oltp_Ops))" "resolved e oltp_Ops \<noteq> []"
  by (simp_all add: resolved_def oltp_Ops_def OpNames_def OpInsert_def OpReadSimple_def OpReadJoin_def OpUpdate_def
      OpDelete_def OpReadByIP_def)

lemma start_up_cases:
  "(\<exists>f. start_up e D = Exit f) \<or> start_up e D = Blocked \<or>
   (\<exists>wops pool. Load e = Inr (read_config e) \<and> config_ok (read_config e) \<and> ResolveWeights e oltp_Ops = Inr wops \<and>
      start_up e D = prepare D (read_config e) OLTPProfile wops pool)"
proof (cases "Load e")
  case (Inr cfg)
  then have cfg: "cfg = read_config e" "config_ok cfg" using Load_Inr_iff [of e cfg] by auto
  show ?thesis
  proof (cases "GetProfile (Profile cfg) profiles")
    case p: (Inr p)
    then have po: "p = OLTPProfile" by (simp add: GetProfile_profiles)
    show ?thesis
    proof (cases "ResolveWeights e (prof_Ops p)")
      case w: (Inr wops)
      then have "ResolveWeights e oltp_Ops = Inr wops" by (simp add: po OLTPProfile_def)
      then show ?thesis
        using Inr p w cfg
        by (cases "fst (NewPool (parse_dsn D) (create_pool D) (ping D) cfg)";
            cases "fst (run_io (MigrateWithLock (polls D) cfg (prof_Schema p)) (replies D) 0)")
          (auto simp: start_up_def po split: option.split)
    qed (use Inr p in \<open>simp add: start_up_def\<close>)
  qed (use Inr in \<open>simp add: start_up_def\<close>)
qed (simp add: start_up_def)

lemma init_profile_ok:
  assumes "config_ok cfg" "MaxPayloadKB cfg \<le> 2 ^ 30"
  shows "if pools_fit cfg
         then \<exists>r en. init_profile D cfg = Some (r, en) \<and> env_ok en \<and> ring_inv r \<and> contents r = [] \<and> rsize r = RingSize cfg \<and>
           ecfg en = cfg
         else init_profile D cfg = None"
  using Init_ok [OF assms, of "seeds D" "entropy0 D"] by (auto simp: init_profile_def)

lemma prepare_Up:
  assumes "config_ok cfg" "MaxPayloadKB cfg \<le> 2 ^ 30" "\<forall>d \<in> set (registered D). take 8 (fqName d) \<noteq> ''pgstorm_''"
    "pools_fit cfg"
  shows "\<exists>R. prepare D cfg p wops pool = Up R \<and> run_cfg R = cfg \<and> run_profile R = p \<and> run_ops R = wops \<and> run_pool R = pool \<and>
     env_ok (run_env R) \<and> ecfg (run_env R) = cfg \<and> ring_inv (run_ring R) \<and> contents (run_ring R) = [] \<and>
     rsize (run_ring R) = RingSize cfg \<and> run_registry R = registered D @ concat (all_collectors (Config.CreateIndexes cfg))"
  using init_profile_ok [OF assms(1,2), of D] assms(4) all_collectors_new(1) [OF assms(3), of "Config.CreateIndexes cfg"]
  by (auto simp: prepare_def register_all_eq)

lemma prepare_Panicked:
  "config_ok cfg \<Longrightarrow> MaxPayloadKB cfg \<le> 2 ^ 30 \<Longrightarrow> \<not> pools_fit cfg \<Longrightarrow> prepare D cfg p wops pool = Panicked"
  using init_profile_ok [of cfg D] by (simp add: prepare_def)

subsection \<open>Timers\<close>

lemma duration_positive_iff:
  "0 < duration n Second \<longleftrightarrow> n * 1000000000 mod 2 ^ 64 \<in> {1..<2 ^ 63}"
proof -
  have "i64 x = (if x mod 2 ^ 64 < 2 ^ 63 then x mod 2 ^ 64 else x mod 2 ^ 64 - 2 ^ 64)" for x :: int
  proof -
    have "0 \<le> x mod 2 ^ 64" "x mod 2 ^ 64 < 2 ^ 64" by simp_all
    moreover have "i64 x = i64 (x mod 2 ^ 64)" "i64 x = i64 (x mod 2 ^ 64 - 2 ^ 64)" by (simp_all add: i64_cong)
    moreover have "2 ^ 63 \<le> x mod 2 ^ 64 \<Longrightarrow> i64 (x mod 2 ^ 64 - 2 ^ 64) = x mod 2 ^ 64 - 2 ^ 64"
      using \<open>x mod 2 ^ 64 < 2 ^ 64\<close> by (intro i64_id) (simp add: in_i64_def)
    ultimately show ?thesis using i64_nonneg [of "x mod 2 ^ 64"] by (cases "x mod 2 ^ 64 < 2 ^ 63") simp_all
  qed
  moreover have "0 \<le> n * 1000000000 mod 2 ^ 64" "n * 1000000000 mod 2 ^ 64 < 2 ^ 64" by simp_all
  ultimately show ?thesis unfolding duration_def by auto
qed

text \<open>The loops of a run and the setting that gives each its period in seconds.\<close>

definition loops :: "Config \<Rightarrow> background set" where
  "loops cfg = {SummaryLoop, TableStatsLoop, PGStatsLoop} \<union> (if Config.CreateIndexes cfg then {IndexStatsLoop} else {})"

definition secs :: "Config \<Rightarrow> background \<Rightarrow> int" where
  "secs cfg l = (if l = SummaryLoop then SummaryIntervalSecs cfg else IndexStatsIntervalSecs cfg)"

lemma start_loops_eq:
  "start_loops cfg =
     (if \<forall>(l, d) \<in> set (background_loops cfg). 0 < d then Some (background_loops cfg) else None)"
  by (auto simp: start_loops_def background_loops_def NewTicker_def Let_def)

subsection \<open>The process\<close>

text \<open>A report from which every configuration builds a result that describes the history.\<close>

definition reports :: "string list \<Rightarrow> observation list \<Rightarrow> report \<Rightarrow> bool" where
  "reports names h rep \<longleftrightarrow> (case rep of (tot, ivs, st, ended) \<Rightarrow> \<forall>cfg wops meta. mTimeseries meta = ivs \<longrightarrow>
     (\<exists>res. BuildRunResult tot st ended cfg wops meta = Some res \<and> describes names h res))"

lemma reportsD:
  "reports names h (tot, ivs, st, ended) \<Longrightarrow> mTimeseries meta = ivs \<Longrightarrow>
   \<exists>res. BuildRunResult tot st ended cfg wops meta = Some res \<and> describes names h res"
  by (simp add: reports_def)

definition main_inv :: "string list \<Rightarrow> Config \<Rightarrow> proc \<Rightarrow> bool" where
  "main_inv names cfg p \<longleftrightarrow>
     reach (sys_init names) sys_step (psys p) \<and>
     (phase p \<in> {Finishing, Finished} \<longrightarrow> alive p = []) \<and>
     (\<forall>k. phase p = Launching k \<longrightarrow> length (workers (coll (psys p))) = k \<and> int k \<le> Workers cfg \<and> \<not> ready_flag p) \<and>
     (ready_flag p \<longrightarrow> int (length (workers (coll (psys p)))) = Workers cfg) \<and>
     (cancelled p \<longrightarrow> phase p \<in> {Waiting, Finishing, Finished} \<or> 0 < RunDurationSecs cfg) \<and>
     (phase p \<in> {Waiting, Finishing, Finished} \<longrightarrow> cancelled p) \<and>
     (stoppedBy p = StoppedBySignal \<or> stoppedBy p = StoppedByDuration \<and> 0 < RunDurationSecs cfg) \<and>
     (\<forall>rep. report p = Some rep \<longrightarrow> phase p = Finished \<and> reports names (history (psys p)) rep)"

lemma Finalize_reports:
  assumes "reach (sys_init names) sys_step s" "distinct names" "drainer s = None"
    "Finalize (coll s) now ended = Some (rep, c')"
  shows "reports names (history s) rep" "reach (sys_init names) sys_step (s\<lparr>coll := c'\<rparr>)"
    "length (workers c') = length (workers (coll s))"
proof -
  obtain tot ivs st where rep: "rep = (tot, ivs, st, ended)" and d: "\<exists>m. drain (coll s) now = Some (c', m)"
    using assms(4) by (auto simp: Finalize_def split: bind_splits)
  have "\<exists>res. BuildRunResult tot st ended cfg wops meta = Some res \<and> describes names (history s) res"
    if "mTimeseries meta = ivs" for cfg wops meta
  proof -
    obtain tot' ivs' st' c'' res where F: "Finalize (coll s) now ended = Some ((tot', ivs', st', ended), c'')"
        "BuildRunResult tot' st' ended (cfg\<lparr>PGDSN := PGDSN cfg\<rparr>) wops (meta\<lparr>mTimeseries := ivs'\<rparr>) = Some res"
        "describes names (history s) res"
      using Finalize_BuildRunResult [OF assms(1-3), of now ended cfg wops meta] by blast
    have "tot' = tot" "ivs' = ivs" "st' = st" using F(1) assms(4) by (simp_all add: rep)
    moreover have "cfg\<lparr>PGDSN := PGDSN cfg\<rparr> = cfg" "meta\<lparr>mTimeseries := ivs\<rparr> = meta" using that by auto
    ultimately show ?thesis using F(2,3) by auto
  qed
  then show "reports names (history s) rep" by (simp add: reports_def rep)
  have ok: "sys_ok names s" using assms(1,2) by (rule reach_sys_ok)
  have "sys_step\<^sup>*\<^sup>* s (s\<lparr>coll := c'\<rparr>) \<and> workers c' = map (\<lambda>w. snd (snapshot w)) (workers (coll s))"
    using drain_run [OF ok assms(3,2), of now] d by auto
  then show "reach (sys_init names) sys_step (s\<lparr>coll := c'\<rparr>)" "length (workers c') = length (workers (coll s))"
    using reach_rtranclp [OF assms(1)] by auto
qed

lemma main_inv_step:
  assumes inv: "main_inv names cfg p" and dist: "distinct names" and W: "0 \<le> Workers cfg" and st: "main_step cfg p p'"
  shows "main_inv names cfg p'"
  using st
proof (cases rule: main_step.cases)
  case (launch k)
  have "sys_step (psys p) ((psys p)\<lparr>coll := NewWorkerStats (coll (psys p))\<rparr>)" using launch(4) by (rule new_worker)
  then have "reach (sys_init names) sys_step ((psys p)\<lparr>coll := NewWorkerStats (coll (psys p))\<rparr>)"
    using inv reach.next_step unfolding main_inv_def by metis
  then show ?thesis using inv launch by (simp add: main_inv_def NewWorkerStats_def)
next
  case (launched k)
  then show ?thesis using inv by (auto simp: main_inv_def)
next
  case (records i op d err ws)
  have "sys_step (psys p) ((psys p)\<lparr>coll := (coll (psys p))\<lparr>workers := (workers (coll (psys p)))[i := ws]\<rparr>,
       history := history (psys p) @ [(op, d, err)]\<rparr>)"
    using records by (intro record_call) simp_all
  then have "reach (sys_init names) sys_step ((psys p)\<lparr>coll := (coll (psys p))\<lparr>workers := (workers (coll (psys p)))[i := ws]\<rparr>,
       history := history (psys p) @ [(op, d, err)]\<rparr>)"
    using inv reach.next_step unfolding main_inv_def by metis
  moreover have "phase p \<noteq> Finished" using inv records by (auto simp: main_inv_def)
  ultimately show ?thesis using inv records by (auto simp: main_inv_def)
next
  case (summary s')
  then have "sys_step (psys p) s'" "history s' = history (psys p)" "length (workers (coll s')) = length (workers (coll (psys p)))"
    by (auto simp: drain_step_def)
  moreover from this(1) have "reach (sys_init names) sys_step s'"
    using inv reach.next_step unfolding main_inv_def by metis
  ultimately show ?thesis using inv summary by (simp add: main_inv_def)
next
  case (finalize now ended rep c')
  then show ?thesis
    using inv Finalize_reports [OF _ dist finalize(4,5)] by (auto simp: main_inv_def)
next
  case notify
  then show ?thesis using inv by (simp add: main_inv_def)
next
  case (kill k)
  have "phase p \<noteq> Waiting" "phase p \<noteq> Finishing" "phase p \<noteq> Finished" using kill(2) by auto
  then show ?thesis using inv by (simp add: main_inv_def kill(1))
next
  case deadline
  then show ?thesis using inv by (simp add: main_inv_def)
next
  case caught
  then show ?thesis using inv by (simp add: main_inv_def)
next
  case ctx_done
  then show ?thesis using inv by (auto simp: main_inv_def)
next
  case (returns i)
  then show ?thesis using inv by (auto simp: main_inv_def)
next
  case waited
  then show ?thesis using inv by (simp add: main_inv_def)
next
  case no_result
  then show ?thesis using inv by (simp add: main_inv_def)
qed

lemma main_inv_init: "main_init names p \<Longrightarrow> 0 \<le> Workers cfg \<Longrightarrow> main_inv names cfg p"
  by (auto simp: main_init_def main_inv_def sys_init_def NewStatsCollector_def intro!: reach.start)

interpretation process: inductive_invariant "main_init names" "main_step cfg"
    "\<lambda>p. distinct names \<longrightarrow> 0 \<le> Workers cfg \<longrightarrow> main_inv names cfg p" for names cfg
  by unfold_locales (auto intro: main_inv_init main_inv_step)

subsection \<open>Finishing\<close>

lemma ready_stays: "main_step cfg p p' \<Longrightarrow> ready_flag p \<Longrightarrow> ready_flag p'"
  by (cases rule: main_step.cases) auto

lemma ready_phases:
  "reach (main_init names) (main_step cfg) p \<Longrightarrow> phase p \<in> {Launched, Serving, Waiting, Finishing, Finished} \<Longrightarrow> ready_flag p"
proof (induction rule: reach.induct)
  case (start p)
  then show ?case by (auto simp: main_init_def)
next
  case (next_step p p')
  from next_step.hyps(2) show ?case using next_step.IH next_step.prems by (cases rule: main_step.cases) auto
qed

lemma workers_return:
  assumes "cancelled p"
  shows "(main_step cfg)\<^sup>*\<^sup>* p (p\<lparr>alive := []\<rparr>)"
  using assms
proof (induction "length (alive p)" arbitrary: p)
  case 0
  then have "p\<lparr>alive := []\<rparr> = p" by simp
  then show ?case by simp
next
  case (Suc n)
  then obtain i where i: "i \<in> set (alive p)" by (cases "alive p") auto
  have "main_step cfg p (p\<lparr>alive := remove1 i (alive p)\<rparr>)" using i Suc.prems by (rule returns)
  moreover have "(main_step cfg)\<^sup>*\<^sup>* (p\<lparr>alive := remove1 i (alive p)\<rparr>) (p\<lparr>alive := remove1 i (alive p)\<rparr>\<lparr>alive := []\<rparr>)"
    using Suc i by (intro Suc.hyps) (simp_all add: length_remove1)
  ultimately show ?case by simp
qed

lemma drain_lift:
  assumes "drain_step\<^sup>*\<^sup>* s s'" "psys p = s" "phase p \<noteq> Killed"
  shows "(main_step cfg)\<^sup>*\<^sup>* p (p\<lparr>psys := s'\<rparr>)"
  using assms(1)
proof (induction rule: rtranclp_induct)
  case base
  have "p\<lparr>psys := s\<rparr> = p" using assms(2) by auto
  then show ?case by simp
next
  case (step t u)
  have "main_step cfg (p\<lparr>psys := t\<rparr>) (p\<lparr>psys := t\<rparr>\<lparr>psys := u\<rparr>)" using step(2) assms(3) by (intro summary) simp_all
  then show ?case using step.IH by simp
qed

lemma finish_run:
  assumes inv: "main_inv names cfg p" and dist: "distinct names" and ph: "phase p = Finishing"
  shows "\<exists>p'. (main_step cfg)\<^sup>*\<^sup>* p p' \<and> phase p' = Finished \<and> history (psys p') = history (psys p) \<and>
     (ResultJSONPath cfg \<noteq> [] \<longrightarrow> report p' \<noteq> None)"
proof (cases "ResultJSONPath cfg = []")
  case True
  then have "main_step cfg p (p\<lparr>phase := Finished\<rparr>)" using ph by (intro no_result)
  then show ?thesis using True by (intro exI [of _ "p\<lparr>phase := Finished\<rparr>"]) simp
next
  case False
  have r: "reach (sys_init names) sys_step (psys p)" using inv by (simp add: main_inv_def)
  obtain s' where s': "drain_step\<^sup>*\<^sup>* (psys p) s'" "drainer s' = None" "history s' = history (psys p)"
    using drain_completes [OF reach_sys_ok [OF r dist] dist] by blast
  have r': "reach (sys_init names) sys_step s'" using reach_rtranclp [OF r drain_steps [OF s'(1)]] .
  obtain rep c' where F: "Finalize (coll s') 0 0 = Some (rep, c')"
    using Finalize_history [OF r' dist s'(2), of 0 0] by blast
  let ?p = "p\<lparr>psys := s'\<rparr>" let ?q = "?p\<lparr>phase := Finished, psys := s'\<lparr>coll := c'\<rparr>, report := Some rep\<rparr>"
  have "(main_step cfg)\<^sup>*\<^sup>* p ?p" using drain_lift [OF s'(1)] ph by simp
  moreover have "main_step cfg ?p ?q" using finalize [of ?p cfg 0 0 rep c'] ph False s'(2) F by simp
  ultimately have "(main_step cfg)\<^sup>*\<^sup>* p ?q" by simp
  then show ?thesis using s'(3) by (intro exI [of _ ?q]) simp
qed

lemma finishes:
  assumes r: "reach (main_init names) (main_step cfg) p" and dist: "distinct names" and W: "0 \<le> Workers cfg"
    and ph: "phase p = Serving \<or> phase p = Waiting \<or> phase p = Finishing"
  shows "\<exists>p'. (main_step cfg)\<^sup>*\<^sup>* p p' \<and> phase p' = Finished \<and> alive p' = [] \<and> history (psys p') = history (psys p) \<and>
     (ResultJSONPath cfg \<noteq> [] \<longrightarrow> report p' \<noteq> None)"
proof -
  have inv: "main_inv names cfg q" if "(main_step cfg)\<^sup>*\<^sup>* p q" for q
    using process.always_good [OF reach_rtranclp [OF r that]] dist W by blast
  have "\<exists>q. (main_step cfg)\<^sup>*\<^sup>* p q \<and> phase q = Finishing \<and> history (psys q) = history (psys p)"
  proof (cases "phase p = Finishing")
    case False
    obtain q where q: "(main_step cfg)\<^sup>*\<^sup>* p q" "phase q = Waiting" "psys q = psys p"
    proof (cases "phase p = Waiting")
      case True
      then show thesis using that by blast
    next
      case False
      then have "main_step cfg p (p\<lparr>phase := Waiting, cancelled := True\<rparr>)" using ph \<open>phase p \<noteq> Finishing\<close> by (intro caught) simp
      then show thesis using that [of "p\<lparr>phase := Waiting, cancelled := True\<rparr>"] by auto
    qed
    have "cancelled q" using inv [OF q(1)] q(2) by (simp add: main_inv_def)
    then have "(main_step cfg)\<^sup>*\<^sup>* q (q\<lparr>alive := []\<rparr>)" by (rule workers_return)
    moreover have "main_step cfg (q\<lparr>alive := []\<rparr>) (q\<lparr>alive := []\<rparr>\<lparr>phase := Finishing\<rparr>)" using q(2) by (intro waited) simp_all
    ultimately have "(main_step cfg)\<^sup>*\<^sup>* p (q\<lparr>alive := []\<rparr>\<lparr>phase := Finishing\<rparr>)" using q(1) by (meson rtranclp.rtrancl_into_rtrancl rtranclp_trans)
    then show ?thesis using q(3) by (intro exI [of _ "q\<lparr>alive := []\<rparr>\<lparr>phase := Finishing\<rparr>"]) simp
  qed blast
  then obtain q where q: "(main_step cfg)\<^sup>*\<^sup>* p q" "phase q = Finishing" "history (psys q) = history (psys p)" by blast
  obtain p' where p': "(main_step cfg)\<^sup>*\<^sup>* q p'" "phase p' = Finished" "history (psys p') = history (psys q)"
      "ResultJSONPath cfg \<noteq> [] \<longrightarrow> report p' \<noteq> None"
    using finish_run [OF inv [OF q(1)] dist q(2)] by blast
  have run: "(main_step cfg)\<^sup>*\<^sup>* p p'" using q(1) p'(1) by (rule rtranclp_trans)
  then have "alive p' = []" using inv p'(2) by (auto simp: main_inv_def)
  then show ?thesis using run p' q(3) by auto
qed

text \<open>A run of the process, used by the witnesses: one worker is launched and records a success, the
  run is interrupted, the worker returns and main finishes.\<close>

definition demo_config :: Config where
  "demo_config = (read_config Map.empty)\<lparr>Workers := 1, ResultJSONPath := ''out/r.json''\<rparr>"

lemma demo_serving:
  "\<exists>p. reach (main_init demo_names) (main_step demo_config) p \<and> phase p = Serving \<and>
     history (psys p) = [(''insert'', 1 / 4, None)]"
proof -
  let ?c0 = "NewStatsCollector 0 demo_names" let ?c1 = "NewWorkerStats ?c0"
  let ?p0 = "\<lparr>phase = Launching 0, psys = \<lparr>coll = ?c0, drainer = None, history = []\<rparr>, alive = [], cancelled = False,
    ready_flag = False, stoppedBy = StoppedBySignal, report = None\<rparr>"
  let ?p1 = "?p0\<lparr>phase := Launching (Suc 0), psys := (psys ?p0)\<lparr>coll := ?c1\<rparr>, alive := [0]\<rparr>"
  have "table_ok demo_names (data (workers ?c1 ! 0))" and l: "length (workers ?c1) = 1" "ops ?c1 = demo_names"
    by (simp_all add: NewWorkerStats_def NewStatsCollector_def newWorkerStats_fresh fresh_stats_ok(1))
  then obtain ws where ws: "Record (workers ?c1 ! 0) ''insert'' (1 / 4) None = Some ws"
    using Record_ok(1) demo_distinct(2) by blast
  let ?p2 = "?p1\<lparr>psys := (psys ?p1)\<lparr>coll := ?c1\<lparr>workers := (workers ?c1)[0 := ws]\<rparr>,
    history := [(''insert'', 1 / 4, None)]\<rparr>\<rparr>"
  have "main_init demo_names ?p0" by (auto simp: main_init_def sys_init_def)
  then have "reach (main_init demo_names) (main_step demo_config) ?p0" by (rule reach.start)
  moreover have "main_step demo_config ?p0 ?p1" using launch [of ?p0 0 demo_config] by (simp add: demo_config_def)
  moreover have "main_step demo_config ?p1 ?p2"
    using records [of 0 ?p1 "''insert''" "1 / 4" None ws demo_config] ws l demo_distinct(2) by simp
  moreover have "main_step demo_config ?p2 (?p2\<lparr>phase := Launched, ready_flag := True\<rparr>)"
    using launched [of ?p2 "Suc 0" demo_config] by (simp add: demo_config_def)
  moreover have "main_step demo_config (?p2\<lparr>phase := Launched, ready_flag := True\<rparr>) (?p2\<lparr>phase := Serving, ready_flag := True\<rparr>)"
    using notify [of "?p2\<lparr>phase := Launched, ready_flag := True\<rparr>" demo_config] by simp
  ultimately have "reach (main_init demo_names) (main_step demo_config) (?p2\<lparr>phase := Serving, ready_flag := True\<rparr>)"
    by (meson reach.next_step)
  then show ?thesis by (intro exI [of _ "?p2\<lparr>phase := Serving, ready_flag := True\<rparr>"]) simp
qed

definition demo_deps :: "(unit, unit) deps" where
  "demo_deps = \<lparr>parse_dsn = (\<lambda>dsn. Inr \<lparr>dsn_config = (), MaxConns = 0, MinConns = 0\<rparr>), create_pool = (\<lambda>c. Inr ()), ping = (\<lambda>p. None),
     replies = (\<lambda>t c. reply_ok True []), polls = 1, seeds = (\<lambda>_. sconst 1), entropy0 = sconst 0, registered = [],
     size_rows = Inr ([], None), setting_rows = Inr ([], None)\<rparr>"

lemma demo_start_up:
  assumes "config_ok (read_config e)" "Profile (read_config e) = ProfileOLTP" "ResolveWeights e oltp_Ops = Inr wops"
  shows "\<exists>pool. start_up e demo_deps = prepare demo_deps (read_config e) OLTPProfile wops pool"
proof -
  let ?cfg = "read_config e"
  have l: "Load e = Inr ?cfg" using Load_Inr_iff [of e ?cfg] assms(1) by simp
  have g: "GetProfile (Profile ?cfg) profiles = Inr OLTPProfile" unfolding GetProfile_profiles using assms(2) by simp
  have w: "ResolveWeights e (prof_Ops OLTPProfile) = Inr wops" using assms(3) by (simp add: OLTPProfile_def)
  have n: "fst (NewPool (parse_dsn demo_deps) (create_pool demo_deps) (ping demo_deps) ?cfg) = Inr ()"
    by (simp add: NewPool_def demo_deps_def Let_def)
  let ?env = "\<lambda>(t :: nat) (c :: mcall). reply_ok True []"
  obtain k err msg where lead: "run_io (lead ?cfg oltpSchema) ?env 2 = (Returned (wrap_err msg err), map Exec (take k (ddls_of ?cfg oltpSchema)))"
      "ddl_prefix ?env 2 (ddls_of ?cfg oltpSchema) k err" using run_lead by blast
  then have err: "err = None" by (cases err) (auto simp: ddl_prefix_def ddl_err_def reply_ok_def)
  have m: "fst (run_io (MigrateWithLock (polls demo_deps) ?cfg (prof_Schema OLTPProfile)) (replies demo_deps) 0) = Returned None"
    using lead(1) by (simp add: err MigrateWithLock_def OLTPProfile_def demo_deps_def run_deferred numeral_2_eq_2 reply_ok_def wrap_err_def
        split: prod.splits)
  show ?thesis using l g w n m by (auto simp: start_up_def)
qed

lemma demo_mix: "ResolveWeights Map.empty oltp_Ops = Inr (resolved Map.empty oltp_Ops)"
  by (simp add: ResolveWeights_Inr resolved_def oltp_Ops_def weight_of_def getenv_def)

section \<open>Properties\<close>

text \<open>
  C5: Start-up hands the workers everything they rely on. With payloads up to \<open>2 ^ 30\<close> KB and
  no foreign metric of the program's prefix, and whatever the driver, the server and
  the random sources do, it panics only if the configuration is accepted with a \<open>RING_SIZE\<close>,
  \<open>USER_POOL_SIZE\<close> or \<open>ACTOR_POOL_SIZE\<close> above \<open>2 ^ 44\<close>, which \<open>make\<close> cannot allocate and with which it
  never gets as far as starting workers. If it does get there, the configuration is valid,
  the mix has non-negative weights with a 64-bit sum of 100 and different names, every metric
  is registered, the ring is empty and of the configured size, and every worker, for any run of
  the database, runs without a panic and keeps its metrics and its statistics in agreement.
\<close>

theorem start_up_establishes:
  assumes "MaxPayloadKB (read_config e) \<le> 2 ^ 30" and "\<forall>d \<in> set (registered D). take 8 (fqName d) \<noteq> ''pgstorm_''"
  shows "(start_up e D = Panicked \<longrightarrow> config_ok (read_config e) \<and> \<not> pools_fit (read_config e)) \<and>
    (\<forall>R. start_up e D = Up R \<longrightarrow>
       pools_fit (read_config e) \<and> run_cfg R = read_config e \<and> config_ok (run_cfg R) \<and>
       weights_ok (run_ops R) \<and> i64 (total_weight (run_ops R)) = 100 \<and> distinct (OpNames (run_ops R)) \<and>
       (\<exists>new. run_registry R = registered D @ new) \<and>
       ring_inv (run_ring R) \<and> contents (run_ring R) = [] \<and> rsize (run_ring R) = RingSize (run_cfg R) \<and>
       (\<forall>x ts. ring_inv (ring x) \<longrightarrow> (\<exists>go w. RunWorker (run_env R) (run_ops R) ts
          \<lparr>wexec = x, wstats = newWorkerStats (OpNames (run_ops R)), wmets = zero_metrics\<rparr> = Some (go, w) \<and>
          agree (OpNames (run_ops R)) (wstats w) (wmets w) \<and> ring_inv (ring (wexec w)))))"
proof -
  consider "\<exists>f. start_up e D = Exit f" | "start_up e D = Blocked"
    | wops pool where "config_ok (read_config e)" "ResolveWeights e oltp_Ops = Inr wops"
        "start_up e D = prepare D (read_config e) OLTPProfile wops pool"
    using start_up_cases [of e D] by blast
  then show ?thesis
  proof cases
    case 3
    show ?thesis
    proof (cases "pools_fit (read_config e)")
      case True
      obtain R where R: "start_up e D = Up R" "run_cfg R = read_config e" "run_ops R = wops" "env_ok (run_env R)"
          "ring_inv (run_ring R)" "contents (run_ring R) = []" "rsize (run_ring R) = RingSize (read_config e)"
          "run_registry R = registered D @ concat (all_collectors (Config.CreateIndexes (read_config e)))"
        using prepare_Up [OF 3(1) assms True, of OLTPProfile wops pool] 3(3) by auto
      have w: "wops = resolved e oltp_Ops" "weights_ok wops" "i64 (total_weight wops) = 100"
        using 3(2) by (auto simp: ResolveWeights_Inr)
      have ne: "wops \<noteq> []" by (simp add: w(1) oltp_names(2))
      have run: "\<exists>go w. RunWorker (run_env R) wops ts
          \<lparr>wexec = x, wstats = newWorkerStats (OpNames wops), wmets = zero_metrics\<rparr> = Some (go, w) \<and>
          agree (OpNames wops) (wstats w) (wmets w) \<and> ring_inv (ring (wexec w))" if "ring_inv (ring x)" for x ts
        using worker_runs [OF R(4) that ne, of ts] by blast
      have "distinct (OpNames wops)" using oltp_names(1) w(1) by simp
      then show ?thesis using R w(2,3) 3(1) run True by simp
    next
      case False
      then show ?thesis using prepare_Panicked [OF 3(1) assms(1) False, of D OLTPProfile wops pool] 3(1,3) by simp
    qed
  qed auto
qed

theorem start_up_establishes_witness:
  "(\<exists>R. start_up Map.empty demo_deps = Up R \<and> run_cfg R = read_config Map.empty \<and> distinct (OpNames (run_ops R)) \<and>
     contents (run_ring R) = [] \<and> rsize (run_ring R) = 10000) \<and>
   start_up [''RING_SIZE'' \<mapsto> ''1152921504606846976''] demo_deps = Panicked"
proof
  have c: "MaxPayloadKB (read_config Map.empty) \<le> 2 ^ 30" "RingSize (read_config Map.empty) = 10000"
      "pools_fit (read_config Map.empty)"
    by (simp_all add: pools_fit_def read_config_def getEnvInt_def getenv_def)
  have r: "\<forall>d \<in> set (registered demo_deps). take 8 (fqName d) \<noteq> ''pgstorm_''" by (simp add: demo_deps_def)
  note S = start_up_establishes [OF c(1) r]
  have P: "prepare D cfg p wops pool = Panicked \<or> (\<exists>R. prepare D cfg p wops pool = Up R)" for D :: "(unit, unit) deps" and cfg p wops pool
    by (simp add: prepare_def split: option.split prod.split)
  moreover have "config_ok (read_config Map.empty)" "Profile (read_config Map.empty) = ProfileOLTP"
    by (simp_all add: config_ok_def read_config_def getEnvInt_def getEnv_def getenv_def ProfileOLTP_def)
  ultimately obtain R where "start_up Map.empty demo_deps = Up R" using conjunct1 [OF S] c(3) demo_start_up [OF _ _ demo_mix] by metis
  then show "\<exists>R. start_up Map.empty demo_deps = Up R \<and> run_cfg R = read_config Map.empty \<and> distinct (OpNames (run_ops R)) \<and>
      contents (run_ring R) = [] \<and> rsize (run_ring R) = 10000" using S c(2) by auto
  let ?e = "[''RING_SIZE'' \<mapsto> ''1152921504606846976'']"
  have a: "atoi ''1152921504606846976'' = Some 1152921504606846976" by (simp add: atoi_compute)
  have b: "MaxPayloadKB (read_config ?e) \<le> 2 ^ 30" "\<not> pools_fit (read_config ?e)" "config_ok (read_config ?e)"
      "Profile (read_config ?e) = ProfileOLTP"
    by (simp_all add: pools_fit_def config_ok_def read_config_def getEnvInt_def getEnv_def getenv_def ProfileOLTP_def a)
  have m: "ResolveWeights ?e oltp_Ops = Inr (resolved ?e oltp_Ops)"
    by (simp add: ResolveWeights_Inr resolved_def oltp_Ops_def weight_of_def getenv_def)
  show "start_up ?e demo_deps = Panicked"
    using start_up_establishes [OF b(1) r] b(2) demo_start_up [OF b(3,4) m] P by metis
qed

text \<open>
  C4: The result file of a run tells what the workers did. In every reachable state of the
  process in which main has its report, all workers have returned, and what main then
  writes is a document that describes the complete history of the process: its totals, series
  and operations count every operation a worker has ever recorded, and none else. If the write
  reports no error, the file at the configured path is the text of this document and nothing else
  has changed; otherwise that file is as before. The run is reported as stopped by its duration
  only if a duration was configured.
\<close>

theorem main_reports_run:
  assumes "reach (main_init names) (main_step (run_cfg R)) p" and "distinct names" and "0 \<le> Workers (run_cfg R)"
    and "report p = Some rep"
    and "\<forall>t. create_temp fe (filepath_Dir (ResultJSONPath (run_cfg R))) = Inr t \<longrightarrow> t \<noteq> ResultJSONPath (run_cfg R) \<and> f0 t = None"
  shows "alive p = [] \<and> (\<exists>res err fss.
     write_result marshal_time filepath_Dir fe R end_rows (stoppedBy p) rep f0 = Some (res, err, fss) \<and>
     describes names (history (psys p)) res \<and>
     (StoppedBy res = StoppedByDuration \<longrightarrow> 0 < RunDurationSecs (run_cfg R)) \<and>
     (err = None \<longrightarrow> (\<exists>body. marshal_result marshal_time res = Inr body \<and>
        last fss = f0(ResultJSONPath (run_cfg R) \<mapsto> body @ [CHR 0x0A]))) \<and>
     (err \<noteq> None \<longrightarrow> last fss (ResultJSONPath (run_cfg R)) = f0 (ResultJSONPath (run_cfg R))))"
proof -
  have inv: "main_inv names (run_cfg R) p" using process.always_good [OF assms(1)] assms(2,3) by blast
  obtain tot ivs st ended where rep: "rep = (tot, ivs, st, ended)" by (metis prod_cases4)
  let ?meta = "\<lparr>mDataset = dataset_of (run_size R) (SnapshotDataset end_rows), mServer = run_server R,
    mStoppedBy = stoppedBy p, mTimeseries = ivs\<rparr>"
  have "reports names (history (psys p)) rep" and a: "alive p = []" and sb: "stoppedBy p = StoppedBySignal \<or> 0 < RunDurationSecs (run_cfg R)"
    using inv assms(4) by (auto simp: main_inv_def)
  then obtain res where res: "BuildRunResult tot st ended (run_cfg R) (run_ops R) ?meta = Some res"
      "describes names (history (psys p)) res" using reportsD [of names "history (psys p)" tot ivs st ended ?meta] rep by auto
  have "StoppedBy res = stoppedBy p" using res(1) by (auto simp: BuildRunResult_def Let_def split: bind_splits)
  then have dur: "StoppedBy res = StoppedByDuration \<longrightarrow> 0 < RunDurationSecs (run_cfg R)"
    using sb by (auto simp: StoppedBySignal_def StoppedByDuration_def)
  obtain err fss where w: "WriteRunResult marshal_time filepath_Dir fe (ResultJSONPath (run_cfg R)) res f0 = (err, fss)"
    by fastforce
  have "write_result marshal_time filepath_Dir fe R end_rows (stoppedBy p) rep f0 = Some (res, err, fss)"
    using res(1) w by (simp add: write_result_def rep)
  then show ?thesis using a res(2) dur WriteRunResult_states [OF w assms(5)] by blast
qed

theorem main_reports_run_witness:
  "\<exists>(R :: unit running) (p :: proc) rep res err fss. report p = Some rep \<and>
     write_result (\<lambda>t. Inr ''now'') (\<lambda>p. ''out'') (Result.demo_env None) R (Inr ([], None)) (stoppedBy p) rep Map.empty =
       Some (res, err, fss) \<and> tOps (Totals res) = 1 \<and> alive p = []"
proof -
  obtain e r where er: "env_ok e" "ring_inv r" using demo_env by blast
  let ?R = "\<lparr>run_cfg = demo_config, run_profile = OLTPProfile, run_ops = [], run_pool = (), run_ring = r, run_env = e,
    run_registry = [], run_size = None, run_server = None\<rparr>"
  have cfg: "run_cfg ?R = demo_config" "0 \<le> Workers (run_cfg ?R)" "ResultJSONPath (run_cfg ?R) = ''out/r.json''"
    by (simp_all add: demo_config_def)
  obtain p where p: "reach (main_init demo_names) (main_step demo_config) p" "phase p = Serving"
      "history (psys p) = [(''insert'', 1 / 4, None)]" using demo_serving by blast
  obtain p' where p': "(main_step demo_config)\<^sup>*\<^sup>* p p'" "history (psys p') = history (psys p)" "report p' \<noteq> None"
    using finishes [OF p(1) demo_distinct(1)] cfg p(2) by auto
  then obtain rep where rep: "report p' = Some rep" by blast
  have fresh: "\<forall>t. create_temp (Result.demo_env None) ''out'' = Inr t \<longrightarrow> t \<noteq> ResultJSONPath (run_cfg ?R) \<and> Map.empty t = None"
    unfolding cfg(3) by (simp add: Result.demo_env_def)
  have "reach (main_init demo_names) (main_step (run_cfg ?R)) p'"
    unfolding cfg(1) using p(1) p'(1) by (rule reach_rtranclp)
  from main_reports_run [OF this demo_distinct(1) cfg(2) rep fresh]
  obtain res err fss where "alive p' = []"
      "write_result (\<lambda>t. Inr ''now'') (\<lambda>p. ''out'') (Result.demo_env None) ?R (Inr ([], None)) (stoppedBy p') rep Map.empty =
         Some (res, err, fss)" "describes demo_names (history (psys p')) res" by blast
  moreover from this(3) have "tOps (Totals res) = 1" by (simp add: describes_def p(3) p'(2))
  ultimately show ?thesis using rep
    by (intro exI [of _ ?R] exI [of _ p'] exI [of _ rep] exI [of _ res] exI [of _ err] exI [of _ fss]) simp
qed

text \<open>
  C20: A run ends. From every reachable state in which main serves, waits or is finishing, the
  process can come to its end, with its report if a result is to be written and without losing
  anything recorded: an interrupt is enough, the workers return, a drain in progress completes
  and \<open>Finalize\<close> does not panic.
\<close>

theorem main_finishes:
  assumes "reach (main_init names) (main_step cfg) p" and "distinct names" and "0 \<le> Workers cfg"
    and "phase p = Serving \<or> phase p = Waiting \<or> phase p = Finishing"
  shows "\<exists>p'. (main_step cfg)\<^sup>*\<^sup>* p p' \<and> phase p' = Finished \<and> alive p' = [] \<and> history (psys p') = history (psys p) \<and>
     (ResultJSONPath cfg \<noteq> [] \<longrightarrow> report p' \<noteq> None)"
  using finishes [OF assms] .

theorem main_finishes_witness:
  "\<exists>p p'. reach (main_init demo_names) (main_step demo_config) p \<and> (main_step demo_config)\<^sup>*\<^sup>* p p' \<and> phase p' = Finished \<and>
     history (psys p') = [(''insert'', 1 / 4, None)] \<and> report p' \<noteq> None"
proof -
  obtain p where p: "reach (main_init demo_names) (main_step demo_config) p" "phase p = Serving"
      "history (psys p) = [(''insert'', 1 / 4, None)]" using demo_serving by blast
  have "0 \<le> Workers demo_config" "ResultJSONPath demo_config \<noteq> []" by (simp_all add: demo_config_def)
  then obtain p' where "(main_step demo_config)\<^sup>*\<^sup>* p p'" "phase p' = Finished" "history (psys p') = history (psys p)" "report p' \<noteq> None"
    using main_finishes [OF p(1) demo_distinct(1)] p(2) by blast
  then show ?thesis using p(1,3) by (intro exI [of _ p] exI [of _ p']) simp
qed

text \<open>
  C21: Readiness means that the workers run. In every reachable state, \<open>/readyz\<close> answers 200 or
  503; it answers 200 only if the loop that starts the workers is over and as many workers are
  registered as configured; from then on it answers 200 at every later moment; and it does so
  whenever main catches signals, waits or finishes. \<open>/healthz\<close> answers 200 throughout.
\<close>

theorem readiness_faithful:
  assumes "reach (main_init names) (main_step cfg) p" and "distinct names" and "0 \<le> Workers cfg"
  shows "http_status m p ''/healthz'' = 200 \<and> http_status m p ''/readyz'' \<in> {200, 503} \<and>
    (http_status m p ''/readyz'' = 200 \<longrightarrow>
       int (length (workers (coll (psys p)))) = Workers cfg \<and> (\<forall>k. phase p \<noteq> Launching k) \<and>
       (\<forall>p'. (main_step cfg)\<^sup>*\<^sup>* p p' \<longrightarrow> http_status m p' ''/readyz'' = 200)) \<and>
    (phase p \<in> {Serving, Waiting, Finishing, Finished} \<longrightarrow> http_status m p ''/readyz'' = 200)"
proof -
  have "main_inv names cfg p" using process.always_good [OF assms(1)] assms(2,3) by blast
  then have "ready_flag p \<Longrightarrow> int (length (workers (coll (psys p)))) = Workers cfg" "ready_flag p \<Longrightarrow> phase p \<noteq> Launching k" for k
    unfolding main_inv_def by blast+
  moreover have "ready_flag p'" if "(main_step cfg)\<^sup>*\<^sup>* p p'" "ready_flag p" for p'
    using that(1) by (induction rule: rtranclp_induct) (auto intro: that(2) ready_stays)
  moreover have "ready_flag p" if "phase p \<in> {Serving, Waiting, Finishing, Finished}"
    using ready_phases [OF assms(1)] that by blast
  ultimately show ?thesis by (auto simp: http_status_def readyz_def)
qed

theorem readiness_faithful_witness:
  "\<exists>p. reach (main_init demo_names) (main_step demo_config) p \<and> http_status 200 p ''/readyz'' = 200 \<and>
     length (workers (coll (psys p))) = 1"
proof -
  obtain p where p: "reach (main_init demo_names) (main_step demo_config) p" "phase p = Serving" using demo_serving by blast
  have "0 \<le> Workers demo_config" "Workers demo_config = 1" by (simp_all add: demo_config_def)
  then show ?thesis using readiness_faithful [OF p(1) demo_distinct(1), of 200] p by (intro exI [of _ p]) auto
qed

text \<open>
  C39: The timers of a run have the configured periods, up to the range of \<open>time.Duration\<close>. For every
  accepted configuration the summary loop ticks every \<open>SUMMARY_INTERVAL_SECS\<close> seconds and the pollers
  of tables, server and, exactly if indexes are created, of indexes every \<open>INDEX_STATS_INTERVAL_SECS\<close>, as long
  as these settings are at most 9223372036, the number of seconds that fit into 64 bits of nanoseconds.
  Above that the product wraps, and the process panics exactly if a wrapped period is not
  positive. A run without a duration has no timeout; with one of up to 9223372036 seconds the
  timeout is exact, and so is that of the shutdown. There are settings that \<open>Load\<close> accepts for which
  the process panics, and for which the run's timeout is negative, that is, over before it starts.
\<close>

theorem timers_configured:
  assumes "config_ok cfg"
  shows "((\<forall>l \<in> loops cfg. secs cfg l \<le> 9223372036) \<longrightarrow>
       (\<exists>ts. start_loops cfg = Some ts \<and> map_of ts = (\<lambda>l. if l \<in> loops cfg then Some (secs cfg l * 1000000000) else None))) \<and>
    (start_loops cfg = None \<longleftrightarrow> (\<exists>l \<in> loops cfg. secs cfg l * 1000000000 mod 2 ^ 64 \<notin> {1..<2 ^ 63})) \<and>
    (run_timeout cfg = None \<longleftrightarrow> RunDurationSecs cfg = 0) \<and>
    (0 < RunDurationSecs cfg \<and> RunDurationSecs cfg \<le> 9223372036 \<longrightarrow>
       run_timeout cfg = Some (RunDurationSecs cfg * 1000000000)) \<and>
    (ShutdownTimeoutSecs cfg \<le> 9223372036 \<longrightarrow> shutdown_timeout cfg = ShutdownTimeoutSecs cfg * 1000000000) \<and>
    (\<exists>c d. Load [''SUMMARY_INTERVAL_SECS'' \<mapsto> ''9223372037'', ''RUN_DURATION_SECS'' \<mapsto> ''9223372037''] = Inr c \<and>
       start_loops c = None \<and> run_timeout c = Some d \<and> d < 0)"
proof (intro conjI impI)
  have c: "1 \<le> SummaryIntervalSecs cfg" "1 \<le> IndexStatsIntervalSecs cfg" "1 \<le> ShutdownTimeoutSecs cfg" "0 \<le> RunDurationSecs cfg"
    using assms by (simp_all add: config_ok_def)
  have ex: "duration n Second = n * 1000000000" if "0 \<le> n" "n \<le> 9223372036" for n
    using that by (intro duration_exact) simp_all
  have p: "(\<forall>(l, d) \<in> set (background_loops cfg). 0 < d) \<longleftrightarrow> (\<forall>l \<in> loops cfg. secs cfg l * 1000000000 mod 2 ^ 64 \<in> {1..<2 ^ 63})"
    unfolding background_loops_def Let_def loops_def secs_def by (simp add: duration_positive_iff del: atLeastLessThan_iff)
  show "start_loops cfg = None \<longleftrightarrow> (\<exists>l \<in> loops cfg. secs cfg l * 1000000000 mod 2 ^ 64 \<notin> {1..<2 ^ 63})"
    unfolding start_loops_eq p by simp
  show "run_timeout cfg = None \<longleftrightarrow> RunDurationSecs cfg = 0" using c(4) by (auto simp: run_timeout_def)
  show "run_timeout cfg = Some (RunDurationSecs cfg * 1000000000)" if "0 < RunDurationSecs cfg \<and> RunDurationSecs cfg \<le> 9223372036"
    using that ex by (simp add: run_timeout_def)
  show "shutdown_timeout cfg = ShutdownTimeoutSecs cfg * 1000000000" if "ShutdownTimeoutSecs cfg \<le> 9223372036"
    using that ex c(3) by (simp add: shutdown_timeout_def)
  show "\<exists>ts. start_loops cfg = Some ts \<and> map_of ts = (\<lambda>l. if l \<in> loops cfg then Some (secs cfg l * 1000000000) else None)"
    if "\<forall>l \<in> loops cfg. secs cfg l \<le> 9223372036"
  proof -
    have "SummaryIntervalSecs cfg \<le> 9223372036" "IndexStatsIntervalSecs cfg \<le> 9223372036"
      using that by (auto simp: loops_def secs_def)
    then have "background_loops cfg = [(SummaryLoop, SummaryIntervalSecs cfg * 1000000000),
        (TableStatsLoop, IndexStatsIntervalSecs cfg * 1000000000), (PGStatsLoop, IndexStatsIntervalSecs cfg * 1000000000)] @
        (if Config.CreateIndexes cfg then [(IndexStatsLoop, IndexStatsIntervalSecs cfg * 1000000000)] else [])"
      using c ex by (simp add: background_loops_def Let_def)
    then show ?thesis using c(1,2) by (auto simp: start_loops_eq loops_def secs_def fun_eq_iff)
  qed
  let ?e = "[''SUMMARY_INTERVAL_SECS'' \<mapsto> ''9223372037'', ''RUN_DURATION_SECS'' \<mapsto> ''9223372037'']"
  have a: "atoi ''9223372037'' = Some 9223372037" by (simp add: atoi_compute)
  have s: "SummaryIntervalSecs (read_config ?e) = 9223372037" "RunDurationSecs (read_config ?e) = 9223372037" "config_ok (read_config ?e)"
    by (simp_all add: config_ok_def read_config_def getEnvInt_def getenv_def a)
  have d: "duration 9223372037 Second < 0" by (simp add: duration_def)
  then have "start_loops (read_config ?e) = None" using s(1) by (simp add: start_loops_eq background_loops_def Let_def)
  then show "\<exists>c d. Load ?e = Inr c \<and> start_loops c = None \<and> run_timeout c = Some d \<and> d < 0"
    using s d by (simp add: Load_Inr_iff run_timeout_def)
qed

theorem timers_configured_witness:
  "\<exists>ts. start_loops (read_config Map.empty) = Some ts \<and> map_of ts SummaryLoop = Some 30000000000 \<and>
     shutdown_timeout (read_config Map.empty) = ShutdownTimeoutSecs (read_config Map.empty) * 1000000000"
proof -
  have c: "config_ok (read_config Map.empty)" "SummaryIntervalSecs (read_config Map.empty) = 30"
      "IndexStatsIntervalSecs (read_config Map.empty) \<le> 9223372036" "ShutdownTimeoutSecs (read_config Map.empty) \<le> 9223372036"
    by (simp_all add: config_ok_def read_config_def getEnvInt_def getenv_def)
  have l: "SummaryLoop \<in> loops (read_config Map.empty)" "secs (read_config Map.empty) SummaryLoop = 30"
      "\<forall>l \<in> loops (read_config Map.empty). secs (read_config Map.empty) l \<le> 9223372036"
    using c(2,3) by (simp_all add: loops_def secs_def)
  note T = timers_configured [OF c(1)]
  obtain ts where "start_loops (read_config Map.empty) = Some ts" "map_of ts SummaryLoop = Some 30000000000"
    using conjunct1 [OF T] l by fastforce
  then show ?thesis using T c(4) by blast
qed

end
