(* ===== verification/Spec2Isabelle.thy ===== *)
theory Spec2Isabelle
  imports Config Ring Weights Conservation Payload Worker TableStats PgStats Exporter Schema Result Console Readback Program
begin

text \<open>
  pgstorm is a load generator for PostgreSQL, written in Go. One process reads its settings from
  the environment, creates the schema, starts a number of workers that execute a weighted mix of
  six operations against the database, and exports what it measures: Prometheus metrics, a
  console summary at regular intervals and one JSON file at the end. This development models the
  program and proves what makes its numbers trustworthy.

  \<^bold>\<open>The parts and the theories that model them.\<close> Definitions keep the names of the source; each theory
  begins with the definitions, in the order of the code, then has its specification, its lemmas
  and its properties.

  \<^item> \<open>Prelude\<close>: what Go and its standard library provide: wrapping conversions \<open>i64\<close> and \<open>i32\<close>,
    \<open>strconv\<close>, the limit above which \<open>make\<close> panics, error values with \<open>errors.Is\<close>, maps as association lists (\<open>gomap\<close>), the tape of a
    random source, reachable states and the locale \<open>inductive_invariant\<close>.
  \<^item> \<open>Float64\<close>: binary64 arithmetic as rationals rounded to nearest, ties to even, with the
    error bounds from which the exactness of ranks and microseconds follows.
  \<^item> \<open>Config\<close>: \<open>config/config.go\<close> (\<open>Load\<close> accepts exactly the documented ranges) and \<open>NewPool\<close> of
    \<open>db/pool.go\<close>; the conversion of a setting to a \<open>time.Duration\<close>, which wraps.
  \<^item> \<open>Ring\<close>: \<open>workload/ring.go\<close>. The locales \<open>recent_buffer\<close> and \<open>sampled_buffer\<close> state what a buffer
    of recent items promises; the ring is their interpretation.
  \<^item> \<open>Weights\<close>: \<open>workload/weights.go\<close>, the registry of \<open>workload/profile.go\<close> and the operations of the
    OLTP profile. The mix is exact for weights that really sum to 100; the check of the sum
    wraps.
  \<^item> \<open>Stats\<close>: \<open>opStats\<close>, \<open>WorkerStats\<close> and the quantiles of \<open>workload/stats.go\<close>. Every percentile is the
    nearest-rank value of the exact observations; the mean is exact while its 64-bit sum does not wrap.
  \<^item> \<open>Collector\<close> and \<open>Conservation\<close>: \<open>StatsCollector\<close> of \<open>workload/stats.go\<close>. \<open>Collector\<close> has the sequential
    functions and the invariant of the interval series; \<open>Conservation\<close> has the step relation in
    which recordings interleave the snapshots of a drain, and shows, once for every additive
    measure (locale \<open>additive_measure\<close>), that each observation is counted exactly once.
  \<^item> \<open>Randomness\<close> and \<open>Payload\<close>: \<open>workload/payload.go\<close>, with the parts of \<open>encoding/json\<close> and
    \<open>strconv\<close> it uses. Computations on a random source are partial functions of its tape;
    \<open>yields\<close> is their weakest-precondition style specification. Every payload is the JSON text of a
    document of its template pool in which only the identifier is replaced.
  \<^item> \<open>Json\<close>: the grammar of JSON texts as an inductive predicate and a recursive-descent parser that
    accepts it. Every payload parses as an object that differs from its template's in the
    identifier only.
  \<^item> \<open>Decimal\<close>: reading a printed double. Seventeen digits always determine a double, so the search of
    \<open>fmt_float\<close> ends, and the text it prints reads back as the same double.
  \<^item> \<open>Ops\<close>: \<open>workload/ops.go\<close>, \<open>workload/actors.go\<close> and \<open>Init\<close> of \<open>workload/oltp.go\<close>. The driver is a
    parameter that answers every call; transactions are specified as plans, and \<open>doInsert\<close> and
    \<open>doUpdate\<close> refine them; no path leaks a transaction or a result set.
  \<^item> \<open>Worker\<close>: \<open>workload/worker.go\<close> and \<open>metrics/metrics.go\<close>. The loop is proved for any executor in the
    locale \<open>executor\<close>, of which the OLTP executor is an interpretation.
  \<^item> \<open>Trackers\<close>, \<open>TableStats\<close>, \<open>PgStats\<close>: \<open>metrics/index_stats.go\<close> and \<open>metrics/pg_stats.go\<close> with the
    vendored Prometheus counter. The locale \<open>delta_tracker\<close> is what turns a statistic of the server
    into a counter, and is interpreted for both trackers; the locale \<open>poller\<close> is the loop over
    ticks and is interpreted for all three pollers.
  \<^item> \<open>Exporter\<close>: the registrations in the order of \<open>main\<close> and \<open>metrics/pool_collector.go\<close>.
  \<^item> \<open>Schema\<close>: \<open>db/schema.go\<close> and the schema of the OLTP profile. Migrations are trees of calls, run by
    any number of replicas interleaved against one server, whose sessions may end at any time and
    take the advisory lock with them.
  \<^item> \<open>Result\<close>: \<open>workload/result.go\<close>: the document of a run, its JSON form and its atomic write.
  \<^item> \<open>Ranges\<close> and \<open>Typing\<close>: no number of a run's result leaves the type of its field: counts fit 64
    bits, and rates, spans and latencies are finite doubles, because spans of time are multiples
    of \<open>2 powi (- 82)\<close>.
  \<^item> \<open>Readback\<close>: the text of a result parses, and every field of the record is read back from it.
  \<^item> \<open>Console\<close>: \<open>RunSummaryLoop\<close>, \<open>print\<close> and \<open>latencyCell\<close> of \<open>workload/stats.go\<close>, byte by byte.
    The specification \<open>summary_text\<close> is written from the observations of a window, without the
    statistics, the cells and the rows of the code.
  \<^item> \<open>Program\<close>: \<open>main.go\<close>. Start-up is a function with every fatal error and panic as a value, and so are the
    periods of the background loops and the timeouts; the run is a
    step relation of the main goroutine, the workers and the summary loop, under signals and
    the deadline. A step of the collector is a step of \<open>Conservation\<close>, so that what is proved there
    carries over to the process, and with \<open>Result\<close> to the file the process leaves behind.
  \<^item> This theory has the property that spans them all: from the environment and the .env file over
    start-up, the run and the write to what a reader of the file finds in it.

  \<^bold>\<open>What the properties show.\<close> The first group follows an observation from the worker that makes it
  to the file, the console and the metrics: nothing is lost or counted twice, whatever
  interleaves, and each number printed is the one its name says. The second group is about the
  load: the mix, the payloads, the transactions and the ring are what the settings ask for, and no
  operation panics or leaks. The third is about the environment: accepted settings, the
  migration by several replicas, the pollers and the registration of metrics. A few
  theorems show where the code does less than it says; the findings refer to them.

  \<^bold>\<open>Conventions.\<close> \<open>None\<close> is a panic or a nil dereference in functions that return an option; error
  returns are values of \<open>goerr\<close>, with wrapping as \<open>Wrap\<close> and the format verbs of messages dropped
  where nothing reads them. Instants and durations are nanoseconds. Go's randomised map iteration
  is the order of an association list, and results are shown not to depend on it.

  \<^bold>\<open>Bounds and fuel.\<close> Counters of operations are unbounded integers: they grow by one per operation,
  and \<open>Typing\<close> shows that they fit their type in a run of fewer than \<open>2 ^ 63\<close> operations.
  Machine width is kept where it matters: weights, durations, pool sizes, the sum behind a mean, statistics of the
  server and dataset sizes wrap. \<open>make\<close> panics above \<open>maxAlloc\<close>, the 48-bit address space of linux/amd64
  (\<open>make_ok\<close>), which is \<open>2 ^ 44\<close> identifiers of 16 bytes; memory that runs
  out below that limit is not modelled. Percentiles are exact for up to \<open>2 ^ 40\<close> samples, latencies up to
  \<open>2 ^ 50\<close> nanoseconds, payload settings up to \<open>2 ^ 30\<close> KB,
  console windows of up to \<open>2 ^ 40\<close> operations; whole numbers up to \<open>2 ^ 53\<close> are exact doubles, and the
  counters of the pollers stay below \<open>2 ^ 64\<close>. The shortest decimal of a double is searched
  with 400 steps for the exponent, which cover the range of doubles, and 17 digits, which
  are proved to suffice; the JSON parser has twice the length of the text as fuel, which is proved
  to be enough for every text of the grammar. \<open>WaitForSchema\<close> may poll for ever; it has fuel, \<open>T + 1\<close> polls are shown to be
  enough when the schema is visible from the \<open>T\<close>-th call on, and running out is the value \<open>Polling\<close>.
  Worker loop, pollers and summary loop are functions of the list of what the environment
  does in each pass.

  \<^bold>\<open>Parameters.\<close> The database driver, the server, the file system, the clock, the random sources, \<open>pgxpool\<close>,
  the JSON form of an instant and the time zone are arguments. What is assumed of them is named
  in the theorems: the documented behaviour of advisory locks, sessions and catalogs (\<open>pg_documented\<close>), that
  \<open>CreateTemp\<close> makes a new file, and that statistics of the server are whole numbers in range.

  \<^bold>\<open>Not modelled.\<close> Listening and shutting down the HTTP server, the syntax of a .env file (its variables are
  a parameter), log output, help texts of metrics and histogram buckets, the texts of queries that only read
  (each is one constructor or one kind of row), and the scheduling of goroutines beyond the
  interleavings of their critical sections. A panic in one goroutine, which ends the process,
  appears as \<open>None\<close> in the function that panics; the step relation of \<open>Program\<close> is that of a process whose
  background loops have started, and \<open>start_loops\<close> tells for which settings they do. Vendored packages, tests, dashboards and
  deployment files hold no logic of the program.
\<close>

section \<open>Lemmas\<close>

lemma start_up_Up:
  assumes "start_up e D = Up R"
  shows "run_cfg R = read_config e" "run_ops R = resolved e oltp_Ops" "config_ok (run_cfg R)" "Profile (run_cfg R) = ProfileOLTP"
    "run_size R = measured (run_cfg R) (SnapshotDataset (size_rows D))"
    "run_server R = measured (run_cfg R) (SnapshotServerInfo (setting_rows D))"
proof -
  have "run_cfg R = read_config e \<and> run_ops R = resolved e oltp_Ops \<and> config_ok (run_cfg R) \<and> Profile (run_cfg R) = ProfileOLTP \<and>
      run_size R = measured (run_cfg R) (SnapshotDataset (size_rows D)) \<and>
      run_server R = measured (run_cfg R) (SnapshotServerInfo (setting_rows D))"
    using assms
    by (auto simp: start_up_def prepare_def Load_Inr_iff GetProfile_profiles OLTPProfile_def ResolveWeights_Inr
        split: sum.splits outcome.splits option.splits)
  then show "run_cfg R = read_config e" "run_ops R = resolved e oltp_Ops" "config_ok (run_cfg R)" "Profile (run_cfg R) = ProfileOLTP"
    "run_size R = measured (run_cfg R) (SnapshotDataset (size_rows D))"
    "run_server R = measured (run_cfg R) (SnapshotServerInfo (setting_rows D))"
    by auto
qed

lemma measured_Some: "measured cfg m = Some x \<Longrightarrow> m = Some (Inr x)"
  by (auto simp: measured_def split: if_splits option.splits sum.splits)

lemma meta_typed:
  assumes "start_up e D = Up R" "rows_ok size_row_ok (size_rows D)" "rows_ok size_row_ok end_rows"
    "rows_ok setting_row_ok (setting_rows D)" "ascii by"
  shows "meta_ok \<lparr>mDataset = dataset_of (run_size R) (SnapshotDataset end_rows), mServer = run_server R, mStoppedBy = by, mTimeseries = ivs\<rparr>"
proof -
  note U = start_up_Up(5,6) [OF assms(1)]
  have "doc_ok (dataset_doc d)" if d: "dataset_of (run_size R) (SnapshotDataset end_rows) = Some d" for d
  proof -
    obtain x y where xy: "run_size R = Some x" "SnapshotDataset end_rows = Some (Inr y)"
        "d = \<lparr>dStart = x, dEnd = y, GrowthBytes = i64 (TotalBytes y - TotalBytes x)\<rparr>"
      using d by (auto simp: dataset_of_def split: option.splits sum.splits)
    have "SnapshotDataset (size_rows D) = Some (Inr x)" using xy(1) U(1) measured_Some by metis
    then show ?thesis using size_typed [OF _ assms(2)] size_typed [OF xy(2) assms(3)] by (simp add: dataset_doc_def xy(3))
  qed
  moreover have "doc_ok (server_doc v)" if "run_server R = Some v" for v
    using that U(2) measured_Some server_typed [OF _ assms(4)] by metis
  ultimately show ?thesis using assms(5) by (simp add: meta_ok_def)
qed

lemma weight_of_i64: "in_i64 (DefaultWeight od) \<Longrightarrow> in_i64 (weight_of e od)"
  by (auto simp: weight_of_def Let_def dest: atoi_range split: option.splits)

lemma mix_typed: "\<forall>w \<in> set (resolved e oltp_Ops). ascii (Name w) \<and> in_i64 (Weight w)"
proof -
  have "\<forall>od \<in> set oltp_Ops. ascii (OpName od) \<and> in_i64 (DefaultWeight od)"
    by (simp add: oltp_Ops_def in_i64_def OpInsert_def OpReadSimple_def OpReadJoin_def OpUpdate_def OpDelete_def OpReadByIP_def)
  then show ?thesis using weight_of_i64 by (auto simp: resolved_def)
qed

text \<open>The report is that of a \<open>Finalize\<close> on the complete history.\<close>

lemma report_final:
  assumes "reach (main_init names) (main_step cfg) p" "distinct names" "0 \<le> Workers cfg"
  shows "report p = Some rep \<Longrightarrow> \<exists>s now ended c'. reach (sys_init names) sys_step s \<and> drainer s = None \<and>
    history s = history (psys p) \<and> Finalize (coll s) now ended = Some (rep, c')"
  using assms(1)
proof (induction rule: reach.induct)
  case (start p)
  then show ?case by (auto simp: main_init_def)
next
  case (next_step p p')
  have inv: "main_inv names cfg p" using process.always_good [OF next_step.hyps(1)] assms(2,3) by blast
  from next_step.hyps(2) show ?case
  proof (cases rule: main_step.cases)
    case (finalize now ended rep' c')
    have "reach (sys_init names) sys_step (psys p)" using inv by (simp add: main_inv_def)
    then show ?thesis using finalize next_step.prems by (intro exI [of _ "psys p"]) auto
  next
    case (records i op d err ws)
    have "alive p \<noteq> []" using records(2) by auto
    then have "report p \<noteq> Some rep" using inv unfolding main_inv_def by blast
    then show ?thesis using records(1) next_step.prems by simp
  qed (use next_step in \<open>auto simp: drain_step_def\<close>)
qed

lemma describes_sorted: "describes names h (sorted_maps r) = describes names h r"
  by (simp add: describes_def sorted_maps_def)

section \<open>Properties\<close>

text \<open>
  C3: The file of a run can be read, and tells the run. Suppose \<open>start_up\<close> succeeds with some
  environment and some .env file, the process runs under any interleaving of workers, summaries, signals and
  deadlines until main has its report, with fewer than \<open>2 ^ 63\<close> operations of fewer than \<open>2 ^ 63\<close>
  microseconds each, the rows the server reports of its sizes and settings have their types, and the write
  reports no error. Then the bytes at the configured path parse as JSON, and the result read
  back from them has as its totals, series and operations exactly the complete history of
  the process, with an operation's latency block absent exactly if it never succeeded.
\<close>

theorem result_file_tells_run:
  assumes "start_up (load_dotenv file e) D = Up R" and "reach (main_init (OpNames (run_ops R))) (main_step (run_cfg R)) p"
    and "report p = Some rep"
    and "length (history (psys p)) < 2 ^ 63" and "\<forall>(op, d, err) \<in> set (history (psys p)). to_micros d < 2 ^ 63"
    and "rows_ok size_row_ok (size_rows D)" and "rows_ok size_row_ok end_rows" and "rows_ok setting_row_ok (setting_rows D)"
    and "\<forall>t s. marshal_time t = Inr s \<longrightarrow> ascii s \<and> parse_time s = Some t"
    and "\<forall>t. create_temp fe (filepath_Dir (ResultJSONPath (run_cfg R))) = Inr t \<longrightarrow> t \<noteq> ResultJSONPath (run_cfg R) \<and> f0 t = None"
    and "write_result marshal_time filepath_Dir fe R end_rows (stoppedBy p) rep f0 = Some (res, None, fss)"
  shows "\<exists>bytes res'. last fss (ResultJSONPath (run_cfg R)) = Some bytes \<and> unmarshal_result parse_time bytes = Some res' \<and>
    describes (OpNames (run_ops R)) (history (psys p)) res'"
proof -
  note U = start_up_Up [OF assms(1)]
  let ?names = "OpNames (run_ops R)" and ?cfg = "run_cfg R"
  have names: "distinct ?names" using oltp_names(1) U(2) by simp
  have W: "0 \<le> Workers ?cfg" using U(3) by (simp add: config_ok_def)
  obtain tot ivs st ended where rep: "rep = (tot, ivs, st, ended)" by (metis prod_cases4)
  define meta where "meta = \<lparr>mDataset = dataset_of (run_size R) (SnapshotDataset end_rows), mServer = run_server R,
    mStoppedBy = stoppedBy p, mTimeseries = ivs\<rparr>"
  obtain s now ended' c' where s: "reach (sys_init ?names) sys_step s" "drainer s = None" "history s = history (psys p)"
      "Finalize (coll s) now ended' = Some (rep, c')" using report_final [OF assms(2) names W assms(3)] by blast
  have F: "Finalize (coll s) now ended = Some ((tot, ivs, st, ended), c')"
    using s(4) Finalize_reach(4) [OF s(1) names s(2) s(4) [unfolded rep]] by (simp add: rep)
  have B: "BuildRunResult tot st ended ?cfg (run_ops R) (meta\<lparr>mTimeseries := ivs\<rparr>) = Some res"
    and Wr: "WriteRunResult marshal_time filepath_Dir fe (ResultJSONPath ?cfg) res f0 = (None, fss)"
    using assms(11) by (auto simp: write_result_def rep meta_def split: Option.bind_splits)
  have "main_inv ?names ?cfg p" using process.always_good [OF assms(2)] names W by blast
  then have "stoppedBy p = StoppedBySignal \<or> stoppedBy p = StoppedByDuration" unfolding main_inv_def by blast
  then have "ascii (stoppedBy p)" by (auto simp: StoppedBySignal_def StoppedByDuration_def)
  then have m: "meta_ok meta" unfolding meta_def using assms(1,6-8) by (intro meta_typed)
  have mix: "\<forall>w \<in> set (run_ops R). ascii (Name w) \<and> in_i64 (Weight w)" using mix_typed U(2) by simp
  then have asc: "\<forall>op \<in> set ?names. ascii op" by (auto simp: OpNames_def)
  have prof: "ascii (Profile ?cfg)" unfolding U(4) by (simp add: ProfileOLTP_def)
  have cfg: "doc_ok (config_doc (run_config ?cfg (run_ops R)))"
    using config_doc_ok [OF _ prof mix] read_config_i64 U(1) by simp
  have ok: "doc_ok (result_doc [] [] res)"
    using result_doc_ok [OF s(1) names s(2) F B _ _ asc _ _ prof cfg m] assms(4,5) s(3) by simp
  have D: "describes ?names (history s) res" using s(1) names s(2) F B by (rule Finalize_describes)
  obtain body where b: "marshal_result marshal_time res = Inr body" "last fss = f0(ResultJSONPath ?cfg \<mapsto> body @ [CHR 0x0A])"
    using WriteRunResult_states [OF Wr assms(10)] by blast
  have "unmarshal_result parse_time (body @ [CHR 0x0A]) = Some (sorted_maps res)"
    using result_reads_back [OF b(1) assms(9) ok] .
  then show ?thesis using b(2) D s(3) by (intro exI [of _ "body @ [CHR 0x0A]"] exI [of _ "sorted_maps res"]) (simp add: describes_sorted)
qed

text \<open>A run of one worker, stopped before its first operation; the file names the result, and its number of
  workers does not replace that of the process.\<close>

definition demo_environment :: env where
  "demo_environment = load_dotenv (Inr [''WORKERS'' \<mapsto> ''50'', ''RESULT_JSON_PATH'' \<mapsto> ''r.json'']) [''WORKERS'' \<mapsto> ''1'']"

definition demo_parse :: "string \<Rightarrow> int option" where
  "demo_parse s = (if s \<noteq> [] \<and> hd s = CHR ''-'' then map_option (\<lambda>n. - int n) (parse_uint (tl s)) else map_option int (parse_uint s))"

lemma demo_parse_itoa: "demo_parse (itoa t) = Some t"
proof (cases "t < 0")
  case True
  then show ?thesis by (simp add: demo_parse_def itoa_def parse_uint_def parse_nat_digits)
next
  case False
  have "\<not> is_digit (CHR ''-'')" by (simp add: is_digit_def)
  then have "hd (nat_digits (nat t)) \<noteq> CHR ''-''" using nat_digits_hd [of "nat t"] by metis
  then show ?thesis using False by (simp add: demo_parse_def itoa_def parse_uint_def parse_nat_digits)
qed

lemma demo_settings:
  "Workers (read_config demo_environment) = 1" "ResultJSONPath (read_config demo_environment) = ''r.json''"
  "Profile (read_config demo_environment) = ProfileOLTP" "MaxPayloadKB (read_config demo_environment) \<le> 2 ^ 30"
  "config_ok (read_config demo_environment)" "ResolveWeights demo_environment oltp_Ops = Inr (resolved demo_environment oltp_Ops)"
proof -
  have "atoi ''1'' = Some 1" by (simp add: atoi_compute)
  then show "Workers (read_config demo_environment) = 1" "ResultJSONPath (read_config demo_environment) = ''r.json''"
    "Profile (read_config demo_environment) = ProfileOLTP" "MaxPayloadKB (read_config demo_environment) \<le> 2 ^ 30"
    "config_ok (read_config demo_environment)"
    by (simp_all add: config_ok_def read_config_def getEnvInt_def getEnv_def getenv_def demo_environment_def load_dotenv_def ProfileOLTP_def)
  show "ResolveWeights demo_environment oltp_Ops = Inr (resolved demo_environment oltp_Ops)"
    by (simp add: ResolveWeights_Inr resolved_def oltp_Ops_def weight_of_def getenv_def demo_environment_def load_dotenv_def)
qed

lemma demo_up: "\<exists>R. start_up demo_environment demo_deps = Up R"
proof -
  obtain pool where s: "start_up demo_environment demo_deps =
      prepare demo_deps (read_config demo_environment) OLTPProfile (resolved demo_environment oltp_Ops) pool"
    using demo_start_up [OF demo_settings(5,3,6)] by blast
  have "\<forall>d \<in> set (registered demo_deps). take 8 (fqName d) \<noteq> ''pgstorm_''" by (simp add: demo_deps_def)
  moreover have "pools_fit (read_config demo_environment)"
    by (simp add: pools_fit_def read_config_def getEnvInt_def getenv_def demo_environment_def load_dotenv_def)
  ultimately show ?thesis using prepare_Up [OF demo_settings(5,4)] s by metis
qed

lemma one_worker_serves:
  assumes "Workers cfg = 1"
  shows "\<exists>p. reach (main_init names) (main_step cfg) p \<and> phase p = Serving \<and> history (psys p) = []"
proof -
  let ?p0 = "\<lparr>phase = Launching 0, psys = \<lparr>coll = NewStatsCollector 0 names, drainer = None, history = []\<rparr>, alive = [], cancelled = False,
    ready_flag = False, stoppedBy = StoppedBySignal, report = None\<rparr>"
  let ?p1 = "?p0\<lparr>phase := Launching (Suc 0), psys := (psys ?p0)\<lparr>coll := NewWorkerStats (coll (psys ?p0))\<rparr>, alive := [0]\<rparr>"
  let ?p2 = "?p1\<lparr>phase := Launched, ready_flag := True\<rparr>" let ?p3 = "?p2\<lparr>phase := Serving\<rparr>"
  have "reach (main_init names) (main_step cfg) ?p0" by (rule reach.start) (auto simp: main_init_def sys_init_def)
  moreover have "main_step cfg ?p0 ?p1" using main_step.launch [of ?p0 0 cfg] assms by simp
  moreover have "main_step cfg ?p1 ?p2" using main_step.launched [of ?p1 "Suc 0" cfg] assms by simp
  moreover have "main_step cfg ?p2 ?p3" using main_step.notify [of ?p2 cfg] by simp
  ultimately have "reach (main_init names) (main_step cfg) ?p3" by (meson reach.next_step)
  then show ?thesis by (intro exI [of _ ?p3]) simp
qed

theorem result_file_tells_run_witness:
  "\<exists>(R :: unit running) (p :: proc) rep res fss bytes res'. start_up demo_environment demo_deps = Up R \<and>
     reach (main_init (OpNames (run_ops R))) (main_step (run_cfg R)) p \<and> report p = Some rep \<and>
     write_result (\<lambda>t. Inr (itoa t)) (\<lambda>p. ''.'') (Result.demo_env None) R (Inr ([], None)) (stoppedBy p) rep Map.empty = Some (res, None, fss) \<and>
     last fss ''r.json'' = Some bytes \<and> unmarshal_result demo_parse bytes = Some res' \<and>
     tOps (Totals res') = 0 \<and> map rOp (ResOperations res') = sort (OpNames (run_ops R))"
proof -
  obtain R :: "unit running" where R: "start_up demo_environment demo_deps = Up R" using demo_up by blast
  let ?names = "OpNames (run_ops R)" and ?cfg = "run_cfg R"
  have cfg: "Workers ?cfg = 1" "0 \<le> Workers ?cfg" "ResultJSONPath ?cfg = ''r.json''" using demo_settings(1,2) start_up_Up(1) [OF R] by simp_all
  have dist: "distinct ?names" using oltp_names(1) start_up_Up(2) [OF R] by simp
  obtain p0 where p0: "reach (main_init ?names) (main_step ?cfg) p0" "phase p0 = Serving" "history (psys p0) = []"
    using one_worker_serves [OF cfg(1)] by blast
  obtain p rep where p: "(main_step ?cfg)\<^sup>*\<^sup>* p0 p" "history (psys p) = []" "report p = Some rep"
    using finishes [OF p0(1) dist cfg(2)] p0(2,3) cfg(3) by auto
  have r: "reach (main_init ?names) (main_step ?cfg) p" using p0(1) p(1) by (rule reach_rtranclp)
  obtain tot ivs st ended where rep: "rep = (tot, ivs, st, ended)" by (metis prod_cases4)
  let ?meta = "\<lparr>mDataset = dataset_of (run_size R) (SnapshotDataset (Inr ([], None))), mServer = run_server R,
    mStoppedBy = stoppedBy p, mTimeseries = ivs\<rparr>"
  have "reports ?names (history (psys p)) rep" using process.always_good [OF r] dist cfg(2) p(3) unfolding main_inv_def by blast
  then obtain res where res: "BuildRunResult tot st ended ?cfg (run_ops R) ?meta = Some res"
    unfolding rep using reportsD [of ?names "history (psys p)" tot ivs st ended ?meta] by auto
  obtain fss where w: "WriteRunResult (\<lambda>t. Inr (itoa t)) (\<lambda>p. ''.'') (Result.demo_env None) ''r.json'' res Map.empty = (None, fss)"
    by (simp add: WriteRunResult_def marshal_result_def Result.demo_env_def Let_def)
  have W: "write_result (\<lambda>t. Inr (itoa t)) (\<lambda>p. ''.'') (Result.demo_env None) R (Inr ([], None)) (stoppedBy p) rep Map.empty = Some (res, None, fss)"
    using res w cfg(3) by (simp add: write_result_def rep)
  have "rows_ok size_row_ok (size_rows demo_deps)" "rows_ok size_row_ok (Inr ([], None))" "rows_ok setting_row_ok (setting_rows demo_deps)"
    by (simp_all add: rows_ok_def demo_deps_def)
  moreover have "\<forall>t s. (Inr (itoa t) :: goerr + string) = Inr s \<longrightarrow> ascii s \<and> demo_parse s = Some t" by (simp add: ascii_itoa demo_parse_itoa)
  moreover have "\<forall>t. create_temp (Result.demo_env None) ''.'' = Inr t \<longrightarrow> t \<noteq> ResultJSONPath ?cfg \<and> Map.empty t = None"
    by (simp add: cfg(3) Result.demo_env_def)
  ultimately obtain bytes res' where "last fss ''r.json'' = Some bytes" "unmarshal_result demo_parse bytes = Some res'"
      "describes ?names (history (psys p)) res'"
    using result_file_tells_run [OF R [unfolded demo_environment_def] r p(3) _ _ _ _ _ _ _ W, where parse_time = demo_parse] p(2) cfg(3) by auto
  then show ?thesis using R r p(3) W
    by (intro exI [of _ R] exI [of _ p] exI [of _ rep] exI [of _ res] exI [of _ fss] exI [of _ bytes] exI [of _ res'])
      (simp add: describes_def p(2))
qed

end
